(* ===== verification/Sdds_Prelude.thy ===== *)
theory Sdds_Prelude
  imports Complex_Main "HOL-Library.Word" "HOL-Library.Log_Nat" "HOL-Library.Multiset"
begin

text \<open>
  Shared vocabulary of the development: names for the machine integers of the program, the
  lists of simplification rules that carry the component proofs, the error values of the
  model, and generic lemmas on floors of rational numbers, words, lists and multisets.
\<close>

unbundle bit_operations_syntax

section \<open>Machine types\<close>

type_synonym u8 = "8 word"
type_synonym u16 = "16 word"
type_synonym u32 = "32 word"
type_synonym u64 = "64 word"

section \<open>Rule collections\<close>

named_theorems dbl_defs \<open>definitions that evaluate double precision arithmetic\<close>
named_theorems wire_simps \<open>laws of the byte order conversions\<close>
named_theorems frame_simps \<open>fields an operation leaves as they are\<close>

section \<open>Errors the C++ program can run into\<close>

text \<open>
  The program has no exceptions on its data path: what goes wrong there is undefined
  behaviour or a signal. Each is a value here, so that it is a branch of the model.
\<close>

datatype fault =
    DivideByZero     \<comment> \<open>integer division by zero, SIGFPE\<close>
  | OutOfRange       \<comment> \<open>a container is read or sliced past its end\<close>
  | NullStream       \<comment> \<open>a method is called on a stream handle that holds no stream\<close>

type_synonym 'a result = "fault + 'a"

fun bind_result :: "'a result \<Rightarrow> ('a \<Rightarrow> 'b result) \<Rightarrow> 'b result" where
  "bind_result (Inl e) f = Inl e"
| "bind_result (Inr x) f = f x"

lemma bind_result_Inr: "bind_result r f = Inr y \<longleftrightarrow> (\<exists>x. r = Inr x \<and> f x = Inr y)"
  by (cases r) auto

lemma bind_result_Inl: "bind_result r f = Inl e \<longleftrightarrow> r = Inl e \<or> (\<exists>x. r = Inr x \<and> f x = Inl e)"
  by (cases r) auto

lemma bind_result_assoc:
  "bind_result (bind_result r f) g = bind_result r (\<lambda>x. bind_result (f x) g)"
  by (cases r) auto

text \<open>
  \<open>holds E Q r\<close>: the result \<open>r\<close> is a value with property \<open>Q\<close> or a fault with property \<open>E\<close>. The
  rule for \<open>bind_result\<close> takes a sequence of fallible steps apart.
\<close>

fun holds :: "(fault \<Rightarrow> bool) \<Rightarrow> ('a \<Rightarrow> bool) \<Rightarrow> 'a result \<Rightarrow> bool" where
  "holds E Q (Inl e) = E e"
| "holds E Q (Inr x) = Q x"

lemma holds_bind [simp]: "holds E Q (bind_result r f) = holds E (\<lambda>x. holds E Q (f x)) r"
  by (cases r) auto

lemma holds_mono: "holds E P r \<Longrightarrow> (\<And>x. P x \<Longrightarrow> Q x) \<Longrightarrow> (\<And>e. E e \<Longrightarrow> F e) \<Longrightarrow> holds F Q r"
  by (cases r) auto

lemma holds_if [simp]: "holds E Q (if b then r else s) = (if b then holds E Q r else holds E Q s)"
  by simp

lemma holds_total: "holds (\<lambda>_. False) Q r \<Longrightarrow> \<exists>x. r = Inr x \<and> Q x"
  by (cases r) auto

lemma holds_Inr: "holds E Q r \<Longrightarrow> r = Inr x \<Longrightarrow> Q x"
  by simp

lemma holds_Inl: "holds E Q r \<Longrightarrow> r = Inl e \<Longrightarrow> E e"
  by simp

section \<open>Floors and powers of two on rational numbers\<close>

lemma floor_rat_numeral [simp]: "\<lfloor>numeral a / numeral b :: rat\<rfloor> = numeral a div numeral b"
  using floor_divide_of_int_eq [of "numeral a" "numeral b", where 'a = rat] by simp

lemma ceiling_rat_numeral [simp]: "\<lceil>numeral a / numeral b :: rat\<rceil> = - ((- numeral a) div numeral b)"
  using floor_divide_of_int_eq [of "- numeral a" "numeral b", where 'a = rat]
  by (simp add: ceiling_def)

lemma floor_rat_neg_numeral [simp]:
  "\<lfloor>- (numeral a / numeral b) :: rat\<rfloor> = (- numeral a) div numeral b"
  using floor_divide_of_int_eq [of "- numeral a" "numeral b", where 'a = rat] by simp

lemma floor_rat_one_numeral [simp]: "\<lfloor>1 / numeral b :: rat\<rfloor> = 1 div numeral b"
  using floor_divide_of_int_eq [of 1 "numeral b", where 'a = rat] by simp

lemma ceiling_rat_one_numeral [simp]: "\<lceil>1 / numeral b :: rat\<rceil> = - ((- 1) div numeral b)"
  using floor_divide_of_int_eq [of "- 1" "numeral b", where 'a = rat]
  by (simp add: ceiling_def)

lemma floor_rat_neg_one_numeral [simp]: "\<lfloor>- (1 / numeral b) :: rat\<rfloor> = (- 1) div numeral b"
  using floor_divide_of_int_eq [of "- 1" "numeral b", where 'a = rat] by simp

lemma powi2_pos [simp]: "0 < (2 :: rat) powi e"
  by (simp add: zero_less_power_int)

lemma powi2_nonneg [simp]: "0 \<le> (2 :: rat) powi e"
  using powi2_pos [of e] by linarith

lemma powi2_neq0 [simp]: "(2 :: rat) powi e \<noteq> 0"
  using powi2_pos [of e] by linarith

lemma powi2_Suc: "(2 :: rat) powi (e + 1) = 2 * 2 powi e"
  by (simp add: power_int_add)

lemma powi2_mono: "a \<le> b \<Longrightarrow> (2 :: rat) powi a \<le> 2 powi b"
  by (rule power_int_increasing) simp_all

lemma powi2_less_iff [simp]: "(2 :: rat) powi a < 2 powi b \<longleftrightarrow> a < b"
  by (metis linorder_not_less nle_le power_int_strict_increasing powi2_mono one_less_numeral_iff
      semiring_norm(76))

lemma powi2_divide: "(2 :: rat) powi a / 2 powi b = 2 powi (a - b)"
  by (simp add: power_int_diff)

lemma powi2_nat: "0 \<le> e \<Longrightarrow> (2 :: rat) powi e = of_int (2 ^ nat e)"
  by (simp add: power_int_def)

section \<open>Lists and multisets\<close>

lemma mset_take_drop: "mset (take n xs) + mset (drop n xs) = mset xs"
  by (metis append_take_drop_id mset_append)

lemma set_take_drop: "set (take n xs) \<union> set (drop n xs) = set xs"
  by (metis append_take_drop_id set_append)

end
