(* ===== verification/Binary64.thy ===== *)
theory Binary64
  imports Sdds_Prelude
begin

text \<open>
  The C++ \<open>double\<close>: IEEE 754 binary64 with rounding to nearest, ties to even. A finite
  double is held as its exact rational value, so that an operation is the exact rational
  operation followed by \<open>rnd\<close>. Both zeros are the value 0 (the program never divides by
  a value that can be a negative zero and never inspects the sign of a zero). The lemmas show
  that \<open>rnd\<close> is exact on representable values and monotone.
\<close>

section \<open>Rounding a rational number to a double\<close>

datatype dbl = Fin rat | PInf | MInf | NaN

text \<open>Nearest integer, ties to even.\<close>

definition rne :: "rat \<Rightarrow> int" where
  "rne x = (let f = \<lfloor>x\<rfloor>; r = x - of_int f in
     if r < 1 / 2 then f else if 1 / 2 < r then f + 1 else if even f then f else f + 1)"

text \<open>The exponent of the leading binary digit of a positive number.\<close>

definition ilog2 :: "rat \<Rightarrow> int" where
  "ilog2 x = (if 1 \<le> x then bitlen \<lfloor>x\<rfloor> - 1 else - bitlen (\<lceil>1 / x\<rceil> - 1))"

text \<open>The exponent of the last of the 53 digits, with the subnormal limit.\<close>

definition ulp_exp :: "rat \<Rightarrow> int" where
  "ulp_exp x = max (- 1074) (ilog2 \<bar>x\<bar> - 52)"

definition round_at :: "int \<Rightarrow> rat \<Rightarrow> rat" where
  "round_at e x = of_int (rne (x / 2 powi e)) * 2 powi e"

definition rnd :: "rat \<Rightarrow> dbl" where
  "rnd x = (if x = 0 then Fin 0 else
     let y = round_at (ulp_exp x) x in
     if 2 ^ 1024 \<le> y then PInf else if y \<le> - (2 ^ 1024) then MInf else Fin y)"

section \<open>Operations\<close>

fun dneg :: "dbl \<Rightarrow> dbl" where
  "dneg (Fin x) = Fin (- x)"
| "dneg PInf = MInf"
| "dneg MInf = PInf"
| "dneg NaN = NaN"

fun dadd :: "dbl \<Rightarrow> dbl \<Rightarrow> dbl" where
  "dadd (Fin x) (Fin y) = rnd (x + y)"
| "dadd NaN _ = NaN"
| "dadd _ NaN = NaN"
| "dadd PInf MInf = NaN"
| "dadd MInf PInf = NaN"
| "dadd PInf _ = PInf"
| "dadd _ PInf = PInf"
| "dadd MInf _ = MInf"
| "dadd _ MInf = MInf"

definition dsub :: "dbl \<Rightarrow> dbl \<Rightarrow> dbl" where
  "dsub x y = dadd x (dneg y)"

text \<open>Infinity with the sign of a number; NaN for zero (infinity times zero).\<close>

definition inf_sgn :: "rat \<Rightarrow> dbl" where
  "inf_sgn x = (if 0 < x then PInf else if x < 0 then MInf else NaN)"

fun dmul :: "dbl \<Rightarrow> dbl \<Rightarrow> dbl" where
  "dmul (Fin x) (Fin y) = rnd (x * y)"
| "dmul NaN _ = NaN"
| "dmul _ NaN = NaN"
| "dmul (Fin x) PInf = inf_sgn x"
| "dmul (Fin x) MInf = inf_sgn (- x)"
| "dmul PInf (Fin x) = inf_sgn x"
| "dmul MInf (Fin x) = inf_sgn (- x)"
| "dmul PInf PInf = PInf"
| "dmul MInf MInf = PInf"
| "dmul _ _ = MInf"

text \<open>Division; a zero divisor is the positive zero (see the header of this theory).\<close>

fun ddiv :: "dbl \<Rightarrow> dbl \<Rightarrow> dbl" where
  "ddiv (Fin x) (Fin y) = (if y = 0 then inf_sgn x else rnd (x / y))"
| "ddiv NaN _ = NaN"
| "ddiv _ NaN = NaN"
| "ddiv (Fin _) _ = Fin 0"
| "ddiv PInf (Fin y) = (if 0 \<le> y then PInf else MInf)"
| "ddiv MInf (Fin y) = (if 0 \<le> y then MInf else PInf)"
| "ddiv _ _ = NaN"

fun dless :: "dbl \<Rightarrow> dbl \<Rightarrow> bool" where
  "dless (Fin x) (Fin y) = (x < y)"
| "dless NaN _ = False"
| "dless _ NaN = False"
| "dless MInf y = (y \<noteq> MInf)"
| "dless x PInf = (x \<noteq> PInf)"
| "dless _ _ = False"

text \<open>The C++ \<open>==\<close>, false on NaN; \<open>!=\<close> is its negation, true on NaN.\<close>

definition deq :: "dbl \<Rightarrow> dbl \<Rightarrow> bool" where
  "deq x y \<longleftrightarrow> x = y \<and> x \<noteq> NaN"

fun dabs :: "dbl \<Rightarrow> dbl" where
  "dabs (Fin x) = Fin \<bar>x\<bar>"
| "dabs NaN = NaN"
| "dabs _ = PInf"

text \<open>\<open>std::floor\<close>, and \<open>round\<close>, which takes halves away from zero.\<close>

fun dfloor :: "dbl \<Rightarrow> dbl" where
  "dfloor (Fin x) = Fin (of_int \<lfloor>x\<rfloor>)"
| "dfloor d = d"

fun dround :: "dbl \<Rightarrow> dbl" where
  "dround (Fin x) = Fin (if 0 \<le> x then of_int \<lfloor>x + 1 / 2\<rfloor> else - of_int \<lfloor>- x + 1 / 2\<rfloor>)"
| "dround d = d"

text \<open>
  Conversions between integers and doubles. Converting a double to an unsigned integer is
  defined in C++ only when the truncated value fits; None stands for the undefined case.
\<close>

definition dbl_of_int :: "int \<Rightarrow> dbl" where
  "dbl_of_int n = rnd (of_int n)"

definition dbl_of_word :: "'a::len word \<Rightarrow> dbl" where
  "dbl_of_word w = rnd (of_nat (unat w))"

fun word_of_dbl :: "dbl \<Rightarrow> 'a::len word option" where
  "word_of_dbl (Fin x) =
     (if - 1 < x \<and> x < 2 ^ LENGTH('a) then Some (of_int (if 0 \<le> x then \<lfloor>x\<rfloor> else 0)) else None)"
| "word_of_dbl _ = None"

section \<open>Evaluating closed terms\<close>

lemma bitlen_numeral [simp]:
  "bitlen 1 = 1"
  "bitlen (numeral num.One) = 1"
  "bitlen (numeral (num.Bit0 n)) = bitlen (numeral n) + 1"
  "bitlen (numeral (num.Bit1 n)) = bitlen (numeral n) + 1"
  by (simp_all add: compute_bitlen [of 1] compute_bitlen [of "numeral (num.Bit0 n)"]
      compute_bitlen [of "numeral (num.Bit1 n)"])

lemma powi2_neg_numeral [simp]: "(2 :: rat) powi (- numeral n) = 1 / 2 ^ numeral n"
  by (simp add: power_int_minus inverse_eq_divide)

lemmas rnd_defs = rnd_def round_at_def ulp_exp_def ilog2_def rne_def

declare rnd_defs [dbl_defs] and dsub_def [dbl_defs] and inf_sgn_def [dbl_defs]
  and deq_def [dbl_defs] and dbl_of_int_def [dbl_defs] and dbl_of_word_def [dbl_defs]

section \<open>Rounding to an integer\<close>

lemma rne_of_int [simp]: "rne (of_int n) = n"
  by (simp add: rne_def)

lemma rne_0 [simp]: "rne 0 = 0"
  using rne_of_int [of 0] by simp

lemma rne_bounds: "\<lfloor>x\<rfloor> \<le> rne x" "rne x \<le> \<lfloor>x\<rfloor> + 1"
  by (simp_all add: rne_def Let_def)

lemma rne_error: "\<bar>of_int (rne x) - x\<bar> \<le> 1 / 2"
proof -
  have "of_int \<lfloor>x\<rfloor> \<le> x" "x < of_int \<lfloor>x\<rfloor> + 1"
    by linarith+
  then show ?thesis
    by (auto simp: rne_def Let_def abs_le_iff)
qed

lemma rne_mono:
  assumes "x \<le> y"
  shows "rne x \<le> rne y"
proof (cases "\<lfloor>x\<rfloor> = \<lfloor>y\<rfloor>")
  case True
  then show ?thesis
    using assms by (auto simp: rne_def Let_def)
next
  case False
  then have "\<lfloor>x\<rfloor> + 1 \<le> \<lfloor>y\<rfloor>"
    using assms floor_mono [of x y] by linarith
  then show ?thesis
    using rne_bounds [of x] rne_bounds [of y] by linarith
qed

section \<open>The leading digit\<close>

lemma ilog2_bounds:
  assumes "0 < x"
  shows "2 powi ilog2 x \<le> x \<and> x < 2 powi (ilog2 x + 1)"
proof (cases "1 \<le> x")
  case True
  define n where "n = \<lfloor>x\<rfloor>"
  have "0 < n" using True by (simp add: n_def)
  then have b: "2 ^ nat (bitlen n - 1) \<le> n" "n < 2 ^ nat (bitlen n)" and p: "0 < bitlen n"
    using bitlen_bounds [of n] bitlen_nonneg [of n] bitlen_eq_zero_iff [of n] by auto
  have lo: "2 powi (bitlen n - 1) \<le> x"
  proof -
    have "(2::rat) powi (bitlen n - 1) = of_int (2 ^ nat (bitlen n - 1))"
      using p by (simp add: powi2_nat)
    also have "\<dots> \<le> of_int n" using b(1) by (simp only: of_int_le_iff)
    also have "\<dots> \<le> x" by (simp add: n_def)
    finally show ?thesis .
  qed
  have "x < of_int n + 1" unfolding n_def by linarith
  also have "\<dots> \<le> of_int (2 ^ nat (bitlen n))"
    using b(2) by (metis add1_zle_eq of_int_1 of_int_add of_int_le_iff)
  also have "\<dots> = 2 powi (bitlen n)"
    using p by (simp add: powi2_nat)
  finally show ?thesis using True lo by (simp add: ilog2_def n_def)
next
  case False
  define c where "c = \<lceil>1 / x\<rceil> - 1"
  have y: "1 < 1 / x" using False assms by simp
  then have "0 < c" by (simp add: c_def less_ceiling_iff)
  then have b: "2 ^ nat (bitlen c - 1) \<le> c" "c < 2 ^ nat (bitlen c)" and p: "0 < bitlen c"
    using bitlen_bounds [of c] bitlen_nonneg [of c] bitlen_eq_zero_iff [of c] by auto
  have "1 / x \<le> of_int (c + 1)" by (simp add: c_def)
  also have "\<dots> \<le> of_int (2 ^ nat (bitlen c))"
    using b(2) by (simp only: of_int_le_iff)
  also have "\<dots> = 2 powi (bitlen c)"
    using p by (simp add: powi2_nat)
  finally have lo: "2 powi (- bitlen c) \<le> x"
    using assms by (simp add: power_int_minus field_simps)
  have "(2::rat) powi (bitlen c - 1) = of_int (2 ^ nat (bitlen c - 1))"
    using p by (simp add: powi2_nat)
  also have "\<dots> \<le> of_int c" using b(1) by (simp only: of_int_le_iff)
  also have "\<dots> < 1 / x" by (simp add: c_def) linarith
  finally have "2 powi (bitlen c - 1) < 1 / x" .
  then have "x < 2 powi (- (bitlen c - 1))"
    using assms by (subst power_int_minus) (simp add: field_simps)
  then show ?thesis using False lo by (simp add: ilog2_def c_def)
qed

lemma ilog2_less_iff:
  assumes "0 < x"
  shows "ilog2 x < e \<longleftrightarrow> x < 2 powi e"
proof
  assume "ilog2 x < e"
  then have "(2::rat) powi (ilog2 x + 1) \<le> 2 powi e" by (simp add: powi2_mono)
  then show "x < 2 powi e" using ilog2_bounds [OF assms] by linarith
next
  assume "x < 2 powi e"
  then have "(2::rat) powi ilog2 x < 2 powi e" using ilog2_bounds [OF assms] by linarith
  then show "ilog2 x < e" by simp
qed

lemma ilog2_mono: "0 < x \<Longrightarrow> x \<le> y \<Longrightarrow> ilog2 x \<le> ilog2 y"
  using ilog2_bounds [of x] ilog2_bounds [of y] ilog2_less_iff [of y "ilog2 x"]
  by (meson linorder_not_less order.strict_trans1 order.strict_trans2 order_le_less_trans)

section \<open>Rounding on a grid\<close>

lemma round_at_grid: "round_at e (of_int n * 2 powi e) = of_int n * 2 powi e"
  by (simp add: round_at_def)

lemma round_at_mono: "x \<le> y \<Longrightarrow> round_at e x \<le> round_at e y"
  by (simp add: round_at_def rne_mono divide_right_mono)

lemma round_at_minus_exact:
  assumes "e \<le> k"
  shows "round_at e (of_int n * 2 powi k) = of_int n * 2 powi k"
proof -
  have "(2::rat) powi k = 2 powi (k - e) * 2 powi e"
    by (simp flip: power_int_add)
  also have "\<dots> = of_int (2 ^ nat (k - e)) * 2 powi e"
    using assms by (simp add: powi2_nat)
  finally have "of_int n * (2::rat) powi k = of_int (n * 2 ^ nat (k - e)) * 2 powi e"
    by simp
  then show ?thesis by (metis round_at_grid)
qed

lemma round_at_pow2: "e \<le> k \<Longrightarrow> round_at e (2 powi k) = 2 powi k"
  using round_at_minus_exact [of e k 1] by simp

lemma ulp_exp_mono: "0 < x \<Longrightarrow> x \<le> y \<Longrightarrow> ulp_exp x \<le> ulp_exp y"
  using ilog2_mono [of x y] by (auto simp: ulp_exp_def)

lemma round_mono_pos:
  assumes "0 < x" "x \<le> y"
  shows "round_at (ulp_exp x) x \<le> round_at (ulp_exp y) y"
proof (cases "ulp_exp x = ulp_exp y")
  case True
  then show ?thesis using round_at_mono [OF assms(2)] by simp
next
  case False
  let ?k = "ilog2 y"
  from assms have y: "0 < y" by linarith
  from False ulp_exp_mono [OF assms] have less: "ulp_exp x < ulp_exp y" by linarith
  then have k: "ulp_exp y = ?k - 52" and xk: "ilog2 x < ?k"
    using assms y by (auto simp: ulp_exp_def max_def split: if_splits)
  have "x \<le> 2 powi ?k"
    using xk ilog2_less_iff [OF assms(1)] by force
  then have "round_at (ulp_exp x) x \<le> round_at (ulp_exp x) (2 powi ?k)"
    by (rule round_at_mono)
  also have "\<dots> = 2 powi ?k" using less k by (intro round_at_pow2) simp
  also have "\<dots> = round_at (ulp_exp y) (2 powi ?k)" using k by (simp add: round_at_pow2)
  also have "\<dots> \<le> round_at (ulp_exp y) y"
    using ilog2_bounds [OF y] by (intro round_at_mono) simp
  finally show ?thesis .
qed

lemma round_at_nonneg: "0 \<le> x \<Longrightarrow> 0 \<le> round_at e x"
  using round_at_mono [of 0 x e] by (simp add: round_at_def)

section \<open>Rounding to a double\<close>

text \<open>
  The doubles in increasing order, NaN left out: \<open>dle_real d b\<close> and \<open>dge_real d b\<close> bound
  a double by a rational number.
\<close>

fun dle :: "dbl \<Rightarrow> dbl \<Rightarrow> bool" where
  "dle (Fin x) (Fin y) = (x \<le> y)"
| "dle NaN _ = False"
| "dle _ NaN = False"
| "dle MInf _ = True"
| "dle _ PInf = True"
| "dle _ _ = False"

lemma dle_refl [simp]: "dle d d \<longleftrightarrow> d \<noteq> NaN"
  by (cases d) auto

lemma dle_trans: "dle a b \<Longrightarrow> dle b c \<Longrightarrow> dle a c"
  by (cases a; cases b; cases c) auto

lemma rnd_not_NaN [simp]: "rnd x \<noteq> NaN"
  by (simp add: rnd_def Let_def)

lemma rnd_0 [simp]: "rnd 0 = Fin 0"
  by (simp add: rnd_def)

lemma rnd_nonneg_cases:
  assumes "0 \<le> x"
  shows "rnd x = (let y = round_at (ulp_exp x) x in if 2 ^ 1024 \<le> y then PInf else Fin y)"
proof -
  have "0 \<le> round_at (ulp_exp x) x" using assms by (rule round_at_nonneg)
  moreover have "- (2 ^ 1024 :: rat) < 0" by (simp only: neg_less_0_iff_less zero_less_power zero_less_numeral)
  ultimately have "\<not> round_at (ulp_exp x) x \<le> - (2 ^ 1024)" by linarith
  moreover have "\<not> 2 ^ 1024 \<le> (0 :: rat)" by (simp only: not_le zero_less_power zero_less_numeral)
  ultimately show ?thesis
    by (auto simp: rnd_def Let_def round_at_def)
qed

lemma rnd_mono:
  assumes "0 \<le> x" "x \<le> y"
  shows "dle (rnd x) (rnd y)"
proof (cases "x = 0")
  case True
  then show ?thesis
    using assms round_at_nonneg [of y "ulp_exp y"] by (simp add: rnd_nonneg_cases Let_def)
next
  case False
  then have "round_at (ulp_exp x) x \<le> round_at (ulp_exp y) y"
    using assms by (intro round_mono_pos) simp_all
  moreover have "0 \<le> y" using assms by linarith
  ultimately show ?thesis
    using assms by (auto simp: rnd_nonneg_cases Let_def)
qed

text \<open>The values that have 53 digits or fewer and no bit below the subnormal limit.\<close>

definition representable :: "rat \<Rightarrow> bool" where
  "representable x \<longleftrightarrow> (\<exists>m k. x = of_int m * 2 powi k \<and> \<bar>m\<bar> \<le> 2 ^ 53 \<and> - 1074 \<le> k \<and> k \<le> 970)"

lemma representable_abs_less:
  assumes "x = of_int m * (2 :: rat) powi k" "\<bar>m\<bar> \<le> 2 ^ 53" "k \<le> 970"
  shows "\<bar>x\<bar> < 2 powi 1024"
proof -
  have "\<bar>x\<bar> = of_int \<bar>m\<bar> * 2 powi k"
    using assms(1) by (simp add: abs_mult)
  also have "\<dots> \<le> of_int (2 ^ 53) * 2 powi k"
    using assms(2) by (intro mult_right_mono) (simp_all only: of_int_le_iff powi2_nonneg)
  also have "\<dots> = (2 :: rat) powi (53 + k)"
    by (simp add: power_int_add)
  also have "\<dots> < 2 powi 1024" using assms(3) by (simp only: powi2_less_iff)
  finally show ?thesis .
qed

lemma rnd_exact:
  assumes "representable x"
  shows "rnd x = Fin x"
proof (cases "x = 0")
  case False
  from assms obtain m k where x: "x = of_int m * 2 powi k"
    and m: "\<bar>m\<bar> \<le> 2 ^ 53" and k: "- 1074 \<le> k" "k \<le> 970"
    unfolding representable_def by blast
  have ax: "\<bar>x\<bar> = of_int \<bar>m\<bar> * 2 powi k" using x by (simp add: abs_mult)
  have exact: "round_at (ulp_exp x) x = x"
  proof (cases "\<bar>m\<bar> = 2 ^ 53")
    case True
    then have "\<bar>x\<bar> = 2 powi (53 + k)" using ax by (simp add: power_int_add)
    then have "ilog2 \<bar>x\<bar> < 53 + k + 1"
      using False by (subst ilog2_less_iff) simp_all
    then have le: "ulp_exp x \<le> k + 1" using k by (simp add: ulp_exp_def)
    from True have "m = 2 ^ 53 \<or> m = - (2 ^ 53)" by linarith
    then have "m = 2 * (m div 2)" by (elim disjE) simp_all
    then have "x = of_int (m div 2) * 2 powi (k + 1)"
      using x by (simp add: powi2_Suc)
    then show ?thesis using le by (metis round_at_minus_exact)
  next
    case False2: False
    with m have "\<bar>m\<bar> < 2 ^ 53" by linarith
    then have "of_int \<bar>m\<bar> < (of_int (2 ^ 53) :: rat)" by (simp only: of_int_less_iff)
    then have "\<bar>x\<bar> < of_int (2 ^ 53) * 2 powi k"
      unfolding ax by (intro mult_strict_right_mono) simp_all
    then have "\<bar>x\<bar> < 2 powi (53 + k)" by (simp add: power_int_add)
    then have "ilog2 \<bar>x\<bar> < 53 + k"
      using False by (subst ilog2_less_iff) simp_all
    then have "ulp_exp x \<le> k" using k by (simp add: ulp_exp_def)
    then show ?thesis using x by (metis round_at_minus_exact)
  qed
  have "\<bar>x\<bar> < 2 ^ 1024"
    using representable_abs_less [OF x m k(2)] by (simp only: power_int_numeral)
  then have "\<not> 2 ^ 1024 \<le> x" "\<not> x \<le> - (2 ^ 1024)" by linarith+
  then show ?thesis
    using False exact by (simp only: rnd_def Let_def if_False)
qed simp

lemma representable_int: "\<bar>n\<bar> \<le> 2 ^ 53 \<Longrightarrow> representable (of_int n)"
  unfolding representable_def by (rule exI [of _ n], rule exI [of _ 0]) simp

lemma rnd_small_int: "\<bar>n\<bar> \<le> 2 ^ 53 \<Longrightarrow> rnd (of_int n) = Fin (of_int n)"
  by (rule rnd_exact) (rule representable_int)

lemma rnd_le:
  assumes "0 \<le> x" "x \<le> b" "representable b"
  shows "\<exists>y. rnd x = Fin y \<and> 0 \<le> y \<and> y \<le> b"
proof -
  have "dle (rnd x) (Fin b)"
    using rnd_mono [OF assms(1,2)] rnd_exact [OF assms(3)] by simp
  moreover have "dle (Fin 0) (rnd x)"
    using rnd_mono [of 0 x] assms(1) by simp
  ultimately show ?thesis by (cases "rnd x") auto
qed

lemma rnd_ge:
  assumes "0 \<le> b" "b \<le> x" "representable b"
  shows "dle (Fin b) (rnd x)"
  using rnd_mono [OF assms(1,2)] rnd_exact [OF assms(3)] by simp

section \<open>Positive doubles between two powers of two\<close>

definition in_pow :: "int \<Rightarrow> int \<Rightarrow> dbl \<Rightarrow> bool" where
  "in_pow a b d \<longleftrightarrow> (case d of Fin x \<Rightarrow> 2 powi a \<le> x \<and> x \<le> 2 powi b | _ \<Rightarrow> False)"

lemma in_powE:
  assumes "in_pow a b d"
  obtains x where "d = Fin x" "2 powi a \<le> x" "x \<le> 2 powi b" "0 < x"
proof -
  from assms obtain x where x: "d = Fin x" "2 powi a \<le> x" "x \<le> 2 powi b"
    by (cases d) (auto simp: in_pow_def)
  moreover have "0 < x" using x(2) powi2_pos [of a] by linarith
  ultimately show thesis by (rule that)
qed

lemma in_pow_weaken:
  assumes "in_pow a b d" "a' \<le> a" "b \<le> b'"
  shows "in_pow a' b' d"
proof -
  from assms(1) obtain x where "d = Fin x" "2 powi a \<le> x" "x \<le> 2 powi b" by (rule in_powE)
  then show ?thesis
    using powi2_mono [OF assms(2)] powi2_mono [OF assms(3)] by (simp add: in_pow_def)
qed

lemma representable_pow2:
  assumes "- 1074 \<le> k" "k \<le> 1023"
  shows "representable (2 powi k)"
proof (cases "k \<le> 970")
  case True
  show ?thesis unfolding representable_def
    by (rule exI [of _ 1], rule exI [of _ k]) (use True assms in simp)
next
  case False
  show ?thesis unfolding representable_def
  proof (intro exI conjI)
    show "(2 :: rat) powi k = of_int (2 ^ 53) * 2 powi (k - 53)"
      by (simp add: power_int_diff)
    show "- 1074 \<le> k - 53" "k - 53 \<le> 970" using False assms by linarith+
  qed simp
qed

lemma in_pow_rnd:
  assumes "2 powi a \<le> x" "x \<le> 2 powi b" "- 1074 \<le> a" "b \<le> 1023"
  shows "in_pow a b (rnd x)"
proof -
  have "(2 :: rat) powi a \<le> 2 powi b" using assms by linarith
  then have "a \<le> b" using powi2_less_iff [of b a] by linarith
  then have "dle (Fin (2 powi a)) (rnd x)" "dle (rnd x) (Fin (2 powi b))"
    using rnd_mono [of "2 powi a" x] rnd_mono [of x "2 powi b"] assms
      order_trans [OF powi2_nonneg assms(1)]
      rnd_exact [OF representable_pow2, of a] rnd_exact [OF representable_pow2, of b] by simp_all
  then show ?thesis by (cases "rnd x") (simp_all add: in_pow_def)
qed

lemma in_pow_dmul:
  assumes "in_pow a b x" "in_pow c d y" "- 1074 \<le> a + c" "b + d \<le> 1023"
  shows "in_pow (a + c) (b + d) (dmul x y)"
proof -
  from assms(1) obtain u where u: "x = Fin u" "2 powi a \<le> u" "u \<le> 2 powi b" "0 < u" by (rule in_powE)
  from assms(2) obtain v where v: "y = Fin v" "2 powi c \<le> v" "v \<le> 2 powi d" "0 < v" by (rule in_powE)
  have "2 powi (a + c) \<le> u * v"
    using mult_mono [OF u(2) v(2)] u(4) by (simp add: power_int_add)
  moreover have "u * v \<le> 2 powi (b + d)"
    using mult_mono [OF u(3) v(3)] v(4) by (simp add: power_int_add)
  ultimately show ?thesis using assms(3,4) by (simp add: u v in_pow_rnd)
qed

lemma in_pow_inverse:
  assumes "in_pow a b x" "- 1074 \<le> - b" "- a \<le> 1023"
  shows "in_pow (- b) (- a) (ddiv (Fin 1) x)"
proof -
  from assms(1) obtain u where u: "x = Fin u" "2 powi a \<le> u" "u \<le> 2 powi b" "0 < u" by (rule in_powE)
  have "2 powi (- b) \<le> 1 / u" using u by (simp add: power_int_minus field_simps)
  moreover have "1 / u \<le> 2 powi (- a)" using u by (simp add: power_int_minus field_simps)
  ultimately show ?thesis using u assms(2,3) by (simp add: in_pow_rnd)
qed

lemma in_pow_word:
  assumes "w \<noteq> 0" "int LENGTH('a::len) \<le> 1023"
  shows "in_pow 0 (int LENGTH('a)) (dbl_of_word (w :: 'a word))"
proof -
  define n where "n = unat w"
  have "1 \<le> n" using assms(1) by (simp add: n_def Suc_le_eq unat_gt_0)
  then have lo: "(2 :: rat) powi 0 \<le> of_nat n" by simp
  have "n < 2 ^ LENGTH('a)" unfolding n_def by (rule unsigned_less)
  then have "(of_nat n :: rat) \<le> of_nat (2 ^ LENGTH('a))" by (simp only: of_nat_le_iff less_imp_le)
  then have hi: "of_nat n \<le> (2 :: rat) powi (int LENGTH('a))" by simp
  have "in_pow 0 (int LENGTH('a)) (rnd (of_nat n))"
    by (rule in_pow_rnd [OF lo hi]) (use assms(2) in simp_all)
  then show ?thesis by (simp only: dbl_of_word_def n_def)
qed

lemma dsub_self: "in_pow a b x \<Longrightarrow> dsub x x = Fin 0"
  by (erule in_powE) (simp add: dsub_def)

section \<open>The rounding error\<close>

lemma rnd_error:
  assumes x: "0 \<le> x" "x \<le> 2 powi k" and k: "- 1022 \<le> k" "k \<le> 1023"
  shows "\<exists>y. rnd x = Fin y \<and> \<bar>y - x\<bar> \<le> 2 powi (k - 53) \<and> 0 \<le> y \<and> y \<le> 2 powi k"
proof (cases "x = 0")
  case False
  then have pos: "0 < x" using x by simp
  have rep: "representable (2 powi k)" by (rule representable_pow2) (use k in linarith)+
  obtain y where y: "rnd x = Fin y" "0 \<le> y" "y \<le> 2 powi k" using rnd_le [OF x rep] by blast
  then have eq: "y = round_at (ulp_exp x) x"
    using False by (auto simp: rnd_def Let_def split: if_splits)
  let ?e = "ulp_exp x"
  have "(2 :: rat) powi k < 2 powi (k + 1)" by simp
  then have "x < 2 powi (k + 1)" using x(2) by linarith
  then have "ilog2 x < k + 1" using pos by (simp only: ilog2_less_iff)
  then have e: "?e \<le> k - 52" using k pos by (simp add: ulp_exp_def)
  have "\<bar>of_int (rne (x / 2 powi ?e)) - x / 2 powi ?e\<bar> \<le> 1 / 2" by (rule rne_error)
  then have "\<bar>of_int (rne (x / 2 powi ?e)) - x / 2 powi ?e\<bar> * 2 powi ?e \<le> 1 / 2 * 2 powi ?e"
    by (rule mult_right_mono) simp
  moreover have "\<bar>of_int (rne (x / 2 powi ?e)) - x / 2 powi ?e\<bar> * 2 powi ?e = \<bar>y - x\<bar>"
  proof -
    have "(of_int (rne (x / 2 powi ?e)) - x / 2 powi ?e) * 2 powi ?e = y - x"
      by (simp add: eq round_at_def left_diff_distrib)
    then show ?thesis by (metis abs_mult abs_of_nonneg powi2_nonneg)
  qed
  ultimately have "\<bar>y - x\<bar> \<le> 1 / 2 * 2 powi ?e" by simp
  also have "\<dots> \<le> 1 / 2 * 2 powi (k - 52)" using powi2_mono [OF e] by simp
  also have "\<dots> = 2 powi (k - 53)" using powi2_Suc [of "k - 53"] by simp
  finally show ?thesis using y by blast
qed simp

section \<open>Rounding is symmetric\<close>

lemma rne_minus: "rne (- x) = - rne x"
proof (cases "x = of_int \<lfloor>x\<rfloor>")
  case True
  then have "rne x = \<lfloor>x\<rfloor>" "rne (- x) = - \<lfloor>x\<rfloor>"
    by (metis rne_of_int) (metis True of_int_minus rne_of_int)
  then show ?thesis by simp
next
  case False
  define f where "f = \<lfloor>x\<rfloor>"
  have f: "of_int f < x" "x < of_int f + 1" using False unfolding f_def by linarith+
  have m: "\<lfloor>- x\<rfloor> = - f - 1" by (rule floor_unique) (use f in simp_all)
  show ?thesis
    unfolding rne_def Let_def m f_def [symmetric] using f by auto
qed

lemma round_at_minus: "round_at e (- x) = - round_at e x"
  using rne_minus [of "x / 2 powi e"] by (simp add: round_at_def)

lemma rnd_minus: "rnd (- x) = dneg (rnd x)"
proof -
  have "\<not> 2 ^ 1024 \<le> (0 :: rat)" by (simp only: not_le zero_less_power zero_less_numeral)
  then have "2 ^ 1024 \<le> y \<Longrightarrow> \<not> y \<le> - (2 ^ 1024)" for y :: rat by linarith
  then show ?thesis
    by (auto simp: rnd_def Let_def ulp_exp_def round_at_minus le_minus_iff minus_le_iff)
qed

text \<open>A rounded value is at least as far from zero as a power of two the number is beyond.\<close>

lemma rnd_abs_ge:
  assumes "2 powi k \<le> \<bar>x\<bar>" "- 1074 \<le> k" "k \<le> 1023"
  shows "dle (Fin (2 powi k)) (dabs (rnd x))"
proof -
  have pos: "dle (Fin (2 powi k)) (rnd \<bar>x\<bar>)"
    using assms(1) representable_pow2 [OF assms(2,3)] by (rule rnd_ge [OF powi2_nonneg])
  moreover have "dabs (rnd x) = dabs (rnd \<bar>x\<bar>)"
    by (cases "0 \<le> x") (simp_all add: abs_if rnd_minus, cases "rnd x", simp_all)
  ultimately show ?thesis
    using powi2_pos [of k] by (cases "rnd \<bar>x\<bar>") auto
qed

end
