(* ===== verification/Byte_Order.thy ===== *)
theory Byte_Order
  imports Sdds_Prelude
begin

text \<open>
  Bytes in memory and on the wire. The host is little endian (\<open>sddspacket.h\<close> assumes it):
  \<open>le_load\<close> and \<open>le_store\<close> are what a load or a store of an unsigned integer does to the
  bytes. \<open>ntohs\<close>, \<open>ntohl\<close> (and \<open>htons\<close>, \<open>htonl\<close>, the same functions) and the program's own
  \<open>swap8\<close> reverse the bytes; all three are shown to be that reversal, and so involutions that
  turn a little endian load of network bytes into the big endian value.
\<close>

section \<open>Loads and stores\<close>

fun le_load :: "u8 list \<Rightarrow> 'a::len word" where
  "le_load [] = 0"
| "le_load (b # bs) = ucast b OR push_bit 8 (le_load bs)"

fun le_store :: "nat \<Rightarrow> 'a::len word \<Rightarrow> u8 list" where
  "le_store 0 w = []"
| "le_store (Suc n) w = ucast w # le_store n (drop_bit 8 w)"

definition be_load :: "u8 list \<Rightarrow> 'a::len word" where
  "be_load bs = le_load (rev bs)"

lemma length_le_store [simp]: "length (le_store n w) = n"
  by (induction n arbitrary: w) auto

lemma bit_le_load:
  "bit (le_load bs :: 'a::len word) n \<longleftrightarrow>
     n < LENGTH('a) \<and> n div 8 < length bs \<and> bit (bs ! (n div 8)) (n mod 8)"
proof (induction bs arbitrary: n)
  case (Cons b bs)
  show ?case
  proof (cases "n < 8")
    case True
    then show ?thesis by (auto simp: bit_simps)
  next
    case False
    then have "n div 8 = Suc ((n - 8) div 8)" "(n - 8) mod 8 = n mod 8"
      by (simp_all add: le_div_geq le_mod_geq)
    moreover have "\<not> bit b n" using False bit_imp_le_length [of b n] by auto
    ultimately show ?thesis
      using False by (auto simp: bit_simps Cons.IH)
  qed
qed simp

lemma nth_le_store: "i < n \<Longrightarrow> le_store n w ! i = ucast (drop_bit (8 * i) w)"
proof (induction n arbitrary: w i)
  case (Suc n)
  then show ?case by (cases i) (simp_all add: add.commute)
qed simp

lemma le_load_store:
  assumes "LENGTH('a::len) \<le> 8 * n"
  shows "le_load (le_store n (w :: 'a word)) = w"
proof (rule bit_word_eqI)
  fix i
  assume i: "i < LENGTH('a)"
  then have "i div 8 < n" using assms by linarith
  moreover have "8 * (i div 8) + i mod 8 = i" by simp
  ultimately show "bit (le_load (le_store n w) :: 'a word) i = bit w i"
    using i by (simp add: bit_le_load nth_le_store bit_simps)
qed

lemma le_store_load:
  assumes "8 * length bs \<le> LENGTH('a::len)"
  shows "le_store (length bs) (le_load bs :: 'a word) = bs"
proof (rule nth_equalityI)
  fix i
  assume "i < length (le_store (length bs) (le_load bs :: 'a word))"
  then have i: "i < length bs" by simp
  show "le_store (length bs) (le_load bs :: 'a word) ! i = bs ! i"
  proof (rule bit_word_eqI)
    fix k
    assume k: "k < LENGTH(8)"
    then have "8 * i + k < LENGTH('a)" using i assms by simp
    then show "bit (le_store (length bs) (le_load bs :: 'a word) ! i) k = bit (bs ! i) k"
      using i k by (simp add: nth_le_store bit_simps bit_le_load)
  qed
qed simp

section \<open>Byte swapping\<close>

definition ntohs :: "u16 \<Rightarrow> u16" where
  "ntohs w = le_load (rev (le_store 2 w))"

definition ntohl :: "u32 \<Rightarrow> u32" where
  "ntohl w = le_load (rev (le_store 4 w))"

abbreviation htons :: "u16 \<Rightarrow> u16" where "htons \<equiv> ntohs"
abbreviation htonl :: "u32 \<Rightarrow> u32" where "htonl \<equiv> ntohl"

text \<open>\<open>swap8\<close> reads the eight bytes of its argument through a byte pointer.\<close>

definition swap8 :: "u64 \<Rightarrow> u64" where
  "swap8 val = (let v = le_store 8 val in
     push_bit 56 (ucast (v ! 0)) OR push_bit 48 (ucast (v ! 1)) OR
     push_bit 40 (ucast (v ! 2)) OR push_bit 32 (ucast (v ! 3)) OR
     push_bit 24 (ucast (v ! 4)) OR push_bit 16 (ucast (v ! 5)) OR
     push_bit 8 (ucast (v ! 6)) OR ucast (v ! 7))"

lemma list8: "length xs = 8 \<Longrightarrow>
  xs = [xs ! 0, xs ! 1, xs ! 2, xs ! 3, xs ! 4, xs ! 5, xs ! 6, xs ! 7]"
  by (auto simp: list_eq_iff_nth_eq less_Suc_eq nth_Cons numeral_eq_Suc)

lemma swap8_rev: "swap8 w = le_load (rev (le_store 8 w))"
proof -
  define v where "v = le_store 8 w"
  have "length v = 8" by (simp add: v_def)
  then have "v = [v ! 0, v ! 1, v ! 2, v ! 3, v ! 4, v ! 5, v ! 6, v ! 7]" by (rule list8)
  then have "le_load (rev v) =
      (le_load [v ! 7, v ! 6, v ! 5, v ! 4, v ! 3, v ! 2, v ! 1, v ! 0] :: u64)"
    by (metis append.simps rev.simps)
  then show ?thesis
    unfolding swap8_def v_def [symmetric] Let_def
    by (simp add: push_bit_or or.assoc or.commute or.left_commute)
qed

section \<open>The contract of a byte swap\<close>

text \<open>
  What the header accessors need of a conversion: it reverses the \<open>n\<close> bytes of the word.
  That makes it an involution, and turns a little endian load of the bytes of a network
  field into the big endian value of the field.
\<close>

locale byte_swap =
  fixes swap :: "'a::len word \<Rightarrow> 'a word" and n :: nat
  assumes width: "LENGTH('a) = 8 * n"
    and swap_rev: "swap w = le_load (rev (le_store n w))"
begin

lemma load_store: "length bs = n \<Longrightarrow> le_store n (le_load bs :: 'a word) = bs"
  using le_store_load [of bs, where 'a = 'a] width by simp

lemma store_swap: "le_store n (swap w) = rev (le_store n w)"
  by (simp add: swap_rev load_store)

lemma swap_swap: "swap (swap w) = w"
  by (subst swap_rev, simp add: store_swap) (rule le_load_store, simp add: width)

lemma swap_load: "length bs = n \<Longrightarrow> swap (le_load bs) = be_load bs"
  by (simp add: swap_rev load_store be_load_def)

lemma swap_inj: "swap v = swap w \<longleftrightarrow> v = w"
  by (metis swap_swap)

lemma swap_0: "swap 0 = 0"
proof -
  have "le_store m (0 :: 'a word) = replicate m 0" for m
    by (induction m) auto
  moreover have "le_load (replicate m 0) = (0 :: 'a word)" for m
    by (induction m) auto
  ultimately show ?thesis by (simp add: swap_rev)
qed

lemma swap_eq_0: "swap w = 0 \<longleftrightarrow> w = 0"
  using swap_inj [of w 0] by (simp add: swap_0)

end

interpretation net16: byte_swap ntohs 2
  by unfold_locales (simp_all add: ntohs_def)

interpretation net32: byte_swap ntohl 4
  by unfold_locales (simp_all add: ntohl_def)

interpretation net64: byte_swap swap8 8
  by unfold_locales (simp_all add: swap8_rev)

lemmas swap_laws [wire_simps] =
  net16.swap_swap net32.swap_swap net64.swap_swap
  net16.swap_0 net32.swap_0 net64.swap_0

text \<open>Evaluation of closed terms.\<close>

lemma le_store_numeral: "le_store (numeral k) w = ucast w # le_store (pred_numeral k) (drop_bit 8 w)"
  by (simp add: numeral_eq_Suc)

lemmas swap_eval = ntohs_def ntohl_def swap8_rev le_store_numeral


section \<open>Properties\<close>

text \<open>\<open>swap8\<close> reverses the eight bytes of its argument, is its own inverse, and reads eight
  network bytes, loaded on a little endian host, as their big endian value.\<close>

theorem swap8_reverses_bytes:
  "le_store 8 (swap8 w) = rev (le_store 8 w) \<and> swap8 (swap8 w) = w
     \<and> swap8 (le_load [b0, b1, b2, b3, b4, b5, b6, b7]) = be_load [b0, b1, b2, b3, b4, b5, b6, b7]"
  by (simp add: net64.store_swap net64.swap_swap net64.swap_load del: le_load.simps)

end
