(* ===== verification/Sdds_Time.thy ===== *)
theory Sdds_Time
  imports Binary64 Byte_Order
begin

text \<open>
  The class \<open>SDDSTime\<close> of \<open>sddspacket.h\<close>: a time in units of 250 picoseconds with a 32-bit
  binary fraction, held in a 64-bit and a 32-bit member. The lemmas read a time as the
  96-bit number \<open>time_val\<close> and show that the two-limb operators are addition, subtraction and
  comparison of these numbers.
\<close>

section \<open>The class\<close>

record SDDSTime =
  ps250 :: u64   \<comment> \<open>250 psec tics\<close>
  pf250 :: u32   \<comment> \<open>fractional 250 psec tics\<close>

definition SDDSTime_tic :: dbl where
  "SDDSTime_tic = rnd (250 / 10 ^ 12)"

definition SDDSTime_two32 :: dbl where
  "SDDSTime_two32 = Fin 4294967296"

definition time_zero :: SDDSTime where
  "time_zero = \<lparr>ps250 = 0, pf250 = 0\<rparr>"

definition time_raw :: "u64 \<Rightarrow> u32 \<Rightarrow> SDDSTime" where
  "time_raw ps pf = \<lparr>ps250 = ps, pf250 = pf\<rparr>"

text \<open>
  The constructor from seconds. Its two conversions to integers are defined only when the
  value fits; None is the undefined case (a negative or too large number of seconds).
\<close>

definition time_of_seconds :: "dbl \<Rightarrow> SDDSTime option" where
  "time_of_seconds s = (let pfrac = dmul s (Fin 4000000000) in
     case word_of_dbl (dfloor pfrac) of None \<Rightarrow> None
     | Some ps \<Rightarrow>
       (case word_of_dbl (dmul (dsub pfrac (dfloor pfrac)) SDDSTime_two32) of None \<Rightarrow> None
        | Some pf \<Rightarrow> Some (time_raw ps pf)))"

text \<open>The constructor from integral and fractional seconds.\<close>

definition time_of_parts :: "dbl \<Rightarrow> dbl \<Rightarrow> SDDSTime option" where
  "time_of_parts integral fractional = (let pfrac = dmul fractional (Fin 4000000000) in
     case word_of_dbl integral of None \<Rightarrow> None
     | Some i \<Rightarrow>
       (case word_of_dbl (dfloor pfrac) of None \<Rightarrow> None
        | Some f \<Rightarrow>
          (case word_of_dbl (dmul (dsub pfrac (dfloor pfrac)) SDDSTime_two32) of None \<Rightarrow> None
           | Some pf \<Rightarrow> Some (time_raw (i * 4000000000 + f) pf))))"

definition seconds :: "SDDSTime \<Rightarrow> dbl" where
  "seconds t = dadd (dmul (dbl_of_word (ps250 t)) SDDSTime_tic)
     (dmul (dbl_of_word (pf250 t)) (ddiv SDDSTime_tic SDDSTime_two32))"

definition time_less :: "SDDSTime \<Rightarrow> SDDSTime \<Rightarrow> bool" where
  "time_less s t = (if ps250 s = ps250 t then pf250 s < pf250 t else ps250 s < ps250 t)"

definition time_eq :: "SDDSTime \<Rightarrow> SDDSTime \<Rightarrow> bool" where
  "time_eq s t \<longleftrightarrow> ps250 s = ps250 t \<and> pf250 s = pf250 t"

text \<open>\<open>operator+\<close> and \<open>operator+=\<close>, \<open>operator-\<close> and \<open>operator-=\<close> have the same bodies.\<close>

definition time_plus :: "SDDSTime \<Rightarrow> SDDSTime \<Rightarrow> SDDSTime" where
  "time_plus t1 t2 = (let frac = (ucast (pf250 t1) :: u64) + ucast (pf250 t2) in
     \<lparr>ps250 = ps250 t1 + (ps250 t2 + drop_bit 32 frac), pf250 = ucast frac\<rparr>)"

definition time_minus :: "SDDSTime \<Rightarrow> SDDSTime \<Rightarrow> SDDSTime" where
  "time_minus t1 t2 =
     (if pf250 t2 \<le> pf250 t1
      then \<lparr>ps250 = ps250 t1 - ps250 t2, pf250 = pf250 t1 - pf250 t2\<rparr>
      else \<lparr>ps250 = ps250 t1 - (ps250 t2 + 1), pf250 = pf250 t1 - pf250 t2\<rparr>)"

text \<open>The assignment operators, in the order of their lines: the difference updates the fraction first.\<close>

definition time_plus_assign :: "SDDSTime \<Rightarrow> SDDSTime \<Rightarrow> SDDSTime" where
  "time_plus_assign t other = (let
     frac = (ucast (pf250 t) :: u64) + ucast (pf250 other);
     t = t\<lparr>ps250 := ps250 t + (ps250 other + drop_bit 32 frac)\<rparr>
     in t\<lparr>pf250 := ucast frac\<rparr>)"

definition time_minus_assign :: "SDDSTime \<Rightarrow> SDDSTime \<Rightarrow> SDDSTime" where
  "time_minus_assign t other =
     (if pf250 other \<le> pf250 t
      then let t = t\<lparr>pf250 := pf250 t - pf250 other\<rparr> in t\<lparr>ps250 := ps250 t - ps250 other\<rparr>
      else let t = t\<lparr>pf250 := pf250 t - pf250 other\<rparr> in t\<lparr>ps250 := ps250 t - (ps250 other + 1)\<rparr>)"

lemma assign_operators: "time_plus_assign s t = time_plus s t" "time_minus_assign s t = time_minus s t"
  by (simp_all add: time_plus_assign_def time_plus_def time_minus_assign_def time_minus_def Let_def)

section \<open>A time is a 96-bit number\<close>

definition time_val :: "SDDSTime \<Rightarrow> int" where
  "time_val t = uint (ps250 t) * 2 ^ 32 + uint (pf250 t)"

lemma uint_bounds32: "0 \<le> uint (w :: u32)" "uint (w :: u32) < 2 ^ 32"
  using unsigned_less [of w, where 'a = int] by simp_all

lemma uint_bounds64: "0 \<le> uint (w :: u64)" "uint (w :: u64) < 2 ^ 64"
  using unsigned_less [of w, where 'a = int] by simp_all

lemmas limb_bounds =
  uint_bounds64 [of "ps250 t" for t] uint_bounds32 [of "pf250 t" for t]

text \<open>Two limbs compare lexicographically, and a wrap of the high limb is a wrap of the number.\<close>

lemma limbs_less:
  fixes a b p q :: int
  assumes "0 \<le> p" "p < 2 ^ 32" "0 \<le> q" "q < 2 ^ 32"
  shows "a * 2 ^ 32 + p < b * 2 ^ 32 + q \<longleftrightarrow> a < b \<or> a = b \<and> p < q"
  using assms by auto

lemma limbs_eq:
  fixes a b p q :: int
  assumes "0 \<le> p" "p < 2 ^ 32" "0 \<le> q" "q < 2 ^ 32"
  shows "a * 2 ^ 32 + p = b * 2 ^ 32 + q \<longleftrightarrow> a = b \<and> p = q"
  using limbs_less [OF assms, of a b] limbs_less [OF assms(3,4,1,2), of b a] by auto

lemma limbs_mod:
  fixes x r :: int
  assumes "0 \<le> r" "r < 2 ^ 32"
  shows "(x mod 2 ^ 64) * 2 ^ 32 + r = (x * 2 ^ 32 + r) mod 2 ^ 96"
proof -
  have split: "(M * q + m) * B + r = (m * B + r) + q * (M * B)" for M q m B :: int
    by (simp add: algebra_simps)
  have "x * 2 ^ 32 + r = (x mod 2 ^ 64 * 2 ^ 32 + r) + (x div 2 ^ 64) * (2 ^ 64 * 2 ^ 32)"
    using split [of "2 ^ 64" "x div 2 ^ 64" "x mod 2 ^ 64" "2 ^ 32"]
    by (simp only: mult_div_mod_eq)
  moreover have "(2 ^ 64 * 2 ^ 32 :: int) = 2 ^ 96" by simp
  ultimately have "x * 2 ^ 32 + r = (x mod 2 ^ 64 * 2 ^ 32 + r) + (x div 2 ^ 64) * 2 ^ 96"
    by (simp only:)
  then have "(x * 2 ^ 32 + r) mod 2 ^ 96 = (x mod 2 ^ 64 * 2 ^ 32 + r) mod 2 ^ 96"
    by (metis mod_mult_self1)
  also have "\<dots> = x mod 2 ^ 64 * 2 ^ 32 + r"
  proof (rule mod_pos_pos_trivial)
    have "x mod 2 ^ 64 < 2 ^ 64" by (rule pos_mod_bound) simp
    then show "x mod 2 ^ 64 * 2 ^ 32 + r < 2 ^ 96" using assms by simp
    show "0 \<le> x mod 2 ^ 64 * 2 ^ 32 + r" using assms by simp
  qed
  finally show ?thesis by simp
qed

lemma time_val_bounds: "0 \<le> time_val t" "time_val t < 2 ^ 96"
  using limb_bounds [of t] by (simp_all add: time_val_def)

lemma time_val_inj: "time_val s = time_val t \<longleftrightarrow> s = t"
  using limbs_eq [OF uint_bounds32 [of "pf250 s"] uint_bounds32 [of "pf250 t"]]
  by (auto simp: time_val_def simp flip: word_uint_eq_iff)

lemma time_val_less: "time_less s t \<longleftrightarrow> time_val s < time_val t"
  using limbs_less [OF uint_bounds32 [of "pf250 s"] uint_bounds32 [of "pf250 t"]]
  by (auto simp: time_val_def time_less_def word_less_def simp flip: word_uint_eq_iff)

lemma time_eq_iff [simp]: "time_eq s t \<longleftrightarrow> s = t"
  by (auto simp: time_eq_def)

lemma uint_frac: "uint ((ucast (a :: u32) :: u64) + ucast (b :: u32)) = uint a + uint b"
  using uint_bounds32 [of a] uint_bounds32 [of b]
  by (simp add: uint_word_ariths unsigned_ucast_eq take_bit_eq_mod)

lemma time_val_plus: "time_val (time_plus s t) = (time_val s + time_val t) mod 2 ^ 96"
proof -
  define f where "f = (ucast (pf250 s) :: u64) + ucast (pf250 t)"
  have f: "uint f = uint (pf250 s) + uint (pf250 t)" by (simp add: f_def uint_frac)
  have d: "uint (drop_bit 32 f) = uint f div 2 ^ 32"
    by (simp add: drop_bit_eq_div uint_div)
  have u: "uint (ucast f :: u32) = uint f mod 2 ^ 32"
    by (simp add: unsigned_ucast_eq take_bit_eq_mod)
  let ?x = "uint (ps250 s) + (uint (ps250 t) + uint f div 2 ^ 32)"
  have "uint (ps250 s + (ps250 t + drop_bit 32 f)) = ?x mod 2 ^ 64"
    by (simp add: uint_word_ariths d mod_simps)
  then have "time_val (time_plus s t) = (?x mod 2 ^ 64) * 2 ^ 32 + uint f mod 2 ^ 32"
    using u by (simp add: time_val_def time_plus_def f_def [symmetric] Let_def)
  also have "\<dots> = (?x * 2 ^ 32 + uint f mod 2 ^ 32) mod 2 ^ 96"
    by (rule limbs_mod) simp_all
  also have "?x * 2 ^ 32 + uint f mod 2 ^ 32 = time_val s + time_val t"
    using f div_mult_mod_eq [of "uint f" "2 ^ 32"] by (simp add: time_val_def algebra_simps)
  finally show ?thesis .
qed

lemma time_val_minus: "time_val (time_minus s t) = (time_val s - time_val t) mod 2 ^ 96"
proof (cases "pf250 t \<le> pf250 s")
  case True
  then have "uint (pf250 s - pf250 t) = uint (pf250 s) - uint (pf250 t)"
    by (rule uint_sub_lem [THEN iffD1, OF word_le_def [THEN iffD1]])
  with True have "time_val (time_minus s t) =
      ((uint (ps250 s) - uint (ps250 t)) mod 2 ^ 64) * 2 ^ 32 + (uint (pf250 s) - uint (pf250 t))"
    by (simp add: time_val_def time_minus_def uint_word_ariths)
  also have "\<dots> = ((uint (ps250 s) - uint (ps250 t)) * 2 ^ 32 + (uint (pf250 s) - uint (pf250 t))) mod 2 ^ 96"
    using True [unfolded word_le_def] uint_bounds32 [of "pf250 s"] uint_bounds32 [of "pf250 t"]
    by (intro limbs_mod) linarith+
  finally show ?thesis by (simp add: time_val_def algebra_simps)
next
  case False
  then have less: "uint (pf250 s) < uint (pf250 t)" by (simp add: word_le_def)
  let ?r = "uint (pf250 s) - uint (pf250 t) + 2 ^ 32"
  have r: "0 \<le> ?r" "?r < 2 ^ 32"
    using less uint_bounds32 [of "pf250 s"] uint_bounds32 [of "pf250 t"] by linarith+
  have "uint (pf250 s - pf250 t) = ?r mod 2 ^ 32"
    by (simp add: uint_word_ariths)
  also have "\<dots> = ?r" using r by (rule mod_pos_pos_trivial)
  finally have "time_val (time_minus s t) =
      ((uint (ps250 s) - (uint (ps250 t) + 1)) mod 2 ^ 64) * 2 ^ 32 + ?r"
    using False by (simp add: time_val_def time_minus_def uint_word_ariths mod_simps)
  also have "\<dots> = ((uint (ps250 s) - (uint (ps250 t) + 1)) * 2 ^ 32 + ?r) mod 2 ^ 96"
    using r by (rule limbs_mod)
  finally show ?thesis by (simp add: time_val_def algebra_simps)
qed

lemma time_plus_minus: "time_minus (time_plus s t) t = s"
proof -
  have "time_val (time_minus (time_plus s t) t) = time_val s mod 2 ^ 96"
    by (simp add: time_val_minus time_val_plus mod_simps)
  also have "\<dots> = time_val s" using time_val_bounds [of s] by simp
  finally show ?thesis by (simp add: time_val_inj)
qed


section \<open>The order of the library\<close>

text \<open>
  The lexicographic order on the two members makes a time a linear order, which the library's
  automation knows; \<open>operator<\<close> is its strict part.
\<close>

instantiation SDDSTime_ext :: (linorder) linorder
begin

definition less_eq_SDDSTime_ext :: "'a SDDSTime_scheme \<Rightarrow> 'a SDDSTime_scheme \<Rightarrow> bool" where
  "less_eq_SDDSTime_ext s t \<longleftrightarrow> ps250 s < ps250 t \<or> ps250 s = ps250 t \<and>
     (pf250 s < pf250 t \<or> pf250 s = pf250 t \<and> SDDSTime.more s \<le> SDDSTime.more t)"

definition less_SDDSTime_ext :: "'a SDDSTime_scheme \<Rightarrow> 'a SDDSTime_scheme \<Rightarrow> bool" where
  "less_SDDSTime_ext s t \<longleftrightarrow> s \<le> t \<and> \<not> t \<le> (s :: 'a SDDSTime_scheme)"

instance
  by standard (auto simp: less_eq_SDDSTime_ext_def less_SDDSTime_ext_def)

end

lemma time_less_iff: "time_less s t \<longleftrightarrow> s < t"
  by (auto simp: time_less_def less_SDDSTime_ext_def less_eq_SDDSTime_ext_def)

lemma time_val_mono: "s \<le> t \<longleftrightarrow> time_val s \<le> time_val t" for s t :: SDDSTime
  by (metis linorder_not_less time_less_iff time_val_less)

section \<open>Properties\<close>

text \<open>Adding two times with the two-limb \<open>operator+\<close> adds the 96-bit numbers they stand
  for, modulo \<open>2 ^ 96\<close>: the carry of the fraction reaches the high limb, and nothing else is lost.\<close>

theorem SDDSTime_plus_correct:
  "time_val (time_plus s t) = (time_val s + time_val t) mod 2 ^ 96
   \<and> time_val (time_plus_assign s t) = (time_val s + time_val t) mod 2 ^ 96"
  by (simp add: time_val_plus assign_operators)

text \<open>Where the difference is not negative (the documented use of \<open>operator-\<close>) it is the
  exact difference of the two 96-bit numbers, borrow included.\<close>

theorem SDDSTime_minus_exact:
  assumes "\<not> time_less s t"
  shows "time_val (time_minus s t) = time_val s - time_val t"
  using assms time_val_bounds [of s] time_val_bounds [of t]
  by (simp add: time_val_minus time_val_less)

lemma SDDSTime_minus_exact_witness:
  "time_val (time_minus (time_raw 5 0) (time_raw 2 7)) = 3 * 2 ^ 32 - 7"
  using SDDSTime_minus_exact [of "time_raw 5 0" "time_raw 2 7"]
  by (simp add: time_less_def time_raw_def time_val_def)

text \<open>\<open>operator-\<close> undoes \<open>operator+\<close> for all times, also when the sum wraps around.\<close>

theorem SDDSTime_plus_minus: "time_minus (time_plus s t) t = s"
  by (rule time_plus_minus)

end
