(* ===== verification/Sdds_Packet.thy ===== *)
theory Sdds_Packet
  imports Sdds_Time
begin

text \<open>
  The class \<open>SDDSpacket\<close> of \<open>sddspacket.h\<close>: the 1080 bytes of an SDDS datagram seen through
  a C++ struct, whose multi-byte members hold the bytes in network order, and the accessors
  that convert them. \<open>packet_of_bytes\<close> and \<open>bytes_of_packet\<close> are the layout of the struct in
  memory (little endian host, bit fields from the least significant bit), which is how a
  received datagram becomes a packet.
\<close>

section \<open>The struct\<close>

record SDDSpacket =
  pkt_dmode :: "3 word"
  pkt_ss :: bool
  pkt_of :: bool
  pkt_pp :: bool
  pkt_sos :: bool
  pkt_sf :: bool
  pkt_bps :: "5 word"
  pkt_vw :: bool
  pkt_snp :: bool
  pkt_cx :: bool
  pkt_seq :: u16
  pkt_msptr :: u16
  pkt_msdel :: u16
  pkt_ttag :: u64
  pkt_ttage :: u32
  pkt_dFdT :: u32
  pkt_freq :: u64
  pkt_ssd0 :: u16
  pkt_ssd1 :: u16
  pkt_aad :: "u8 list"
  pkt_d :: "u8 list"

definition wf_packet :: "SDDSpacket \<Rightarrow> bool" where
  "wf_packet p \<longleftrightarrow> length (pkt_aad p) = 20 \<and> length (pkt_d p) = 1024"

text \<open>The packets in memory, by address.\<close>

type_synonym store = "nat \<Rightarrow> SDDSpacket"

section \<open>Memory layout\<close>

definition flag :: "nat \<Rightarrow> bool \<Rightarrow> u8" where
  "flag n b = (if b then push_bit n 1 else 0)"

definition byte0 :: "SDDSpacket \<Rightarrow> u8" where
  "byte0 p = ucast (pkt_dmode p) OR flag 3 (pkt_ss p) OR flag 4 (pkt_of p) OR flag 5 (pkt_pp p)
     OR flag 6 (pkt_sos p) OR flag 7 (pkt_sf p)"

definition byte1 :: "SDDSpacket \<Rightarrow> u8" where
  "byte1 p = ucast (pkt_bps p) OR flag 5 (pkt_vw p) OR flag 6 (pkt_snp p) OR flag 7 (pkt_cx p)"

definition bytes_of_packet :: "SDDSpacket \<Rightarrow> u8 list" where
  "bytes_of_packet p = [byte0 p, byte1 p] @ le_store 2 (pkt_seq p) @ le_store 2 (pkt_msptr p)
     @ le_store 2 (pkt_msdel p) @ le_store 8 (pkt_ttag p) @ le_store 4 (pkt_ttage p)
     @ le_store 4 (pkt_dFdT p) @ le_store 8 (pkt_freq p) @ le_store 2 (pkt_ssd0 p)
     @ le_store 2 (pkt_ssd1 p) @ pkt_aad p @ pkt_d p"

definition bytes_at :: "nat \<Rightarrow> nat \<Rightarrow> 'a list \<Rightarrow> 'a list" where
  "bytes_at i n xs = take n (drop i xs)"

definition packet_of_bytes :: "u8 list \<Rightarrow> SDDSpacket" where
  "packet_of_bytes bs =
     \<lparr>pkt_dmode = ucast (bs ! 0), pkt_ss = bit (bs ! 0) 3, pkt_of = bit (bs ! 0) 4,
      pkt_pp = bit (bs ! 0) 5, pkt_sos = bit (bs ! 0) 6, pkt_sf = bit (bs ! 0) 7,
      pkt_bps = ucast (bs ! 1), pkt_vw = bit (bs ! 1) 5, pkt_snp = bit (bs ! 1) 6,
      pkt_cx = bit (bs ! 1) 7,
      pkt_seq = le_load (bytes_at 2 2 bs), pkt_msptr = le_load (bytes_at 4 2 bs),
      pkt_msdel = le_load (bytes_at 6 2 bs), pkt_ttag = le_load (bytes_at 8 8 bs),
      pkt_ttage = le_load (bytes_at 16 4 bs), pkt_dFdT = le_load (bytes_at 20 4 bs),
      pkt_freq = le_load (bytes_at 24 8 bs), pkt_ssd0 = le_load (bytes_at 32 2 bs),
      pkt_ssd1 = le_load (bytes_at 34 2 bs), pkt_aad = bytes_at 36 20 bs, pkt_d = bytes_at 56 1024 bs\<rparr>"

section \<open>Accessors\<close>

definition get_seq :: "SDDSpacket \<Rightarrow> u16" where
  "get_seq p = ntohs (pkt_seq p)"

definition set_seq :: "u16 \<Rightarrow> SDDSpacket \<Rightarrow> SDDSpacket" where
  "set_seq val p = p\<lparr>pkt_seq := htons val\<rparr>"

definition get_msptr :: "SDDSpacket \<Rightarrow> u16" where
  "get_msptr p = ntohs (pkt_msptr p) AND 0x07FF"

definition set_msptr :: "u16 \<Rightarrow> SDDSpacket \<Rightarrow> SDDSpacket" where
  "set_msptr val p = p\<lparr>pkt_msptr := htons (val AND 0x07FF) OR (pkt_msptr p AND 0x00E0)\<rparr>"

definition clear_msptr :: "SDDSpacket \<Rightarrow> SDDSpacket" where
  "clear_msptr p = p\<lparr>pkt_msptr := pkt_msptr p AND 0x00E0, pkt_msdel := 0\<rparr>"

definition get_msdel :: "SDDSpacket \<Rightarrow> u16" where
  "get_msdel p = ntohs (pkt_msdel p)"

definition set_msdel :: "u16 \<Rightarrow> SDDSpacket \<Rightarrow> SDDSpacket" where
  "set_msdel val p = p\<lparr>pkt_msdel := htons val\<rparr>"

text \<open>The flag getters return the masked bits; the callers only test them against zero.\<close>

definition get_msv :: "SDDSpacket \<Rightarrow> u16" where "get_msv p = pkt_msptr p AND 0x0080"
definition get_ttv :: "SDDSpacket \<Rightarrow> u16" where "get_ttv p = pkt_msptr p AND 0x0040"
definition get_sscv :: "SDDSpacket \<Rightarrow> u16" where "get_sscv p = pkt_msptr p AND 0x0020"

definition set_msv :: "bool \<Rightarrow> SDDSpacket \<Rightarrow> SDDSpacket" where
  "set_msv fl p = p\<lparr>pkt_msptr := (if fl then pkt_msptr p OR 0x0080 else pkt_msptr p AND 0xFF7F)\<rparr>"

definition set_ttv :: "bool \<Rightarrow> SDDSpacket \<Rightarrow> SDDSpacket" where
  "set_ttv fl p = p\<lparr>pkt_msptr := (if fl then pkt_msptr p OR 0x0040 else pkt_msptr p AND 0xFFBF)\<rparr>"

definition set_sscv :: "bool \<Rightarrow> SDDSpacket \<Rightarrow> SDDSpacket" where
  "set_sscv fl p = p\<lparr>pkt_msptr := (if fl then pkt_msptr p OR 0x0020 else pkt_msptr p AND 0xFFDF)\<rparr>"

text \<open>\<open>get_ttag\<close> returns the unsigned tag as a signed \<open>long long\<close>.\<close>

definition get_ttag :: "SDDSpacket \<Rightarrow> int" where
  "get_ttag p = sint (swap8 (pkt_ttag p))"

definition set_ttag :: "int \<Rightarrow> SDDSpacket \<Rightarrow> SDDSpacket" where
  "set_ttag val p = p\<lparr>pkt_ttag := swap8 (of_int val)\<rparr>"

definition get_SDDSTime :: "SDDSpacket \<Rightarrow> SDDSTime" where
  "get_SDDSTime p = time_raw (swap8 (pkt_ttag p)) (htonl (pkt_ttage p))"

definition set_SDDSTime :: "SDDSTime \<Rightarrow> SDDSpacket \<Rightarrow> SDDSpacket" where
  "set_SDDSTime t p = p\<lparr>pkt_ttag := swap8 (ps250 t), pkt_ttage := htonl (pf250 t)\<rparr>"

text \<open>The literals 125 MHz / 2^63 and 2^63 / 125 MHz as the source writes them.\<close>

definition rate_unit :: dbl where "rate_unit = rnd (13552527156068805 / 10 ^ 27)"
definition rate_units_per_Hz :: dbl where "rate_units_per_Hz = rnd (73786976294838211 / 10 ^ 6)"

definition get_freq :: "SDDSpacket \<Rightarrow> dbl" where
  "get_freq p = dmul (dbl_of_word (swap8 (pkt_freq p))) rate_unit"

definition set_freq :: "dbl \<Rightarrow> SDDSpacket \<Rightarrow> SDDSpacket option" where
  "set_freq val p = (case word_of_dbl (dmul val rate_units_per_Hz) of None \<Rightarrow> None
     | Some w \<Rightarrow> Some (p\<lparr>pkt_freq := swap8 w\<rparr>))"

definition get_rate :: "SDDSpacket \<Rightarrow> dbl" where
  "get_rate p = (let rate = dmul (dbl_of_word (swap8 (pkt_freq p))) rate_unit;
     rate = (if pkt_vw p then dmul rate (Fin 16) else rate)
     in if pkt_cx p then dmul rate (Fin (1 / 2)) else rate)"

definition set_rate :: "dbl \<Rightarrow> SDDSpacket \<Rightarrow> SDDSpacket option" where
  "set_rate val p = (let val = (if pkt_cx p then dmul val (Fin 2) else val);
     slow = dless val (Fin 125000000);
     p = p\<lparr>pkt_vw := \<not> slow\<rparr>;
     val = (if slow then val else dmul val (Fin (1 / 16)))
     in set_freq val p)"

text \<open>\<open>ntohl\<close> returns an unsigned number, so the signed member is read as unsigned.\<close>

definition get_dfdt :: "SDDSpacket \<Rightarrow> dbl" where
  "get_dfdt p = dmul (dbl_of_word (ntohl (pkt_dFdT p))) (rnd (93132257461547852 / 10 ^ 26))"

definition int32_of_dbl :: "dbl \<Rightarrow> u32 option" where
  "int32_of_dbl d = (case d of
     Fin x \<Rightarrow> (let n = (if 0 \<le> x then \<lfloor>x\<rfloor> else \<lceil>x\<rceil>) in
       if - (2 ^ 31) \<le> n \<and> n < 2 ^ 31 then Some (of_int n) else None)
   | _ \<Rightarrow> None)"

definition set_dfdt :: "dbl \<Rightarrow> SDDSpacket \<Rightarrow> SDDSpacket option" where
  "set_dfdt val p = (case int32_of_dbl (dmul (Fin 1073741824) val) of None \<Rightarrow> None
     | Some w \<Rightarrow> Some (p\<lparr>pkt_dFdT := ntohl w\<rparr>))"

section \<open>The layout is a bijection\<close>

lemma bit_flag: "n < 8 \<Longrightarrow> bit (flag n b) k \<longleftrightarrow> b \<and> k = n"
  by (auto simp: flag_def bit_simps)

lemma byte0_bits [simp]:
  "ucast (byte0 p) = pkt_dmode p"
  "bit (byte0 p) 3 = pkt_ss p" "bit (byte0 p) 4 = pkt_of p" "bit (byte0 p) 5 = pkt_pp p"
  "bit (byte0 p) 6 = pkt_sos p" "bit (byte0 p) 7 = pkt_sf p"
  by (auto intro!: bit_word_eqI simp: byte0_def bit_simps bit_flag dest: bit_imp_le_length)

lemma byte1_bits [simp]:
  "ucast (byte1 p) = pkt_bps p"
  "bit (byte1 p) 5 = pkt_vw p" "bit (byte1 p) 6 = pkt_snp p" "bit (byte1 p) 7 = pkt_cx p"
  by (auto intro!: bit_word_eqI simp: byte1_def bit_simps bit_flag dest: bit_imp_le_length)

lemma length_bytes_of_packet: "wf_packet p \<Longrightarrow> length (bytes_of_packet p) = 1080"
  by (simp add: bytes_of_packet_def wf_packet_def)

lemma packet_bytes_inverse: "wf_packet p \<Longrightarrow> packet_of_bytes (bytes_of_packet p) = p"
  by (rule SDDSpacket.equality)
    (simp_all add: packet_of_bytes_def bytes_of_packet_def wf_packet_def bytes_at_def le_load_store)

lemma byte0_of_bits:
  assumes "pkt_dmode p = ucast b" "pkt_ss p = bit b 3" "pkt_of p = bit b 4" "pkt_pp p = bit b 5"
    "pkt_sos p = bit b 6" "pkt_sf p = bit b 7"
  shows "byte0 p = b"
proof (rule bit_word_eqI)
  fix n
  assume "n < LENGTH(8)"
  then have "n = 0 \<or> n = 1 \<or> n = 2 \<or> n = 3 \<or> n = 4 \<or> n = 5 \<or> n = 6 \<or> n = 7" by auto
  then show "bit (byte0 p) n = bit b n"
    by (elim disjE) (simp_all add: byte0_def bit_simps bit_flag assms)
qed

lemma byte1_of_bits:
  assumes "pkt_bps p = ucast b" "pkt_vw p = bit b 5" "pkt_snp p = bit b 6" "pkt_cx p = bit b 7"
  shows "byte1 p = b"
proof (rule bit_word_eqI)
  fix n
  assume "n < LENGTH(8)"
  then have "n = 0 \<or> n = 1 \<or> n = 2 \<or> n = 3 \<or> n = 4 \<or> n = 5 \<or> n = 6 \<or> n = 7" by auto
  then show "bit (byte1 p) n = bit b n"
    by (elim disjE) (simp_all add: byte1_def bit_simps bit_flag assms)
qed

lemma store_bytes_at:
  "i + n \<le> length bs \<Longrightarrow> 8 * n \<le> LENGTH('a::len) \<Longrightarrow>
   le_store n (le_load (bytes_at i n bs) :: 'a word) = bytes_at i n bs"
  using le_store_load [of "bytes_at i n bs", where 'a = 'a] by (simp add: bytes_at_def)

lemma bytes_at_append: "bytes_at i n xs @ bytes_at (i + n) m xs = bytes_at i (n + m) xs"
  by (simp add: bytes_at_def take_add) (simp add: add.commute)

lemma bytes_at_append_assoc: "j = i + n \<Longrightarrow> bytes_at i n xs @ bytes_at j m xs @ ys = bytes_at i (n + m) xs @ ys"
  by (simp add: append_assoc [symmetric] bytes_at_append del: append_assoc)

lemma bytes_packet_inverse:
  assumes len: "length bs = 1080"
  shows "bytes_of_packet (packet_of_bytes bs) = bs"
proof -
  let ?p = "packet_of_bytes bs"
  have b0: "byte0 ?p = bs ! 0" by (rule byte0_of_bits) (simp_all add: packet_of_bytes_def)
  have b1: "byte1 ?p = bs ! 1" by (rule byte1_of_bits) (simp_all add: packet_of_bytes_def)
  have "[bs ! 0, bs ! 1] = bytes_at 0 2 bs"
    using len by (simp add: bytes_at_def numeral_2_eq_2 take_Suc_conv_app_nth)
  then have "bytes_of_packet ?p = bytes_at 0 2 bs @ bytes_at 2 2 bs @ bytes_at 4 2 bs @ bytes_at 6 2 bs
      @ bytes_at 8 8 bs @ bytes_at 16 4 bs @ bytes_at 20 4 bs @ bytes_at 24 8 bs @ bytes_at 32 2 bs
      @ bytes_at 34 2 bs @ bytes_at 36 20 bs @ bytes_at 56 1024 bs"
    using len unfolding bytes_of_packet_def b0 b1
    by (simp add: packet_of_bytes_def store_bytes_at)
  also have "\<dots> = bytes_at 0 1080 bs"
    by (simp add: bytes_at_append_assoc bytes_at_append [of 0 56 bs 1024, simplified])
  also have "\<dots> = bs" using len by (simp add: bytes_at_def)
  finally show ?thesis .
qed

lemma wf_packet_of_bytes: "length bs = 1080 \<Longrightarrow> wf_packet (packet_of_bytes bs)"
  by (simp add: wf_packet_def packet_of_bytes_def bytes_at_def)

section \<open>The accessors read the fields in network byte order\<close>

lemma accessors_be:
  assumes "length bs = 1080"
  shows "get_seq (packet_of_bytes bs) = be_load (bytes_at 2 2 bs)"
    and "get_msdel (packet_of_bytes bs) = be_load (bytes_at 6 2 bs)"
    and "ps250 (get_SDDSTime (packet_of_bytes bs)) = be_load (bytes_at 8 8 bs)"
    and "pf250 (get_SDDSTime (packet_of_bytes bs)) = be_load (bytes_at 16 4 bs)"
    and "swap8 (pkt_freq (packet_of_bytes bs)) = be_load (bytes_at 24 8 bs)"
  using assms
  by (simp_all add: packet_of_bytes_def get_seq_def get_msdel_def get_SDDSTime_def time_raw_def
      net16.swap_load net32.swap_load net64.swap_load bytes_at_def)

text \<open>
  The contract of a header field: reading returns what was written, a second write wins, and
  writing what was read changes nothing. \<open>header_fields\<close> is a pair of such fields that do not
  overlap.
\<close>

locale header_field =
  fixes get :: "'p \<Rightarrow> 'v" and put :: "'v \<Rightarrow> 'p \<Rightarrow> 'p"
  assumes get_put: "get (put v p) = v"
    and put_put: "put v (put w p) = put v p"
    and put_get: "put (get p) p = p"
begin

lemma put_inj: "put v p = put w p \<longleftrightarrow> v = w"
  by (metis get_put)

lemma put_same: "get p = v \<Longrightarrow> put v p = p"
  using put_get by blast

end

locale header_fields = header_field get put + other: header_field get' put'
  for get :: "'p \<Rightarrow> 'v" and put :: "'v \<Rightarrow> 'p \<Rightarrow> 'p"
    and get' :: "'p \<Rightarrow> 'w" and put' :: "'w \<Rightarrow> 'p \<Rightarrow> 'p" +
  assumes put_commute: "put v (put' w p) = put' w (put v p)"
begin

lemma get_put': "get (put' w p) = get p"
proof -
  have "get (put' w p) = get (put' w (put (get p) p))" by (simp add: put_get)
  also have "\<dots> = get p" by (simp add: get_put flip: put_commute)
  finally show ?thesis .
qed

lemma get_both: "get (put' w (put v p)) = v"
  by (simp add: get_put' get_put)

end

definition ttv_on :: "SDDSpacket \<Rightarrow> bool" where
  "ttv_on p \<longleftrightarrow> get_ttv p \<noteq> 0"

definition msv_on :: "SDDSpacket \<Rightarrow> bool" where
  "msv_on p \<longleftrightarrow> get_msv p \<noteq> 0"

lemma and_bit_neq_0: "w AND push_bit k 1 \<noteq> 0 \<longleftrightarrow> bit w k" for w :: u16
  by (simp add: and_exp_eq_0_iff_not_bit push_bit_eq_mult)

lemma ttv_on_bit: "ttv_on p \<longleftrightarrow> bit (pkt_msptr p) 6"
  using and_bit_neq_0 [of "pkt_msptr p" 6] by (simp add: ttv_on_def get_ttv_def)

lemma msv_on_bit: "msv_on p \<longleftrightarrow> bit (pkt_msptr p) 7"
  using and_bit_neq_0 [of "pkt_msptr p" 7] by (simp add: msv_on_def get_msv_def)

lemma flag_masks: "(0xFFBF :: u16) = - 65" "(0xFF7F :: u16) = - 129" "(0xFFDF :: u16) = - 33"
  by simp_all

lemma put_bit_eq:
  "(if fl then w OR 0x0040 else w AND 0xFFBF) = (if fl then set_bit 6 w else unset_bit 6 w)"
  "(if fl then w OR 0x0080 else w AND 0xFF7F) = (if fl then set_bit 7 w else unset_bit 7 w)"
  "(if fl then w OR 0x0020 else w AND 0xFFDF) = (if fl then set_bit 5 w else unset_bit 5 w)"
  for w :: u16
  unfolding flag_masks by (simp_all add: set_bit_eq_or unset_bit_eq_and_not push_bit_eq_mult)

interpretation f_seq: header_field get_seq set_seq
  by unfold_locales (simp_all add: get_seq_def set_seq_def wire_simps)

interpretation f_msdel: header_field get_msdel set_msdel
  by unfold_locales (simp_all add: get_msdel_def set_msdel_def wire_simps)

interpretation f_time: header_field get_SDDSTime set_SDDSTime
  by unfold_locales
    (simp_all add: get_SDDSTime_def set_SDDSTime_def time_raw_def wire_simps)

interpretation f_ttv: header_field ttv_on set_ttv
  by unfold_locales
    (auto intro!: SDDSpacket.equality bit_word_eqI
      simp: ttv_on_bit set_ttv_def put_bit_eq bit_set_bit_iff bit_unset_bit_iff)

text \<open>Sequence number and time stamp, and sequence number and time tag flag, do not overlap.\<close>

interpretation f_seq_time: header_fields get_seq set_seq get_SDDSTime set_SDDSTime
  by unfold_locales (simp add: set_seq_def set_SDDSTime_def)

interpretation f_seq_ttv: header_fields get_seq set_seq ttv_on set_ttv
  by unfold_locales (simp add: set_seq_def set_ttv_def)

interpretation f_ttv_time: header_fields ttv_on set_ttv get_SDDSTime set_SDDSTime
  by unfold_locales (simp add: set_ttv_def set_SDDSTime_def)

section \<open>The sample rate\<close>

lemma rate_unit_pow: "in_pow (- 37) (- 36) rate_unit"
  by (simp add: rate_unit_def in_pow_def dbl_defs)

lemma get_rate_zero: "pkt_freq p = 0 \<Longrightarrow> get_rate p = Fin 0"
proof -
  assume z: "pkt_freq p = 0"
  obtain u where "rate_unit = Fin u" using rate_unit_pow by (rule in_powE)
  then have "dmul (Fin 0) rate_unit = dmul (Fin 0) (Fin u)" by (rule arg_cong)
  then have "dmul (Fin 0) rate_unit = Fin 0" by simp
  with z show ?thesis by (simp add: get_rate_def Let_def wire_simps dbl_of_word_def)
qed

lemma get_rate_pow:
  assumes "pkt_freq p \<noteq> 0"
  shows "in_pow (- 38) 32 (get_rate p)"
proof -
  let ?r = "dmul (dbl_of_word (swap8 (pkt_freq p))) rate_unit"
  have "in_pow 0 64 (dbl_of_word (swap8 (pkt_freq p)))"
    using in_pow_word [of "swap8 (pkt_freq p)"] assms by (simp add: net64.swap_eq_0)
  from in_pow_dmul [OF this rate_unit_pow] have r: "in_pow (- 37) 28 ?r" by simp
  have "in_pow 4 4 (Fin 16)" "in_pow (- 1) (- 1) (Fin (1 / 2))"
    by (simp_all add: in_pow_def power_int_def)
  then have r16: "in_pow (- 33) 32 (dmul ?r (Fin 16))" and rh: "in_pow (- 38) 27 (dmul ?r (Fin (1 / 2)))"
    using in_pow_dmul [OF r, of 4 4] in_pow_dmul [OF r, of "- 1" "- 1"] by simp_all
  have "in_pow (- 34) 31 (dmul (dmul ?r (Fin 16)) (Fin (1 / 2)))"
    using in_pow_dmul [OF r16, of "- 1" "- 1" "Fin (1 / 2)"] by (simp add: in_pow_def power_int_def)
  with r r16 rh show ?thesis
    by (auto simp: get_rate_def Let_def elim: in_pow_weaken)
qed


section \<open>The 1 ms pointer shares its word with the flags\<close>

lemma bit_ntohs: "bit (ntohs w) k \<longleftrightarrow> (if k < 8 then bit w (k + 8) else k < 16 \<and> bit w (k - 8))"
proof -
  have two: "le_store 2 w = [ucast w, ucast (drop_bit 8 w)]" by (simp add: numeral_2_eq_2)
  show ?thesis
  proof (cases "k < 16")
    case True
    then have "k < 8 \<or> k div 8 = 1 \<and> k mod 8 = k - 8"
      by (simp add: div_if mod_if split: if_splits)
    with True show ?thesis
      by (auto simp: ntohs_def bit_le_load two bit_simps ac_simps)
  next
    case False
    then show ?thesis by (auto dest: bit_imp_le_length)
  qed
qed

lemma msptr_masks: "(0x07FF :: u16) = mask 11" "(0x00E0 :: u16) = push_bit 5 (mask 3)"
  by (simp_all add: mask_eq_decr_exp push_bit_eq_mult)

lemma bit_msptr_word:
  "bit (pkt_msptr (set_msptr v p)) k \<longleftrightarrow>
     (if k < 3 then bit v (k + 8) else if k < 5 then False
      else if k < 8 then bit (pkt_msptr p) k else bit v (k - 8) \<and> k < 16)"
  unfolding set_msptr_def msptr_masks
  by (auto simp: bit_simps bit_ntohs)

lemma get_set_msptr: "get_msptr (set_msptr v p) = v AND 0x07FF"
  by (rule bit_word_eqI) (auto simp: get_msptr_def msptr_masks bit_simps bit_ntohs bit_msptr_word)

lemma set_msptr_flags:
  "ttv_on (set_msptr v p) = ttv_on p" "msv_on (set_msptr v p) = msv_on p"
  by (simp_all add: ttv_on_bit msv_on_bit bit_msptr_word)


section \<open>Properties\<close>

text \<open>C33: The struct is a faithful view of a datagram: every 1080 bytes are the memory image of
  exactly one well formed packet, and reading the image of a packet gives the packet back.\<close>

theorem packet_layout_bijective:
  assumes "length bs = 1080" "wf_packet p"
  shows "wf_packet (packet_of_bytes bs) \<and> bytes_of_packet (packet_of_bytes bs) = bs
     \<and> packet_of_bytes (bytes_of_packet p) = p \<and> length (bytes_of_packet p) = 1080"
  using assms by (simp add: wf_packet_of_bytes bytes_packet_inverse packet_bytes_inverse
      length_bytes_of_packet)

lemma packet_layout_bijective_witness:
  "bytes_of_packet (packet_of_bytes (replicate 1080 7)) = replicate 1080 7"
  using packet_layout_bijective [of "replicate 1080 7" "packet_of_bytes (replicate 1080 7)"]
  by (simp add: wf_packet_of_bytes)

text \<open>C34: The accessors read the header fields of a datagram in network byte order: sequence
  number at bytes 2 and 3, pulse delay at 6 and 7, time tag at 8 to 15 with its extension at 16
  to 19, and the frequency word at 24 to 31.\<close>

theorem accessors_network_order:
  assumes "length bs = 1080"
  shows "get_seq (packet_of_bytes bs) = be_load (bytes_at 2 2 bs)
     \<and> get_msdel (packet_of_bytes bs) = be_load (bytes_at 6 2 bs)
     \<and> get_SDDSTime (packet_of_bytes bs)
         = time_raw (be_load (bytes_at 8 8 bs)) (be_load (bytes_at 16 4 bs))
     \<and> swap8 (pkt_freq (packet_of_bytes bs)) = be_load (bytes_at 24 8 bs)"
  using accessors_be [OF assms] by (simp add: get_SDDSTime_def time_raw_def)

lemma accessors_network_order_witness:
  "get_seq (packet_of_bytes ([0xFF, 0x48, 1, 2] @ replicate 1076 0)) = 0x0102"
  using accessors_network_order [of "[0xFF, 0x48, 1, 2] @ replicate 1076 0"]
  by (simp add: bytes_at_def be_load_def)

text \<open>\<open>set_msptr\<close> stores the low 11 bits of its argument and leaves the time tag and 1 ms
  flags, which share the word, as they are; \<open>set_ttv\<close> changes its flag and no other field that
  the processor reads, and \<open>set_SDDSTime\<close> neither the flags nor the sequence number.\<close>

theorem header_fields_independent:
  "get_msptr (set_msptr v p) = v AND 0x07FF \<and> ttv_on (set_msptr v p) = ttv_on p
     \<and> msv_on (set_msptr v p) = msv_on p
     \<and> ttv_on (set_ttv fl p) = fl \<and> get_seq (set_ttv fl p) = get_seq p
     \<and> get_SDDSTime (set_ttv fl p) = get_SDDSTime p
     \<and> get_SDDSTime (set_SDDSTime t p) = t \<and> get_seq (set_SDDSTime t p) = get_seq p
     \<and> ttv_on (set_SDDSTime t p) = ttv_on p"
  by (auto simp: get_set_msptr set_msptr_flags f_ttv.get_put f_seq_ttv.get_put' f_time.get_put
      f_seq_time.get_put' f_ttv_time.get_put')
    (simp add: set_ttv_def get_SDDSTime_def)

text \<open>A nonzero frequency word is a finite sample rate between \<open>2 ^ -38\<close> and \<open>2 ^ 32\<close> Hz,
  whatever the width and complex flags, so that its inverse is a finite sample interval; the
  zero word is the rate zero.\<close>

theorem get_rate_bounds:
  "(pkt_freq p = 0 \<and> get_rate p = Fin 0) \<or>
   (\<exists>x. get_rate p = Fin x \<and> 1 / 2 ^ 38 \<le> x \<and> x \<le> 2 ^ 32)"
proof (cases "pkt_freq p = 0")
  case True
  then show ?thesis by (simp add: get_rate_zero)
next
  case False
  then obtain x where "get_rate p = Fin x" "2 powi (- 38) \<le> x" "x \<le> 2 powi 32"
    using get_rate_pow by (blast elim: in_powE)
  then show ?thesis by simp
qed

text \<open>The frequency drift accessors are not inverse to each other: a drift of -1 Hz per
  second is stored as a negative number and read back through an unsigned conversion, as 3.\<close>

theorem get_dfdt_loses_sign:
  "(case set_dfdt (Fin (- 1)) p of Some q \<Rightarrow> get_dfdt q = Fin 3 | None \<Rightarrow> False)"
  by (simp add: set_dfdt_def int32_of_dbl_def get_dfdt_def net32.swap_swap dbl_defs)

end
