(* ===== verification/Bulkio_Utils.thy ===== *)
theory Bulkio_Utils
  imports Sdds_Packet
begin

text \<open>
  \<open>SddsToBulkIOUtils.h\<close> and \<open>SddsToBulkIOUtils.cpp\<close>: the free functions that turn the header
  of an SDDS packet into the BulkIO time stamp and signal description (SRI). The CORBA
  \<open>Any\<close> values of keywords and the functions of the framework on them are parameters, collected
  in the record \<open>corba\<close>. Logging is left out.
\<close>

section \<open>Constants and third-party types\<close>

definition BIG_ENDIAN_STR :: string where "BIG_ENDIAN_STR = ''4321''"
definition LITTLE_ENDIAN_STR :: string where "LITTLE_ENDIAN_STR = ''1234''"
definition ENDIAN_DEFAULT :: string where "ENDIAN_DEFAULT = BIG_ENDIAN_STR"

lemmas endian_defs = BIG_ENDIAN_STR_def LITTLE_ENDIAN_STR_def ENDIAN_DEFAULT_def

text \<open>The two structures of the BulkIO interface, with the members the program uses.\<close>

datatype tcstatus = TCS_INVALID | TCS_VALID
datatype tcmode = TCM_SDDS

record PrecisionUTCTime =
  tcmode_of :: tcmode
  tcstatus_of :: tcstatus
  toff :: dbl
  twsec :: dbl
  tfsec :: dbl

record 'a StreamSRI =
  hversion :: int
  xstart :: dbl
  xdelta :: dbl
  xunits :: int
  subsize :: int
  ystart :: dbl
  ydelta :: dbl
  yunits :: int
  sri_mode :: int
  streamID :: string
  blocking :: bool
  sri_keywords :: "(string \<times> 'a) list"

text \<open>
  What the program uses of CORBA and of the framework: \<open>ossie::any_to_string\<close>, the insertion of
  a string into an \<open>Any\<close>, \<open>ossie::compare_anys\<close> with the action "ne", and the operator \<open>!=\<close> on
  two CORBA string members.
\<close>

record 'a corba =
  any_to_string :: "'a \<Rightarrow> string"
  any_of_string :: "string \<Rightarrow> 'a"
  any_ne :: "'a \<Rightarrow> 'a \<Rightarrow> bool"
  string_ne :: "string \<Rightarrow> string \<Rightarrow> bool"

section \<open>Comparing doubles\<close>

definition floatingPointCompare :: "dbl \<Rightarrow> dbl \<Rightarrow> nat \<Rightarrow> dbl" where
  "floatingPointCompare lhs rhs places = dround (dmul (dsub lhs rhs) (dbl_of_int (10 ^ places)))"

section \<open>The start of the year\<close>

text \<open>
  \<open>gmtime\<close> and \<open>mktime\<close> of the C library on the proleptic Gregorian calendar, for times from
  1970 on. \<open>tz\<close> is the global \<open>timezone\<close>, the seconds west of UTC of the local standard time;
  \<open>gmtime\<close> sets the daylight saving flag to "not in effect", so \<open>mktime\<close> uses standard time.
\<close>

record tm =
  tm_sec :: int
  tm_min :: int
  tm_hour :: int
  tm_mday :: int
  tm_mon :: nat
  tm_year :: nat   \<comment> \<open>the full year; the C structure holds it less 1900\<close>

definition leap_year :: "nat \<Rightarrow> bool" where
  "leap_year y \<longleftrightarrow> y mod 4 = 0 \<and> (y mod 100 \<noteq> 0 \<or> y mod 400 = 0)"

definition year_days :: "nat \<Rightarrow> nat" where
  "year_days y = (if leap_year y then 366 else 365)"

definition month_days :: "nat \<Rightarrow> nat list" where
  "month_days y = [31, if leap_year y then 29 else 28, 31, 30, 31, 30, 31, 31, 30, 31, 30, 31]"

lemma year_days_pos: "0 < year_days y"
  by (simp add: year_days_def)

function year_from :: "nat \<Rightarrow> nat \<Rightarrow> nat \<times> nat" where
  "year_from y d = (if d < year_days y then (y, d) else year_from (Suc y) (d - year_days y))"
  by auto
termination
  by (relation "measure snd") (use year_days_pos in \<open>auto simp: not_less\<close>,
      metis diff_less le_zero_eq less_numeral_extra(3) neq0_conv year_days_pos)

declare year_from.simps [simp del]

fun month_from :: "nat list \<Rightarrow> nat \<Rightarrow> nat \<times> nat" where
  "month_from [] d = (0, d)"
| "month_from (m # ms) d = (if d < m then (0, d)
     else let (k, r) = month_from ms (d - m) in (Suc k, r))"

definition gmtime :: "int \<Rightarrow> tm" where
  "gmtime t = (let s = t mod 86400; (y, d) = year_from 1970 (nat (t div 86400));
     (m, r) = month_from (month_days y) d
     in \<lparr>tm_sec = s mod 60, tm_min = s div 60 mod 60, tm_hour = s div 3600, tm_mday = int r + 1,
         tm_mon = m, tm_year = y\<rparr>)"

definition days_before_year :: "nat \<Rightarrow> int" where
  "days_before_year y = (\<Sum>k\<leftarrow>[1970 ..< y]. int (year_days k))"

definition mktime :: "int \<Rightarrow> tm \<Rightarrow> int" where
  "mktime tz s = tz + 86400 * (days_before_year (tm_year s)
       + int (sum_list (take (tm_mon s) (month_days (tm_year s)))) + tm_mday s - 1)
     + 3600 * tm_hour s + 60 * tm_min s + tm_sec s"

text \<open>\<open>now\<close> is what \<open>time\<close> returns.\<close>

definition getStartOfYear :: "int \<Rightarrow> int \<Rightarrow> int" where
  "getStartOfYear tz now = (let systemtime_struct = gmtime now;
     systemtime_struct = systemtime_struct
       \<lparr>tm_sec := 0, tm_min := 0, tm_hour := 0, tm_mday := 1, tm_mon := 0\<rparr>
     in mktime tz systemtime_struct - tz)"

section \<open>The BulkIO time stamp\<close>

text \<open>Whole and fractional seconds of a packet's time, computed in doubles.\<close>

definition whole_seconds :: "SDDSTime \<Rightarrow> dbl" where
  "whole_seconds t = (let frac_int = ps250 t mod 4000000000; secs_int = ps250 t - frac_int in
     ddiv (dbl_of_word secs_int) (Fin 4000000000))"

definition frac_seconds :: "SDDSTime \<Rightarrow> dbl" where
  "frac_seconds t = (let frac_int = ps250 t mod 4000000000;
     frac_flt = ddiv (dbl_of_word frac_int) (Fin 4000000000);
     ext_flt = ddiv (dmul (rnd (250 / 10 ^ 12)) (dbl_of_word (pf250 t))) SDDSTime_two32
     in dadd frac_flt ext_flt)"

definition getBulkIOTimeStamp ::
    "int \<Rightarrow> int \<Rightarrow> SDDSpacket \<Rightarrow> SDDSTime \<Rightarrow> int \<Rightarrow> PrecisionUTCTime \<times> int" where
  "getBulkIOTimeStamp tz now sdds_pkt last_sdds_time startOfYear = (let
     status = (if get_ttv sdds_pkt \<noteq> 0 then TCS_VALID else TCS_INVALID);
     t = get_SDDSTime sdds_pkt;
     secs_flt = whole_seconds t;
     frac_flt = frac_seconds t;
     startOfYear = (if time_less t last_sdds_time then getStartOfYear tz now else startOfYear)
     in (\<lparr>tcmode_of = TCM_SDDS, tcstatus_of = status, toff = Fin 0,
          twsec = dadd secs_flt (dbl_of_int startOfYear), tfsec = frac_flt\<rparr>, startOfYear))"

text \<open>
  A variant the program does not call. The result is the new whole and fractional seconds and
  the start of the year; None where a double does not fit the integer it is converted to.
\<close>

definition getWholeAndFracSec ::
    "int \<Rightarrow> int \<Rightarrow> SDDSpacket \<Rightarrow> u64 \<Rightarrow> int \<Rightarrow> (u64 \<times> u64 \<times> int) option" where
  "getWholeAndFracSec tz now sdds_pkt whole_sec startOfYear = (let
     t = get_SDDSTime sdds_pkt;
     secs_flt = whole_seconds t;
     frac_flt = frac_seconds t;
     startOfYear = (if dless secs_flt (dbl_of_word whole_sec) then getStartOfYear tz now
       else startOfYear)
     in case word_of_dbl secs_flt of None \<Rightarrow> None
        | Some w \<Rightarrow> (case word_of_dbl frac_flt of None \<Rightarrow> None
          | Some f \<Rightarrow> Some (w, f, startOfYear)))"

definition getBps :: "SDDSpacket \<Rightarrow> u16" where
  "getBps sdds_pkt = (if pkt_bps sdds_pkt = 31 then 32 else ucast (pkt_bps sdds_pkt))"

section \<open>Merging signal descriptions\<close>

text \<open>The SRI and the \<open>changed\<close> flag are reference parameters: the result holds both.\<close>

definition mergeSddsSRI ::
    "SDDSpacket \<Rightarrow> 'a StreamSRI \<Rightarrow> bool \<Rightarrow> bool \<Rightarrow> 'a StreamSRI \<times> bool" where
  "mergeSddsSRI sdds_pkt sri changed non_conforming_device = (let
     recXdelta = ddiv (Fin 1) (get_rate sdds_pkt);
     recXdelta = (if non_conforming_device then dmul recXdelta (Fin (1 / 2)) else recXdelta);
     (sri, changed) =
       (if \<not> deq (floatingPointCompare recXdelta (xdelta sri) 7) (Fin 0)
        then (sri\<lparr>xdelta := recXdelta\<rparr>, True) else (sri, changed));
     recMode = (if pkt_cx sdds_pkt then 1 else 0)
     in if recMode \<noteq> sri_mode sri then (sri\<lparr>sri_mode := recMode\<rparr>, True) else (sri, changed))"

definition compareSRI :: "'a corba \<Rightarrow> 'a StreamSRI \<Rightarrow> 'a StreamSRI \<Rightarrow> bool" where
  "compareSRI env A B =
     (if \<not> (hversion A = hversion B \<and> deq (xstart A) (xstart B) \<and> xunits A = xunits B
          \<and> deq (ystart A) (ystart B) \<and> deq (ydelta A) (ydelta B) \<and> streamID A = streamID B)
      then False
      else if length (sri_keywords A) \<noteq> length (sri_keywords B) then False
      else list_all2 (\<lambda>a b. \<not> any_ne env (snd a) (snd b)) (sri_keywords A) (sri_keywords B))"

text \<open>The endianness a data reference keyword asks for; unknown values select the default.\<close>

definition endianness_of_sri :: "string \<Rightarrow> string" where
  "endianness_of_sri s =
     (if s = ''43981'' \<or> s = LITTLE_ENDIAN_STR then LITTLE_ENDIAN_STR
      else if s = ''52651'' \<or> s = BIG_ENDIAN_STR then BIG_ENDIAN_STR
      else ENDIAN_DEFAULT)"

definition override_key :: "string \<Rightarrow> bool" where
  "override_key k \<longleftrightarrow> k = ''BULKIO_SRI_PRIORITY'' \<or> k = ''use_BULKIO_SRI'' \<or> k = ''sddsPacketAlt''"

definition endian_key :: "string \<Rightarrow> bool" where
  "endian_key k \<longleftrightarrow> k = ''dataRef'' \<or> k = ''DATA_REF_STR''"

text \<open>The loop over the keywords: copied keywords, \<open>useUpstream\<close> and the endianness.\<close>

fun merge_keywords ::
    "'a corba \<Rightarrow> (string \<times> 'a) list \<Rightarrow> bool \<Rightarrow> string \<Rightarrow> (string \<times> 'a) list \<times> bool \<times> string" where
  "merge_keywords env [] useUpstream endianness = ([], useUpstream, endianness)"
| "merge_keywords env ((k, v) # kvs) useUpstream endianness =
     (if override_key k then
        (let (r, u, e) = merge_keywords env kvs True endianness in ((k, v) # r, u, e))
      else if endian_key k then
        (let s = any_to_string env v;
             (r, u, e) = merge_keywords env kvs useUpstream (endianness_of_sri s)
         in ((k, any_of_string env s) # r, u, e))
      else
        (let (r, u, e) = merge_keywords env kvs useUpstream endianness in ((k, v) # r, u, e)))"

text \<open>The reference parameters, in the order of the source, make up the result.\<close>

definition mergeUpstreamSRI ::
    "'a corba \<Rightarrow> 'a StreamSRI \<Rightarrow> 'a StreamSRI \<Rightarrow> bool \<Rightarrow> bool \<Rightarrow> bool \<Rightarrow> string
      \<Rightarrow> 'a StreamSRI \<times> bool \<times> bool \<times> bool \<times> string" where
  "mergeUpstreamSRI env currSRI upstreamSRI useUpstream changed streamIDChanged endianness =
     (if compareSRI env currSRI upstreamSRI
      then (currSRI, useUpstream, changed, streamIDChanged, endianness)
      else (let
        streamIDChanged =
          (if string_ne env (streamID currSRI) (streamID upstreamSRI) then True else streamIDChanged);
        (kws, useUpstream, endianness) =
          merge_keywords env (sri_keywords upstreamSRI) useUpstream endianness;
        currSRI = currSRI\<lparr>streamID := streamID upstreamSRI, hversion := hversion upstreamSRI,
          xstart := xstart upstreamSRI, xunits := xunits upstreamSRI, ystart := ystart upstreamSRI,
          ydelta := ydelta upstreamSRI, yunits := yunits upstreamSRI,
          blocking := blocking upstreamSRI, subsize := subsize upstreamSRI, sri_keywords := kws\<rparr>;
        currSRI = (if useUpstream
          then currSRI\<lparr>xdelta := xdelta upstreamSRI, sri_mode := sri_mode upstreamSRI\<rparr> else currSRI)
        in (currSRI, useUpstream, True, streamIDChanged, endianness)))"


section \<open>The start of the year\<close>

lemma year_from_spec:
  "year_from y d = (y', r) \<Longrightarrow>
   y \<le> y' \<and> r < year_days y' \<and> int d = (\<Sum>k\<leftarrow>[y ..< y']. int (year_days k)) + int r"
proof (induction y d rule: year_from.induct)
  case (1 y d)
  show ?case
  proof (cases "d < year_days y")
    case True
    with 1 show ?thesis by (simp add: year_from.simps [of y d])
  next
    case False
    with 1 have "Suc y \<le> y' \<and> r < year_days y'
        \<and> int (d - year_days y) = (\<Sum>k\<leftarrow>[Suc y ..< y']. int (year_days k)) + int r"
      by (simp add: year_from.simps [of y d])
    with False show ?thesis by (simp add: upt_conv_Cons of_nat_diff)
  qed
qed

lemma gmtime_year:
  assumes "0 \<le> now"
  shows "1970 \<le> tm_year (gmtime now)"
    "86400 * days_before_year (tm_year (gmtime now)) \<le> now"
    "now < 86400 * (days_before_year (tm_year (gmtime now)) + int (year_days (tm_year (gmtime now))))"
proof -
  obtain y r where yr: "year_from 1970 (nat (now div 86400)) = (y, r)" by fastforce
  then have year: "tm_year (gmtime now) = y"
    by (simp add: gmtime_def Let_def split: prod.split)
  from year_from_spec [OF yr] have y: "1970 \<le> y" "r < year_days y"
    "now div 86400 = days_before_year y + int r"
    using assms by (simp_all add: days_before_year_def pos_imp_zdiv_nonneg_iff)
  then show "1970 \<le> tm_year (gmtime now)" by (simp add: year)
  have "86400 * (now div 86400) \<le> now" "now < 86400 * (now div 86400) + 86400"
    by presburger+
  then show "86400 * days_before_year (tm_year (gmtime now)) \<le> now"
    "now < 86400 * (days_before_year (tm_year (gmtime now)) + int (year_days (tm_year (gmtime now))))"
    using y by (simp_all add: year)
qed

lemma getStartOfYear_eq: "getStartOfYear tz now = 86400 * days_before_year (tm_year (gmtime now))"
  by (simp add: getStartOfYear_def mktime_def Let_def)

section \<open>Exactness and accuracy of the time stamp\<close>

lemma tic_eq: "rnd (250 / 10 ^ 12) = Fin (4835703278458517 / 19342813113834066795298816)"
  by (simp add: dbl_defs)

lemma frac_max: "rnd (3999999999 / 4000000000) = Fin (1125899906561149 / 1125899906842624)"
  by (simp add: dbl_defs)

lemma unat_secs_int:
  "unat (w - w mod 4000000000) = 4000000000 * (unat w div 4000000000)" for w :: u64
proof -
  have m: "unat (w mod 4000000000) = unat w mod 4000000000"
    by (simp add: unat_mod)
  then have "w mod 4000000000 \<le> w" by (simp add: word_le_nat_alt)
  then have "unat (w - w mod 4000000000) = unat w - unat (w mod 4000000000)" by (rule unat_sub)
  then show ?thesis by (simp only: m minus_mod_eq_mult_div)
qed

text \<open>A multiple of \<open>4 * 10 ^ 9\<close> below \<open>2 ^ 64\<close> has at most 53 significant bits.\<close>

lemma representable_secs:
  assumes "4000000000 * n < (2 :: nat) ^ 64"
  shows "representable (of_nat (4000000000 * n))"
proof -
  have "1953125 * n < 2 ^ 53" using assms by simp
  then have "int (1953125 * n) < int (2 ^ 53)" by (simp only: of_nat_less_iff)
  then have "\<bar>int (1953125 * n)\<bar> \<le> 2 ^ 53" by simp
  moreover have "(of_nat (4000000000 * n) :: rat) = of_int (int (1953125 * n)) * 2 powi 11"
    by (simp add: power_int_def)
  ultimately show ?thesis unfolding representable_def
    by (intro exI [of _ "int (1953125 * n)"] exI [of _ 11]) simp
qed

lemma unat_less64: "unat (w :: u64) < 2 ^ 64"
  using unsigned_less [of w, where 'a = nat] by simp

lemma whole_seconds_exact:
  "whole_seconds t = Fin (of_nat (unat (ps250 t) div 4000000000))"
proof -
  define q where "q = unat (ps250 t) div 4000000000"
  have q: "4000000000 * q < 2 ^ 64"
    using unat_less64 [of "ps250 t"] unfolding q_def by (rule order_le_less_trans [rotated]) simp
  have "dbl_of_word (ps250 t - ps250 t mod 4000000000) = Fin (of_nat (4000000000 * q))"
    unfolding dbl_of_word_def unat_secs_int q_def [symmetric]
    using representable_secs [OF q] by (rule rnd_exact)
  moreover have "rnd (of_nat q) = Fin (of_nat q)"
    using rnd_small_int [of "int q"] q by simp
  ultimately show ?thesis
    by (simp add: whole_seconds_def q_def [symmetric])
qed

lemma abs_triangle3: "\<bar>x + y + z\<bar> \<le> \<bar>x\<bar> + \<bar>y\<bar> + \<bar>z\<bar>" for x y z :: rat
  by linarith

text \<open>The fraction: bounds and error of its two parts and of their sum.\<close>

definition exact_fraction :: "SDDSTime \<Rightarrow> rat" where
  "exact_fraction t = (of_nat (unat (ps250 t mod 4000000000))
     + of_nat (unat (pf250 t)) / 4294967296) / 4000000000"

lemma frac_part:
  assumes "f < 4000000000"
  shows "\<exists>y. rnd (of_nat f / 4000000000) = Fin y \<and> \<bar>y - of_nat f / 4000000000\<bar> \<le> 1 / 2 ^ 53
     \<and> 0 \<le> y \<and> y \<le> 1125899906561149 / 1125899906842624"
proof -
  have le: "(of_nat f :: rat) \<le> 3999999999"
    using assms of_nat_le_iff [of f 3999999999, where 'a = rat] by simp
  then have x: "0 \<le> (of_nat f / 4000000000 :: rat)" "(of_nat f / 4000000000 :: rat) \<le> 2 powi 0"
    by simp_all
  obtain y where y: "rnd (of_nat f / 4000000000) = Fin y"
      "\<bar>y - of_nat f / 4000000000\<bar> \<le> 2 powi (0 - 53)" "0 \<le> y"
    using rnd_error [OF x] by auto
  have "dle (rnd (of_nat f / 4000000000)) (rnd (3999999999 / 4000000000))"
    using le by (intro rnd_mono) simp_all
  then show ?thesis using y by (simp add: frac_max)
qed

lemma ext_part:
  assumes "p < 2 ^ 32"
  shows "\<exists>m y. dmul (rnd (250 / 10 ^ 12)) (Fin (of_nat p)) = Fin m
     \<and> ddiv (Fin m) (Fin 4294967296) = Fin y
     \<and> \<bar>y - of_nat p / 4294967296 / 4000000000\<bar> \<le> 1 / 2 ^ 82
     \<and> 0 \<le> y \<and> y \<le> 4835703277332617 / 19342813113834066795298816"
proof -
  let ?tic = "4835703278458517 / 19342813113834066795298816 :: rat"
  let ?p = "of_nat p :: rat"
  have p: "?p \<le> 4294967295"
    using assms of_nat_le_iff [of p 4294967295, where 'a = rat] by simp
  have x: "0 \<le> ?tic * ?p" "?tic * ?p \<le> 2 powi 1" using p by simp_all
  obtain m where m: "rnd (?tic * ?p) = Fin m" "\<bar>m - ?tic * ?p\<bar> \<le> 1 / 2 ^ 52" "0 \<le> m" "m \<le> 2"
    using rnd_error [OF x] by auto
  have "dle (rnd (?tic * ?p)) (rnd (?tic * 4294967295))"
    using p by (intro rnd_mono) simp_all
  moreover have "rnd (?tic * 4294967295) = Fin (4835703277332617 / 4503599627370496)"
    by (simp add: dbl_defs)
  ultimately have mle: "m \<le> 4835703277332617 / 4503599627370496"
    by (simp only: m(1) dle.simps)
  have z: "0 \<le> m / 4294967296" "m / 4294967296 \<le> 2 powi (- 31)" using m by simp_all
  obtain y where y: "rnd (m / 4294967296) = Fin y" "\<bar>y - m / 4294967296\<bar> \<le> 1 / 2 ^ 84" "0 \<le> y"
    using rnd_error [OF z] by auto
  have "dle (rnd (m / 4294967296)) (rnd (4835703277332617 / 4503599627370496 / 4294967296))"
    using mle m(3) by (intro rnd_mono) simp_all
  moreover have "rnd (4835703277332617 / 4503599627370496 / 4294967296)
      = Fin (4835703277332617 / 19342813113834066795298816)"
    by (simp add: dbl_defs)
  ultimately have yle: "y \<le> 4835703277332617 / 19342813113834066795298816"
    by (simp only: y(1) dle.simps)
  have "\<bar>?tic * ?p / 4294967296 - ?p / 4294967296 / 4000000000\<bar> \<le> 1 / 2 ^ 85"
    using p by (auto simp: abs_le_iff)
  moreover have "\<bar>(m - ?tic * ?p) / 4294967296\<bar> \<le> 1 / 2 ^ 84"
    using m(2) by (simp only: abs_divide) simp
  moreover have "y - ?p / 4294967296 / 4000000000 = (y - m / 4294967296)
      + (m - ?tic * ?p) / 4294967296 + (?tic * ?p / 4294967296 - ?p / 4294967296 / 4000000000)"
    by (simp only: diff_divide_distrib)
  moreover note y(2) abs_triangle3 [of "y - m / 4294967296" "(m - ?tic * ?p) / 4294967296"
        "?tic * ?p / 4294967296 - ?p / 4294967296 / 4000000000"]
  moreover have "(1 / 2 ^ 84 + 1 / 2 ^ 84 + 1 / 2 ^ 85 :: rat) \<le> 1 / 2 ^ 82" by simp
  ultimately have "\<bar>y - ?p / 4294967296 / 4000000000\<bar> \<le> 1 / 2 ^ 82" by linarith
  moreover have "dmul (rnd (250 / 10 ^ 12)) (Fin ?p) = Fin m"
    by (simp only: tic_eq dmul.simps m(1))
  moreover have "ddiv (Fin m) (Fin 4294967296) = Fin y"
    by (simp add: y(1))
  ultimately show ?thesis using y(3) yle by blast
qed

lemma frac_seconds_accurate:
  "\<exists>y. frac_seconds t = Fin y \<and> 0 \<le> y \<and> y \<le> 1 \<and> \<bar>y - exact_fraction t\<bar> \<le> 1 / 2 ^ 51"
proof -
  define f where "f = unat (ps250 t mod 4000000000)"
  define p where "p = unat (pf250 t)"
  have f: "f < 4000000000" by (simp add: f_def unat_mod)
  have p: "p < 2 ^ 32" unfolding p_def using unsigned_less [of "pf250 t", where 'a = nat] by simp
  have df: "dbl_of_word (ps250 t mod 4000000000) = Fin (of_nat f)"
    using rnd_small_int [of "int f"] f by (simp add: dbl_of_word_def f_def [symmetric] del: unsigned_of_nat)
  have dp: "dbl_of_word (pf250 t) = Fin (of_nat p)"
    using rnd_small_int [of "int p"] p by (simp add: dbl_of_word_def p_def [symmetric] del: unsigned_of_nat)
  obtain a where a: "rnd (of_nat f / 4000000000) = Fin a" "\<bar>a - of_nat f / 4000000000\<bar> \<le> 1 / 2 ^ 53"
      "0 \<le> a" "a \<le> 1125899906561149 / 1125899906842624"
    using frac_part [OF f] by blast
  obtain m b where b: "dmul (rnd (250 / 10 ^ 12)) (Fin (of_nat p)) = Fin m"
      "ddiv (Fin m) (Fin 4294967296) = Fin b"
      "\<bar>b - of_nat p / 4294967296 / 4000000000\<bar> \<le> 1 / 2 ^ 82"
      "0 \<le> b" "b \<le> 4835703277332617 / 19342813113834066795298816"
    using ext_part [OF p] by blast
  have frac: "frac_seconds t = rnd (a + b)"
    unfolding frac_seconds_def Let_def df dp SDDSTime_two32_def b(1,2) by (simp add: a)
  have x: "0 \<le> a + b" "a + b \<le> 2 powi 1" using a b by simp_all
  obtain y where y: "rnd (a + b) = Fin y" "\<bar>y - (a + b)\<bar> \<le> 1 / 2 ^ 52" "0 \<le> y"
    using rnd_error [OF x] by auto
  have "dle (rnd (a + b)) (rnd (1125899906561149 / 1125899906842624
      + 4835703277332617 / 19342813113834066795298816))"
    using a b by (intro rnd_mono) simp_all
  moreover have "rnd (1125899906561149 / 1125899906842624
      + 4835703277332617 / 19342813113834066795298816) = Fin 1"
    by (simp add: dbl_defs)
  ultimately have y1: "y \<le> 1" by (simp add: y)
  have "exact_fraction t = of_nat f / 4000000000 + of_nat p / 4294967296 / 4000000000"
    by (simp only: exact_fraction_def f_def p_def add_divide_distrib)
  then have "\<bar>y - exact_fraction t\<bar> \<le> 1 / 2 ^ 51"
    using y(2) a(2) b(3) abs_triangle3
      [of "y - (a + b)" "a - of_nat f / 4000000000" "b - of_nat p / 4294967296 / 4000000000"]
    by (simp add: algebra_simps)
  with y y1 frac show ?thesis by auto
qed


section \<open>Merging\<close>

text \<open>The sample interval a packet asks for, and when the stored one counts as the same.\<close>

definition packet_xdelta :: "SDDSpacket \<Rightarrow> bool \<Rightarrow> dbl" where
  "packet_xdelta p ncd = (let d = ddiv (Fin 1) (get_rate p) in if ncd then dmul d (Fin (1 / 2)) else d)"

definition xdelta_ne :: "dbl \<Rightarrow> dbl \<Rightarrow> bool" where
  "xdelta_ne a b \<longleftrightarrow> \<not> deq (floatingPointCompare a b 7) (Fin 0)"

definition packet_mode :: "SDDSpacket \<Rightarrow> int" where
  "packet_mode p = (if pkt_cx p then 1 else 0)"

lemma mergeSddsSRI_eq:
  "mergeSddsSRI p sri ch ncd =
     (sri\<lparr>xdelta := if xdelta_ne (packet_xdelta p ncd) (xdelta sri) then packet_xdelta p ncd
                    else xdelta sri, sri_mode := packet_mode p\<rparr>,
      ch \<or> xdelta_ne (packet_xdelta p ncd) (xdelta sri) \<or> packet_mode p \<noteq> sri_mode sri)"
  by (simp add: mergeSddsSRI_def packet_xdelta_def xdelta_ne_def packet_mode_def Let_def)

lemma packet_xdelta_pow:
  assumes "pkt_freq p \<noteq> 0"
  shows "in_pow (- 33) 38 (packet_xdelta p ncd)"
proof -
  from in_pow_inverse [OF get_rate_pow [OF assms]]
  have d: "in_pow (- 32) 38 (ddiv (Fin 1) (get_rate p))" by simp
  have "in_pow (- 1) (- 1) (Fin (1 / 2))" by (simp add: in_pow_def power_int_def)
  from in_pow_dmul [OF d this] have "in_pow (- 33) 37 (dmul (ddiv (Fin 1) (get_rate p)) (Fin (1 / 2)))"
    by simp
  with d show ?thesis by (auto simp: packet_xdelta_def Let_def elim: in_pow_weaken)
qed

lemma xdelta_ne_self: "in_pow a b d \<Longrightarrow> \<not> xdelta_ne d d"
  by (erule in_powE) (simp add: xdelta_ne_def floatingPointCompare_def dsub_def dbl_defs)

text \<open>Merging the same packet again reports no change, unless its frequency word is zero.\<close>

definition sri_settled :: "SDDSpacket \<Rightarrow> bool \<Rightarrow> 'a StreamSRI \<Rightarrow> bool" where
  "sri_settled p ncd sri \<longleftrightarrow>
     \<not> xdelta_ne (packet_xdelta p ncd) (xdelta sri) \<and> sri_mode sri = packet_mode p"

lemma mergeSddsSRI_settles:
  assumes "pkt_freq p \<noteq> 0" "mergeSddsSRI p sri ch ncd = (sri', ch')"
  shows "sri_settled p ncd sri'"
proof (cases "xdelta_ne (packet_xdelta p ncd) (xdelta sri)")
  case True
  with assms(2) have "sri' = sri\<lparr>xdelta := packet_xdelta p ncd, sri_mode := packet_mode p\<rparr>"
    by (simp add: mergeSddsSRI_eq)
  with xdelta_ne_self [OF packet_xdelta_pow [OF assms(1), of ncd]] show ?thesis
    by (simp add: sri_settled_def)
next
  case False
  with assms(2) have "sri' = sri\<lparr>sri_mode := packet_mode p\<rparr>"
    by (simp add: mergeSddsSRI_eq)
  with False show ?thesis by (simp add: sri_settled_def)
qed

lemma mergeSddsSRI_settled: "sri_settled p ncd sri \<Longrightarrow> mergeSddsSRI p sri ch ncd = (sri, ch)"
  by (simp add: mergeSddsSRI_eq sri_settled_def)

lemma mergeSddsSRI_changed_iff:
  "snd (mergeSddsSRI p sri False ncd) \<longleftrightarrow> \<not> sri_settled p ncd sri"
  by (auto simp: mergeSddsSRI_eq sri_settled_def)

text \<open>With a zero frequency word the interval is infinite, and differs from itself.\<close>

lemma packet_xdelta_zero: "pkt_freq p = 0 \<Longrightarrow> packet_xdelta p ncd = PInf"
  by (simp add: packet_xdelta_def get_rate_zero inf_sgn_def)

lemma zero_rate_never_settles: "pkt_freq p = 0 \<Longrightarrow> \<not> sri_settled p ncd sri"
proof -
  assume z: "pkt_freq p = 0"
  have f: "dbl_of_int (10 ^ 7) = Fin 10000000" by (simp add: dbl_defs)
  have "xdelta_ne PInf x" for x
    by (cases x) (simp_all only: xdelta_ne_def floatingPointCompare_def dsub_def dneg.simps
        dadd.simps f dmul.simps inf_sgn_def dround.simps deq_def, simp_all)
  with z show ?thesis by (simp add: sri_settled_def packet_xdelta_zero)
qed

section \<open>Merging the upstream description\<close>

text \<open>The keyword loop in closed form.\<close>

definition stored_value :: "'a corba \<Rightarrow> string \<times> 'a \<Rightarrow> string \<times> 'a" where
  "stored_value env kv =
     (fst kv, if endian_key (fst kv) then any_of_string env (any_to_string env (snd kv)) else snd kv)"

definition keyword_endianness :: "'a corba \<Rightarrow> (string \<times> 'a) list \<Rightarrow> string \<Rightarrow> string" where
  "keyword_endianness env kvs e =
     foldl (\<lambda>e kv. if endian_key (fst kv) then endianness_of_sri (any_to_string env (snd kv)) else e) e kvs"

lemma endian_not_override: "override_key k \<Longrightarrow> \<not> endian_key k"
  by (auto simp: override_key_def endian_key_def)

lemma merge_keywords_eq:
  "merge_keywords env kvs u e =
     (map (stored_value env) kvs, u \<or> (\<exists>kv \<in> set kvs. override_key (fst kv)), keyword_endianness env kvs e)"
  by (induction env kvs u e rule: merge_keywords.induct)
    (auto simp: keyword_endianness_def stored_value_def Let_def dest: endian_not_override split: prod.splits)

lemma endianness_of_sri_valid: "endianness_of_sri s \<in> {BIG_ENDIAN_STR, LITTLE_ENDIAN_STR}"
  by (simp add: endianness_of_sri_def endian_defs)

lemma keyword_endianness_valid:
  "e \<in> {BIG_ENDIAN_STR, LITTLE_ENDIAN_STR} \<Longrightarrow>
   keyword_endianness env kvs e \<in> {BIG_ENDIAN_STR, LITTLE_ENDIAN_STR}"
  unfolding keyword_endianness_def
proof (induction kvs arbitrary: e)
  case (Cons kv kvs)
  show ?case
    unfolding foldl_Cons
    by (rule Cons.IH) (use Cons.prems endianness_of_sri_valid [of "any_to_string env (snd kv)"] in simp)
qed simp

lemma mergeUpstreamSRI_endianness:
  assumes "mergeUpstreamSRI env sri up u ch sc e = (sri', u', ch', sc', e')"
    "e \<in> {BIG_ENDIAN_STR, LITTLE_ENDIAN_STR}"
  shows "e' \<in> {BIG_ENDIAN_STR, LITTLE_ENDIAN_STR}"
  using assms keyword_endianness_valid [OF assms(2), of env "sri_keywords up"]
  by (auto simp: mergeUpstreamSRI_def Let_def merge_keywords_eq split: if_splits)

lemma mergeUpstreamSRI_use:
  assumes "mergeUpstreamSRI env sri up u ch sc e = (sri', u', ch', sc', e')"
  shows "(u \<longrightarrow> u') \<and> (ch \<longrightarrow> ch')"
  using assms by (auto simp: mergeUpstreamSRI_def Let_def merge_keywords_eq split: if_splits)


section \<open>How far a kept sample interval can be off\<close>

lemma dround_nonzero:
  assumes "dle (Fin (1 / 2)) (dabs d)"
  shows "\<not> deq (dround d) (Fin 0)"
proof (cases d)
  case (Fin x)
  with assms have x: "1 / 2 \<le> \<bar>x\<bar>" by simp
  show ?thesis
  proof (cases "0 \<le> x")
    case True
    then have "\<lfloor>x + 1 / 2\<rfloor> \<noteq> 0" using x by (simp add: floor_eq_iff)
    then show ?thesis using True by (simp add: Fin deq_def)
  next
    case False
    then have "\<lfloor>- x + 1 / 2\<rfloor> \<noteq> 0" using x by (simp add: floor_eq_iff)
    then show ?thesis using False by (simp add: Fin deq_def)
  qed
qed (simp_all add: deq_def)

lemma xdelta_eq_close:
  assumes "\<not> xdelta_ne (Fin d) y"
  shows "\<exists>x. y = Fin x \<and> \<bar>d - x\<bar> < 1 / 2 ^ 24"
proof (cases y)
  case (Fin x)
  have f: "dbl_of_int (10 ^ 7) = Fin 10000000" by (simp add: dbl_defs)
  have "\<bar>d - x\<bar> < 1 / 2 ^ 24"
  proof (rule ccontr)
    assume "\<not> \<bar>d - x\<bar> < 1 / 2 ^ 24"
    then have "2 powi (- 24) \<le> \<bar>d - x\<bar>" by simp
    then have far: "dle (Fin (2 powi (- 24))) (dabs (rnd (d - x)))" by (rule rnd_abs_ge) simp_all
    have "dle (Fin (1 / 2)) (dabs (dmul (rnd (d - x)) (Fin 10000000)))"
    proof (cases "rnd (d - x)")
      case (Fin z)
      then have "1 / 2 ^ 24 \<le> \<bar>z\<bar>" using far by simp
      then have "2 powi (- 1) \<le> \<bar>z * 10000000\<bar>" by (simp add: abs_mult)
      then have "dle (Fin (2 powi (- 1))) (dabs (rnd (z * 10000000)))" by (rule rnd_abs_ge) simp_all
      then show ?thesis by (simp add: Fin)
    qed (use far in \<open>simp_all add: inf_sgn_def\<close>)
    from dround_nonzero [OF this] assms show False
      by (simp only: Fin xdelta_ne_def floatingPointCompare_def f dsub_def) simp
  qed
  with Fin show ?thesis by simp
next
  case NaN
  with assms show ?thesis by (simp add: xdelta_ne_def floatingPointCompare_def dsub_def deq_def)
qed (use assms in \<open>simp_all add: xdelta_ne_def floatingPointCompare_def dsub_def deq_def
      dbl_defs\<close>)

lemma sri_settled_close:
  assumes "sri_settled p ncd sri" "pkt_freq p \<noteq> 0"
  shows "\<exists>d x. packet_xdelta p ncd = Fin d \<and> xdelta sri = Fin x \<and> \<bar>d - x\<bar> < 1 / 2 ^ 24"
proof -
  obtain d where d: "packet_xdelta p ncd = Fin d"
    using packet_xdelta_pow [OF assms(2)] by (rule in_powE)
  with assms(1) have "\<not> xdelta_ne (Fin d) (xdelta sri)" by (simp add: sri_settled_def)
  from xdelta_eq_close [OF this] d show ?thesis by blast
qed

section \<open>A second merge of the same upstream description\<close>

definition merged_sri :: "'a corba \<Rightarrow> bool \<Rightarrow> 'a StreamSRI \<Rightarrow> 'a StreamSRI \<Rightarrow> 'a StreamSRI" where
  "merged_sri env u sri up = (let
     sri = sri\<lparr>streamID := streamID up, hversion := hversion up, xstart := xstart up,
       xunits := xunits up, ystart := ystart up, ydelta := ydelta up, yunits := yunits up,
       blocking := blocking up, subsize := subsize up,
       sri_keywords := map (stored_value env) (sri_keywords up)\<rparr>
     in if u then sri\<lparr>xdelta := xdelta up, sri_mode := sri_mode up\<rparr> else sri)"

lemma merged_sri_eq:
  "merged_sri env u sri up = up\<lparr>xdelta := if u then xdelta up else xdelta sri,
      sri_mode := if u then sri_mode up else sri_mode sri,
      sri_keywords := map (stored_value env) (sri_keywords up)\<rparr>"
  by (cases sri; cases up) (simp add: merged_sri_def)

lemma mergeUpstreamSRI_fields:
  assumes "mergeUpstreamSRI env sri up u ch sc e = (sri', u', ch', sc', e')" "\<not> compareSRI env sri up"
  shows "u' = (u \<or> (\<exists>kv \<in> set (sri_keywords up). override_key (fst kv)))" "ch'"
    "sc' = (sc \<or> string_ne env (streamID sri) (streamID up))"
    "e' = keyword_endianness env (sri_keywords up) e"
    "sri' = up\<lparr>xdelta := if u' then xdelta up else xdelta sri,
      sri_mode := if u' then sri_mode up else sri_mode sri,
      sri_keywords := map (stored_value env) (sri_keywords up)\<rparr>"
proof -
  let ?u = "u \<or> (\<exists>kv \<in> set (sri_keywords up). override_key (fst kv))"
  have res: "(sri', u', ch', sc', e') = (merged_sri env ?u sri up, ?u, True,
      sc \<or> string_ne env (streamID sri) (streamID up), keyword_endianness env (sri_keywords up) e)"
    unfolding assms(1) [symmetric] using assms(2)
    by (auto simp: mergeUpstreamSRI_def Let_def merge_keywords_eq merged_sri_def)
  then show "u' = ?u" "ch'" "sc' = (sc \<or> string_ne env (streamID sri) (streamID up))"
    "e' = keyword_endianness env (sri_keywords up) e" by (simp_all only: prod.inject)
  with res show "sri' = up\<lparr>xdelta := if u' then xdelta up else xdelta sri,
      sri_mode := if u' then sri_mode up else sri_mode sri,
      sri_keywords := map (stored_value env) (sri_keywords up)\<rparr>"
    by (simp only: prod.inject merged_sri_eq)
qed

lemma mergeUpstreamSRI_same:
  assumes merge: "mergeUpstreamSRI env sri up u ch sc e = (sri', u', ch', sc', e')"
    and num: "xstart up \<noteq> NaN" "ystart up \<noteq> NaN" "ydelta up \<noteq> NaN"
    and any: "\<And>v. \<not> any_ne env v v"
      "\<And>k v. (k, v) \<in> set (sri_keywords up) \<Longrightarrow> endian_key k \<Longrightarrow>
         \<not> any_ne env (any_of_string env (any_to_string env v)) v"
  shows "compareSRI env sri' up"
proof (cases "compareSRI env sri up")
  case True
  with merge show ?thesis by (simp add: mergeUpstreamSRI_def)
next
  case False
  have "list_all2 (\<lambda>a b. \<not> any_ne env (snd a) (snd b))
      (map (stored_value env) (sri_keywords up)) (sri_keywords up)"
    unfolding list_all2_map1
    by (rule list.rel_refl_strong) (use any in \<open>auto simp: stored_value_def split: prod.splits\<close>)
  with mergeUpstreamSRI_fields(5) [OF merge False] num show ?thesis
    by (simp add: compareSRI_def deq_def)
qed


section \<open>Properties\<close>

text \<open>For a clock past 1970 \<open>getStartOfYear\<close> is midnight of January 1st of the year \<open>gmtime\<close>
  finds, whatever the local time zone: not after the clock, and less than that year's length
  before it.\<close>

theorem start_of_year_correct:
  assumes "0 \<le> now"
  shows "getStartOfYear tz now = 86400 * days_before_year (tm_year (gmtime now))
     \<and> getStartOfYear tz now \<le> now
     \<and> now < getStartOfYear tz now + 86400 * int (year_days (tm_year (gmtime now)))"
  using gmtime_year [OF assms] by (simp add: getStartOfYear_eq algebra_simps)

lemma start_of_year_correct_witness:
  "getStartOfYear 18000 100000000 \<le> 100000000"
  using start_of_year_correct [of 100000000 18000] by simp

text \<open>C32: The time stamp of a packet: the whole seconds of its time tag plus the start of the
  year, exactly, although they are computed in doubles; the fraction in [0, 1], within
  \<open>2 ^ -51\<close> of its exact value; the status is the packet's time tag flag, and the start of the
  year is looked up again exactly when the time tag is below that of the previous packet.\<close>

theorem time_stamp_exact:
  assumes "getBulkIOTimeStamp tz now p prev soy = (T, soy')" "\<bar>soy'\<bar> \<le> 2 ^ 52"
  shows "twsec T = Fin (of_int (int (unat (ps250 (get_SDDSTime p)) div 4000000000) + soy'))
     \<and> (\<exists>y. tfsec T = Fin y \<and> 0 \<le> y \<and> y \<le> 1
          \<and> \<bar>y - exact_fraction (get_SDDSTime p)\<bar> \<le> 1 / 2 ^ 51)
     \<and> (tcstatus_of T = TCS_VALID \<longleftrightarrow> ttv_on p)
     \<and> soy' = (if get_SDDSTime p < prev then getStartOfYear tz now else soy)"
proof -
  let ?t = "get_SDDSTime p"
  define q where "q = unat (ps250 ?t) div 4000000000"
  have q: "int q \<le> 2 ^ 33" using unat_less64 [of "ps250 ?t"] unfolding q_def by simp
  have soy: "dbl_of_int soy' = Fin (of_int soy')"
    unfolding dbl_of_int_def by (rule rnd_small_int) (use assms(2) in simp)
  have "rnd (of_int (int q + soy')) = Fin (of_int (int q + soy'))"
    by (rule rnd_small_int) (use assms(2) q in simp)
  then have "dadd (whole_seconds ?t) (dbl_of_int soy') = Fin (of_int (int q + soy'))"
    by (simp add: whole_seconds_exact soy q_def)
  moreover have "twsec T = dadd (whole_seconds ?t) (dbl_of_int soy')" "tfsec T = frac_seconds ?t"
    "tcstatus_of T = (if ttv_on p then TCS_VALID else TCS_INVALID)"
    "soy' = (if ?t < prev then getStartOfYear tz now else soy)"
    using assms(1) by (auto simp: getBulkIOTimeStamp_def Let_def ttv_on_def time_less_iff)
  ultimately show ?thesis using frac_seconds_accurate [of ?t] by (auto simp: q_def)
qed

definition sample_packet :: SDDSpacket where
  "sample_packet = \<lparr>pkt_dmode = 1, pkt_ss = False, pkt_of = False, pkt_pp = False, pkt_sos = True,
     pkt_sf = True, pkt_bps = 16, pkt_vw = False, pkt_snp = False, pkt_cx = False, pkt_seq = 0,
     pkt_msptr = 0x40, pkt_msdel = 0, pkt_ttag = 0, pkt_ttage = 0, pkt_dFdT = 0,
     pkt_freq = swap8 7378697629483820646, pkt_ssd0 = 0, pkt_ssd1 = 0,
     pkt_aad = replicate 20 0, pkt_d = replicate 1024 0\<rparr>"

lemma time_stamp_exact_witness:
  "(case getBulkIOTimeStamp 0 0 (set_SDDSTime (time_raw 6000000000 0) sample_packet) time_zero 1451606400
    of (T, soy) \<Rightarrow> twsec T = Fin 1451606401)"
proof -
  let ?p = "set_SDDSTime (time_raw 6000000000 0) sample_packet"
  obtain T soy where T: "getBulkIOTimeStamp 0 0 ?p time_zero 1451606400 = (T, soy)" by fastforce
  then have "soy = 1451606400"
    by (auto simp: getBulkIOTimeStamp_def Let_def f_time.get_put time_less_def time_raw_def time_zero_def)
  with time_stamp_exact [OF T] have "twsec T = Fin 1451606401"
    by (simp add: f_time.get_put time_raw_def)
  then show ?thesis by (simp only: T prod.case)
qed

text \<open>The fraction can be exactly 1.0: rounding lifts the last fraction of a second to the
  next whole second, which the whole part does not count.\<close>

theorem fraction_reaches_one:
  "frac_seconds (time_raw 3999999999 0xFFFFFFFF) = Fin 1
     \<and> whole_seconds (time_raw 3999999999 0xFFFFFFFF) = Fin 0"
proof
  have w: "(3999999999 :: u64) mod 4000000000 = 3999999999" by simp
  show "frac_seconds (time_raw 3999999999 0xFFFFFFFF) = Fin 1"
    by (simp add: frac_seconds_def time_raw_def Let_def w SDDSTime_two32_def dbl_defs)
  show "whole_seconds (time_raw 3999999999 0xFFFFFFFF) = Fin 0"
    by (simp add: whole_seconds_exact time_raw_def)
qed

text \<open>Merging a packet with a nonzero frequency settles: the SRI then carries the packet's
  mode and a sample interval within \<open>2 ^ -24\<close> seconds of the packet's, and merging the same
  packet again reports no change.\<close>

theorem merge_sdds_settles:
  assumes "pkt_freq p \<noteq> 0" "mergeSddsSRI p sri ch ncd = (sri', ch')"
  shows "mergeSddsSRI p sri' False ncd = (sri', False) \<and> sri_mode sri' = (if pkt_cx p then 1 else 0)
     \<and> (\<exists>d x. packet_xdelta p ncd = Fin d \<and> xdelta sri' = Fin x \<and> \<bar>d - x\<bar> < 1 / 2 ^ 24)
     \<and> (ch' \<longleftrightarrow> ch \<or> sri' \<noteq> sri)"
proof -
  have s: "sri_settled p ncd sri'" using assms by (rule mergeSddsSRI_settles)
  have "ch' \<longleftrightarrow> ch \<or> sri' \<noteq> sri"
  proof (cases "sri_settled p ncd sri")
    case True
    with assms(2) show ?thesis by (auto simp: mergeSddsSRI_settled)
  next
    case False
    with s have "sri' \<noteq> sri" by blast
    moreover from False assms(2) have ch' by (auto simp: mergeSddsSRI_eq sri_settled_def)
    ultimately show ?thesis by simp
  qed
  with s show ?thesis
    using sri_settled_close [OF s assms(1)]
    by (simp add: mergeSddsSRI_settled) (simp add: sri_settled_def packet_mode_def)
qed

definition sample_sri :: "unit StreamSRI" where
  "sample_sri = \<lparr>hversion = 0, xstart = Fin 0, xdelta = rnd (1 / 50000000), xunits = 0, subsize = 0,
     ystart = Fin 0, ydelta = Fin 0, yunits = 0, sri_mode = 0, streamID = ''s'', blocking = False,
     sri_keywords = []\<rparr>"

lemma merge_sdds_settles_witness:
  "(case mergeSddsSRI sample_packet sample_sri False False of
      (sri, _) \<Rightarrow> mergeSddsSRI sample_packet sri False False = (sri, False))"
proof -
  obtain sri ch where "mergeSddsSRI sample_packet sample_sri False False = (sri, ch)" by fastforce
  with merge_sdds_settles [OF _ this] show ?thesis
    by (simp add: sample_packet_def net64.swap_eq_0)
qed

text \<open>A zero frequency word never settles: every merge reports a change, so the processor
  sends the SRI again and again and does not get past the packet.\<close>

theorem zero_rate_always_changes:
  assumes "pkt_freq p = 0"
  shows "snd (mergeSddsSRI p sri False ncd)"
  using zero_rate_never_settles [OF assms] by (simp add: mergeSddsSRI_changed_iff)

lemma zero_rate_always_changes_witness:
  "snd (mergeSddsSRI (sample_packet\<lparr>pkt_freq := 0\<rparr>) (sample_sri\<lparr>xdelta := PInf, sri_mode := 0\<rparr>) False False)"
  by (rule zero_rate_always_changes) simp

text \<open>The comparison to seven decimal places misses real changes of fast streams: going from
  50 MHz to 100 MHz (the rate of the sample packet) leaves the SRI as it is.\<close>

theorem fast_rate_change_missed:
  "mergeSddsSRI sample_packet sample_sri False False = (sample_sri, False)
     \<and> dless (Fin 99999999) (get_rate sample_packet) \<and> deq (xdelta sample_sri) (rnd (1 / 50000000))"
proof -
  have r: "get_rate sample_packet = rnd (7378697629483820646 * 13552527156068805 / 10 ^ 27)"
    by (simp add: get_rate_def sample_packet_def net64.swap_swap rate_unit_def dbl_defs)
  then have "sri_settled sample_packet False sample_sri"
    by (simp add: sri_settled_def packet_xdelta_def packet_mode_def xdelta_ne_def
        floatingPointCompare_def sample_sri_def dbl_defs) (simp add: sample_packet_def)
  with r show ?thesis by (simp add: mergeSddsSRI_settled) (simp add: sample_sri_def dbl_defs)
qed

text \<open>C38: Merging an upstream description that differs: everything but the sample interval and
  the mode is copied, those two exactly when an override keyword is present (or was before); a
  data reference keyword sets the endianness, and the endianness stays one of the two known ones.\<close>

theorem merge_upstream_correct:
  assumes "mergeUpstreamSRI env sri up u ch sc e = (sri', u', ch', sc', e')"
    "\<not> compareSRI env sri up" "e = BIG_ENDIAN_STR \<or> e = LITTLE_ENDIAN_STR"
  shows "ch' \<and> u' = (u \<or> (\<exists>kv \<in> set (sri_keywords up). override_key (fst kv)))
     \<and> sri' = up\<lparr>xdelta := if u' then xdelta up else xdelta sri,
         sri_mode := if u' then sri_mode up else sri_mode sri,
         sri_keywords := map (stored_value env) (sri_keywords up)\<rparr>
     \<and> e' = keyword_endianness env (sri_keywords up) e
     \<and> (e' = BIG_ENDIAN_STR \<or> e' = LITTLE_ENDIAN_STR)"
  using mergeUpstreamSRI_fields [OF assms(1,2)] mergeUpstreamSRI_endianness [OF assms(1)] assms(3)
  by blast

definition string_corba :: "string corba" where
  "string_corba = \<lparr>any_to_string = (\<lambda>v. v), any_of_string = (\<lambda>s. s), any_ne = (\<noteq>), string_ne = (\<noteq>)\<rparr>"

definition string_sri :: "string \<Rightarrow> (string \<times> string) list \<Rightarrow> string StreamSRI" where
  "string_sri name kws = \<lparr>hversion = 0, xstart = Fin 0, xdelta = Fin 1, xunits = 0, subsize = 0,
     ystart = Fin 0, ydelta = Fin 0, yunits = 0, sri_mode = 0, streamID = name, blocking = False,
     sri_keywords = kws\<rparr>"

lemma merge_upstream_correct_witness:
  "(case mergeUpstreamSRI string_corba (string_sri ''a'' []) (string_sri ''b'' [(''dataRef'', ''43981'')])
      False False False BIG_ENDIAN_STR of
    (sri, u, ch, sc, e) \<Rightarrow> \<not> u \<and> ch \<and> streamID sri = ''b'' \<and> e = LITTLE_ENDIAN_STR)"
proof -
  let ?up = "string_sri ''b'' [(''dataRef'', ''43981'')]"
  obtain sri u ch sc e where m: "mergeUpstreamSRI string_corba (string_sri ''a'' []) ?up
      False False False BIG_ENDIAN_STR = (sri, u, ch, sc, e)" by (metis prod_cases5)
  have "\<not> compareSRI string_corba (string_sri ''a'' []) ?up"
    by (simp add: compareSRI_def string_sri_def)
  from merge_upstream_correct [OF m this] m show ?thesis
    by (simp add: string_sri_def string_corba_def override_key_def endian_key_def
        keyword_endianness_def endianness_of_sri_def)
qed

text \<open>Merging the same upstream description a second time finds nothing to change, provided
  values compare equal to themselves and to their string form where a data reference is stored.\<close>

theorem merge_upstream_settles:
  assumes "mergeUpstreamSRI env sri up u ch sc e = (sri', u', ch', sc', e')"
    and "xstart up \<noteq> NaN" "ystart up \<noteq> NaN" "ydelta up \<noteq> NaN"
    and "\<forall>v. \<not> any_ne env v v"
    and "\<forall>(k, v) \<in> set (sri_keywords up). endian_key k \<longrightarrow>
           \<not> any_ne env (any_of_string env (any_to_string env v)) v"
  shows "mergeUpstreamSRI env sri' up u' False False e' = (sri', u', False, False, e')"
proof -
  have "compareSRI env sri' up"
    using assms(5,6) by (intro mergeUpstreamSRI_same [OF assms(1-4)]) auto
  then show ?thesis by (simp add: mergeUpstreamSRI_def)
qed

lemma merge_upstream_settles_witness:
  "(case mergeUpstreamSRI string_corba (string_sri ''a'' []) (string_sri ''b'' [(''dataRef'', ''43981'')])
      False False False BIG_ENDIAN_STR of (sri, u, ch, sc, e) \<Rightarrow>
    mergeUpstreamSRI string_corba sri (string_sri ''b'' [(''dataRef'', ''43981'')]) u False False e
      = (sri, u, False, False, e))"
proof -
  obtain sri u ch sc e where m: "mergeUpstreamSRI string_corba (string_sri ''a'' [])
      (string_sri ''b'' [(''dataRef'', ''43981'')]) False False False BIG_ENDIAN_STR
      = (sri, u, ch, sc, e)" by (metis prod_cases5)
  have "mergeUpstreamSRI string_corba sri (string_sri ''b'' [(''dataRef'', ''43981'')]) u False False e
      = (sri, u, False, False, e)"
    by (rule merge_upstream_settles [OF m]) (simp_all add: string_sri_def string_corba_def)
  then show ?thesis by (simp only: m prod.case)
qed

end
