(* ===== verification/Packet_Buffer.thy ===== *)
theory Packet_Buffer
  imports Sdds_Prelude
begin

text \<open>
  The class template \<open>SmartPacketBuffer\<close>: a deque of empty and a deque of full packet buffers
  shared by the socket reader thread and the processing thread. A buffer is a pointer (the
  shared pointer of the source); the contents live in a store that the two threads update.
  Each operation runs under one mutex and is one step here, the test of the flag before it included.
  A condition variable wait is the result None: the thread is blocked; how it sleeps and is woken is in
  \<open>Wake_Up\<close>. Slicing a container past its end, undefined in C++, is the fault \<open>OutOfRange\<close>.
\<close>

section \<open>State\<close>

type_synonym ptr = nat

record packet_buffer =
  buf_shuttingDown :: bool
  buf_empty :: "ptr list"
  buf_full :: "ptr list"

definition new_packet_buffer :: packet_buffer where
  "new_packet_buffer = \<lparr>buf_shuttingDown = False, buf_empty = [], buf_full = []\<rparr>"

section \<open>Operations\<close>

text \<open>
  \<open>initialize\<close> allocates \<open>capacity\<close> new packets. The allocator hands out the pointers from
  \<open>next\<close> on; the result holds the allocator's next pointer.
\<close>

definition initialize :: "nat \<Rightarrow> ptr \<Rightarrow> packet_buffer \<Rightarrow> ptr \<times> packet_buffer" where
  "initialize capacity next b =
     (next + capacity, b\<lparr>buf_shuttingDown := False, buf_empty := [next ..< next + capacity]\<rparr>)"

text \<open>\<open>shutDown\<close> raises the flag, then clears each deque under its own mutex.\<close>

definition shutDown_flag :: "packet_buffer \<Rightarrow> packet_buffer" where
  "shutDown_flag b = b\<lparr>buf_shuttingDown := True\<rparr>"

definition shutDown_full :: "packet_buffer \<Rightarrow> packet_buffer" where
  "shutDown_full b = b\<lparr>buf_full := []\<rparr>"

definition shutDown_empty :: "packet_buffer \<Rightarrow> packet_buffer" where
  "shutDown_empty b = b\<lparr>buf_empty := []\<rparr>"

definition shutDown_buffer :: "packet_buffer \<Rightarrow> packet_buffer" where
  "shutDown_buffer b = shutDown_empty (shutDown_full (shutDown_flag b))"

text \<open>The predicates of the condition variables, for one and for \<open>num\<close> buffers.\<close>

definition empties_available :: "nat \<Rightarrow> packet_buffer \<Rightarrow> bool" where
  "empties_available num b \<longleftrightarrow> num \<le> length (buf_empty b) \<or> buf_shuttingDown b"

definition full_available :: "nat \<Rightarrow> packet_buffer \<Rightarrow> bool" where
  "full_available num b \<longleftrightarrow> num \<le> length (buf_full b) \<or> buf_shuttingDown b"

text \<open>The single operations return a null pointer, None, when shutting down.\<close>

definition pop_empty_buffer :: "packet_buffer \<Rightarrow> (ptr option \<times> packet_buffer) option" where
  "pop_empty_buffer b =
     (if buf_shuttingDown b then Some (None, b)
      else if \<not> empties_available 1 b then None
      else Some (Some (hd (buf_empty b)), b\<lparr>buf_empty := tl (buf_empty b)\<rparr>))"

definition push_full_buffer :: "ptr \<Rightarrow> packet_buffer \<Rightarrow> packet_buffer" where
  "push_full_buffer p b =
     (if buf_shuttingDown b then b else b\<lparr>buf_full := buf_full b @ [p]\<rparr>)"

definition pop_full_buffer :: "packet_buffer \<Rightarrow> (ptr option \<times> packet_buffer) option" where
  "pop_full_buffer b =
     (if buf_shuttingDown b then Some (None, b)
      else if \<not> full_available 1 b then None
      else Some (Some (hd (buf_full b)), b\<lparr>buf_full := tl (buf_full b)\<rparr>))"

definition recycle_buffer :: "ptr \<Rightarrow> packet_buffer \<Rightarrow> packet_buffer" where
  "recycle_buffer p b =
     (if buf_shuttingDown b then b else b\<lparr>buf_empty := buf_empty b @ [p]\<rparr>)"

text \<open>New empty buffers go to the front of the caller's queue, full buffers to its end.\<close>

definition pop_empty_buffers ::
    "ptr list \<Rightarrow> nat \<Rightarrow> packet_buffer \<Rightarrow> (ptr list \<times> packet_buffer) option" where
  "pop_empty_buffers que len b =
     (if buf_shuttingDown b then Some (que, b)
      else if len \<le> length que then Some (que, b)
      else let request = len - length que in
        if \<not> empties_available request b then None
        else Some (take request (buf_empty b) @ que, b\<lparr>buf_empty := drop request (buf_empty b)\<rparr>))"

definition push_full_buffers ::
    "ptr list \<Rightarrow> nat \<Rightarrow> packet_buffer \<Rightarrow> (ptr list \<times> packet_buffer) result" where
  "push_full_buffers que num b =
     (if length que < num then Inl OutOfRange
      else if buf_shuttingDown b then Inr (drop num que, b)
      else Inr (drop num que, b\<lparr>buf_full := buf_full b @ take num que\<rparr>))"

definition pop_full_buffers ::
    "ptr list \<Rightarrow> nat \<Rightarrow> packet_buffer \<Rightarrow> (ptr list \<times> packet_buffer) option" where
  "pop_full_buffers que len b =
     (if buf_shuttingDown b then Some (que, b)
      else if len \<le> length que then Some (que, b)
      else let request = len - length que in
        if \<not> full_available request b then None
        else Some (que @ take request (buf_full b), b\<lparr>buf_full := drop request (buf_full b)\<rparr>))"

definition recycle_buffers :: "ptr list \<Rightarrow> packet_buffer \<Rightarrow> ptr list \<times> packet_buffer" where
  "recycle_buffers que b =
     (if buf_shuttingDown b then ([], b)
      else ([], b\<lparr>buf_empty := buf_empty b @ que\<rparr>))"

definition get_num_full_buffers :: "packet_buffer \<Rightarrow> nat" where
  "get_num_full_buffers b = length (buf_full b)"

definition get_num_empty_buffers :: "packet_buffer \<Rightarrow> nat" where
  "get_num_empty_buffers b = length (buf_empty b)"

section \<open>The contract the two threads rely on\<close>

text \<open>
  A pool of buffers keeps a multiset of buffers and a first-in first-out sequence of full ones.
  While it is not stopping, its operations only move buffers between the pool and the caller's
  queue.
\<close>

locale packet_pool =
  fixes stopping :: "'b \<Rightarrow> bool"
    and pooled :: "'b \<Rightarrow> 'p multiset"
    and fulls :: "'b \<Rightarrow> 'p list"
    and pop_empty :: "'p list \<Rightarrow> nat \<Rightarrow> 'b \<Rightarrow> ('p list \<times> 'b) option"
    and push_full :: "'p list \<Rightarrow> nat \<Rightarrow> 'b \<Rightarrow> ('p list \<times> 'b) result"
    and pop_full :: "'p list \<Rightarrow> nat \<Rightarrow> 'b \<Rightarrow> ('p list \<times> 'b) option"
    and recycle :: "'p list \<Rightarrow> 'b \<Rightarrow> 'p list \<times> 'b"
  assumes pop_empty_shape: "pop_empty q n b = Some (q', b') \<Longrightarrow> \<not> stopping b \<Longrightarrow>
      \<exists>new. q' = new @ q \<and> mset new + pooled b' = pooled b \<and> fulls b' = fulls b
        \<and> (length q \<le> n \<longrightarrow> length q' = n) \<and> \<not> stopping b'"
    and push_full_total: "k \<le> length q \<Longrightarrow> \<exists>b'. push_full q k b = Inr (drop k q, b')"
    and push_full_shape: "push_full q k b = Inr (q', b') \<Longrightarrow> \<not> stopping b \<Longrightarrow>
      k \<le> length q \<and> q' = drop k q \<and> pooled b' = pooled b + mset (take k q)
        \<and> fulls b' = fulls b @ take k q \<and> \<not> stopping b'"
    and pop_full_shape: "pop_full q n b = Some (q', b') \<Longrightarrow> \<not> stopping b \<Longrightarrow>
      \<exists>new. q' = q @ new \<and> fulls b = new @ fulls b' \<and> pooled b = mset new + pooled b'
        \<and> n \<le> length q' \<and> \<not> stopping b'"
    and recycle_shape: "recycle q b = (q', b') \<Longrightarrow> \<not> stopping b \<Longrightarrow>
      q' = [] \<and> pooled b' = pooled b + mset q \<and> fulls b' = fulls b \<and> \<not> stopping b'"
begin

text \<open>No operation loses or duplicates a buffer.\<close>

lemma pop_empty_conserves:
  assumes "pop_empty q n b = Some (q', b')" "\<not> stopping b"
  shows "mset q' + pooled b' = mset q + pooled b"
  using pop_empty_shape [OF assms] by (auto simp: ac_simps)

lemma push_full_conserves:
  assumes "push_full q k b = Inr (q', b')" "\<not> stopping b"
  shows "mset q' + pooled b' = mset q + pooled b"
  using push_full_shape [OF assms] mset_take_drop [of k q] by (auto simp: ac_simps)

lemma pop_full_conserves:
  assumes "pop_full q n b = Some (q', b')" "\<not> stopping b"
  shows "mset q' + pooled b' = mset q + pooled b"
  using pop_full_shape [OF assms] by (auto simp: ac_simps)

lemma recycle_conserves:
  assumes "recycle q b = (q', b')" "\<not> stopping b"
  shows "mset q' + pooled b' = mset q + pooled b"
  using recycle_shape [OF assms] by (auto simp: ac_simps)

text \<open>The order of the full buffers is kept from the producer's to the consumer's queue.\<close>

lemma pop_full_order:
  assumes "pop_full q n b = Some (q', b')" "\<not> stopping b"
  shows "q' @ fulls b' = q @ fulls b"
  using pop_full_shape [OF assms] by auto

lemma push_full_order:
  assumes "push_full q k b = Inr (q', b')" "\<not> stopping b"
  shows "fulls b' @ q' = fulls b @ q"
  using push_full_shape [OF assms] by auto

text \<open>
  Handing over the first \<open>k\<close> buffers of a queue of \<open>n\<close> and refilling it puts \<open>k\<close> new buffers
  at the front and leaves every other buffer at its position.
\<close>

lemma refill:
  assumes push: "push_full q k b = Inr (q1, b1)" and pop: "pop_empty q1 n b1 = Some (q2, b2)"
    and run: "\<not> stopping b" and len: "length q = n"
  shows "length q2 = n \<and> (\<forall>i. k \<le> i \<and> i < n \<longrightarrow> q2 ! i = q ! i)"
proof -
  from push_full_shape [OF push run] have k: "k \<le> n" "q1 = drop k q" "\<not> stopping b1"
    using len by auto
  from pop_empty_shape [OF pop k(3)] obtain new where new: "q2 = new @ q1" "length q2 = n"
    using len k(2) by auto
  with k len have "length new = k" by simp
  with new k len show ?thesis by (auto simp: nth_append)
qed

end

definition pooled_buffers :: "packet_buffer \<Rightarrow> ptr multiset" where
  "pooled_buffers b = mset (buf_empty b) + mset (buf_full b)"

lemmas buffer_ops = pop_empty_buffers_def push_full_buffers_def pop_full_buffers_def
  recycle_buffers_def empties_available_def full_available_def pooled_buffers_def Let_def

interpretation spb: packet_pool buf_shuttingDown pooled_buffers buf_full
  pop_empty_buffers push_full_buffers pop_full_buffers recycle_buffers
proof (unfold_locales, goal_cases)
  case (1 q n b q' b')
  then have "q' = take (n - length q) (buf_empty b) @ q"
    "mset (take (n - length q) (buf_empty b)) + pooled_buffers b' = pooled_buffers b"
    "buf_full b' = buf_full b" "length q \<le> n \<longrightarrow> length q' = n" "\<not> buf_shuttingDown b'"
    using mset_take_drop [of "n - length q" "buf_empty b"]
    by (auto simp: buffer_ops add.assoc [symmetric] split: if_splits)
  then show ?case by blast
next
  case (2 k q b)
  then show ?case by (auto simp: buffer_ops)
next
  case (3 q k b q' b')
  then show ?case by (auto simp: buffer_ops split: if_splits)
next
  case (4 q n b q' b')
  then have "q' = q @ take (n - length q) (buf_full b)"
    "buf_full b = take (n - length q) (buf_full b) @ buf_full b'"
    "pooled_buffers b = mset (take (n - length q) (buf_full b)) + pooled_buffers b'"
    "n \<le> length q'" "\<not> buf_shuttingDown b'"
    using mset_take_drop [of "n - length q" "buf_full b"]
    by (auto simp: buffer_ops ac_simps split: if_splits)
  then show ?case by blast
next
  case (5 q b q' b')
  then show ?case by (auto simp: buffer_ops)
qed

section \<open>Blocking and shutting down\<close>

text \<open>Once the flag is up no operation blocks and none puts a buffer into the pool.\<close>

lemma stopping_never_blocks:
  assumes "buf_shuttingDown b"
  shows "pop_empty_buffers q n b = Some (q, b)" "pop_full_buffers q n b = Some (q, b)"
    "pop_empty_buffer b = Some (None, b)" "pop_full_buffer b = Some (None, b)"
    "recycle_buffers q b = ([], b)" "k \<le> length q \<Longrightarrow> push_full_buffers q k b = Inr (drop k q, b)"
  using assms by (simp_all add: buffer_ops pop_empty_buffer_def pop_full_buffer_def)

text \<open>A pop blocks exactly when the pool is running and cannot serve the request.\<close>

lemma pop_empty_blocks_iff:
  "pop_empty_buffers q n b = None \<longleftrightarrow>
     \<not> buf_shuttingDown b \<and> length (buf_empty b) + length q < n"
  by (auto simp: buffer_ops)

lemma pop_full_blocks_iff:
  "pop_full_buffers q n b = None \<longleftrightarrow>
     \<not> buf_shuttingDown b \<and> length (buf_full b) + length q < n"
  by (auto simp: buffer_ops)

lemma shutDown_buffer_simps [simp]:
  "buf_shuttingDown (shutDown_buffer b)" "buf_empty (shutDown_buffer b) = []"
  "buf_full (shutDown_buffer b) = []" "pooled_buffers (shutDown_buffer b) = {#}"
  by (simp_all add: shutDown_buffer_def shutDown_flag_def shutDown_full_def shutDown_empty_def
      pooled_buffers_def)

lemma initialize_pooled:
  "initialize c n b = (n', b') \<Longrightarrow> buf_full b = [] \<Longrightarrow>
   pooled_buffers b' = mset [n ..< n + c] \<and> distinct (buf_empty b') \<and> length (buf_empty b') = c
     \<and> \<not> buf_shuttingDown b'"
  by (auto simp: initialize_def pooled_buffers_def)


section \<open>Properties\<close>

text \<open>C31: While the buffer is running, its four bulk operations only move packets between the
  pool and the caller's queue: the queue and the pool together hold the same packets, each as
  often as before.\<close>

theorem buffer_operations_conserve:
  assumes "\<not> buf_shuttingDown b"
  shows "(case pop_empty_buffers q n b of None \<Rightarrow> True
            | Some (q', b') \<Rightarrow> mset q' + pooled_buffers b' = mset q + pooled_buffers b)
     \<and> (case push_full_buffers q k b of Inl _ \<Rightarrow> length q < k
            | Inr (q', b') \<Rightarrow> mset q' + pooled_buffers b' = mset q + pooled_buffers b)
     \<and> (case pop_full_buffers q n b of None \<Rightarrow> True
            | Some (q', b') \<Rightarrow> mset q' + pooled_buffers b' = mset q + pooled_buffers b)
     \<and> (case recycle_buffers q b of
            (q', b') \<Rightarrow> q' = [] \<and> pooled_buffers b' = mset q + pooled_buffers b)"
proof (intro conjI)
  show "case pop_empty_buffers q n b of None \<Rightarrow> True
      | Some (q', b') \<Rightarrow> mset q' + pooled_buffers b' = mset q + pooled_buffers b"
    by (auto split: option.split simp: spb.pop_empty_conserves [OF _ assms])
  show "case push_full_buffers q k b of Inl _ \<Rightarrow> length q < k
      | Inr (q', b') \<Rightarrow> mset q' + pooled_buffers b' = mset q + pooled_buffers b"
    using assms mset_take_drop [of k q] by (auto simp: buffer_ops ac_simps)
  show "case pop_full_buffers q n b of None \<Rightarrow> True
      | Some (q', b') \<Rightarrow> mset q' + pooled_buffers b' = mset q + pooled_buffers b"
    by (auto split: option.split simp: spb.pop_full_conserves [OF _ assms])
  show "case recycle_buffers q b of
      (q', b') \<Rightarrow> q' = [] \<and> pooled_buffers b' = mset q + pooled_buffers b"
    using spb.recycle_shape [OF _ assms] by (auto split: prod.split simp: ac_simps)
qed

lemma buffer_operations_conserve_witness:
  "pop_full_buffers [9] 3 \<lparr>buf_shuttingDown = False, buf_empty = [1], buf_full = [2, 3, 4]\<rparr>
     = Some ([9, 2, 3], \<lparr>buf_shuttingDown = False, buf_empty = [1], buf_full = [4]\<rparr>)
   \<and> mset [9, 2, 3] + pooled_buffers \<lparr>buf_shuttingDown = False, buf_empty = [1], buf_full = [4]\<rparr>
     = mset [9] + pooled_buffers \<lparr>buf_shuttingDown = False, buf_empty = [1], buf_full = [2, 3, 4]\<rparr>"
  using buffer_operations_conserve
    [of "\<lparr>buf_shuttingDown = False, buf_empty = [1], buf_full = [2, 3, 4]\<rparr>" "[9]" 3 0]
  by (simp add: buffer_ops)

text \<open>First in, first out: what the producer pushes reaches the consumer in the order of
  the producer's queue, behind what was already waiting.\<close>

theorem buffer_fifo:
  assumes "\<not> buf_shuttingDown b" "k \<le> length q" "length q' \<le> n"
    "n \<le> length q' + length (buf_full b) + k"
  shows "\<exists>b1 b2 got. push_full_buffers q k b = Inr (drop k q, b1)
     \<and> pop_full_buffers q' n b1 = Some (q' @ got, b2)
     \<and> length (q' @ got) = n \<and> got @ buf_full b2 = buf_full b @ take k q"
proof -
  let ?b1 = "b\<lparr>buf_full := buf_full b @ take k q\<rparr>"
  have push: "push_full_buffers q k b = Inr (drop k q, ?b1)"
    using assms by (simp add: buffer_ops)
  have "pop_full_buffers q' n ?b1 \<noteq> None"
    using assms by (simp add: pop_full_blocks_iff)
  then obtain q2 b2 where pop: "pop_full_buffers q' n ?b1 = Some (q2, b2)" by auto
  have run: "\<not> buf_shuttingDown ?b1" using assms by simp
  obtain got where got: "q2 = q' @ got" "buf_full ?b1 = got @ buf_full b2"
    using spb.pop_full_shape [OF pop run] by blast
  have "length q2 = n"
    using pop assms by (auto simp: buffer_ops split: if_splits)
  with push pop got show ?thesis by auto
qed

lemma buffer_fifo_witness:
  "\<exists>b1 b2 got. push_full_buffers [5, 6, 7] 2
       \<lparr>buf_shuttingDown = False, buf_empty = [], buf_full = [4]\<rparr> = Inr ([7], b1)
     \<and> pop_full_buffers [] 2 b1 = Some ([] @ got, b2) \<and> length ([] @ got) = 2
     \<and> got @ buf_full b2 = [4, 5, 6]"
  using buffer_fifo [of "\<lparr>buf_shuttingDown = False, buf_empty = [], buf_full = [4]\<rparr>" 2 "[5, 6, 7]" "[]" 2]
  by simp

text \<open>A bulk pop blocks exactly when the buffer is running and holds too few packets; after
  \<open>shutDown\<close> neither a pop nor any other operation blocks, and none puts a packet back.\<close>

theorem blocks_only_while_running:
  "(pop_empty_buffers q n b = None \<longleftrightarrow>
      \<not> buf_shuttingDown b \<and> length (buf_empty b) + length q < n)
   \<and> (pop_full_buffers q n b = None \<longleftrightarrow>
      \<not> buf_shuttingDown b \<and> length (buf_full b) + length q < n)
   \<and> pop_empty_buffers q n (shutDown_buffer b) = Some (q, shutDown_buffer b)
   \<and> pop_full_buffers q n (shutDown_buffer b) = Some (q, shutDown_buffer b)
   \<and> recycle_buffers q (shutDown_buffer b) = ([], shutDown_buffer b)
   \<and> pooled_buffers (shutDown_buffer b) = {#}"
  by (simp add: pop_empty_blocks_iff pop_full_blocks_iff stopping_never_blocks)

end
