(* ===== verification/C_Strings.thy ===== *)
theory C_Strings
  imports Sdds_Prelude
begin

text \<open>
  The functions of the C and C++ standard library on strings that the program uses: character
  classes, \<open>atol\<close>, \<open>strstr\<close>, reading white space separated words, and reading and printing
  unsigned numbers in hexadecimal.
\<close>

section \<open>Characters and decimal numbers\<close>

definition c_isspace :: "char \<Rightarrow> bool" where
  "c_isspace c \<longleftrightarrow> of_char c = (32 :: nat) \<or> 9 \<le> (of_char c :: nat) \<and> of_char c \<le> (13 :: nat)"

definition c_isdigit :: "char \<Rightarrow> bool" where
  "c_isdigit c \<longleftrightarrow> 48 \<le> (of_char c :: nat) \<and> of_char c \<le> (57 :: nat)"

fun digits_value :: "int \<Rightarrow> string \<Rightarrow> int" where
  "digits_value n [] = n"
| "digits_value n (c # cs) = (if c_isdigit c then digits_value (10 * n + (of_char c - 48)) cs else n)"

text \<open>\<open>atol\<close>: white space, an optional sign, digits up to the first other character.\<close>

definition atol :: "string \<Rightarrow> int" where
  "atol s = (case dropWhile c_isspace s of
       [] \<Rightarrow> 0
     | c # cs \<Rightarrow> if c = CHR ''-'' then - digits_value 0 cs
         else if c = CHR ''+'' then digits_value 0 cs else digits_value 0 (c # cs))"

text \<open>Printing in decimal.\<close>

definition digit :: "nat \<Rightarrow> char" where
  "digit n = char_of (48 + n)"

fun decimal :: "nat \<Rightarrow> string" where
  "decimal n = (if n < 10 then [digit n] else decimal (n div 10) @ [digit (n mod 10)])"

declare decimal.simps [simp del]

section \<open>Searching and splitting\<close>

text \<open>The text from the first occurrence of a pattern on.\<close>

fun is_prefix :: "string \<Rightarrow> string \<Rightarrow> bool" where
  "is_prefix [] t = True"
| "is_prefix (a # p) [] = False"
| "is_prefix (a # p) (b # t) \<longleftrightarrow> a = b \<and> is_prefix p t"

fun strstr :: "string \<Rightarrow> string \<Rightarrow> string option" where
  "strstr [] p = (if p = [] then Some [] else None)"
| "strstr (c # t) p = (if is_prefix p (c # t) then Some (c # t) else strstr t p)"

lemma strstr_shorter: "strstr t p = Some m \<Longrightarrow> length m \<le> length t"
  by (induction t p rule: strstr.induct) (auto split: if_splits)

lemma strstr_prefix: "strstr t p = Some m \<Longrightarrow> is_prefix p m"
  by (induction t p rule: strstr.induct) (auto split: if_splits)

text \<open>The word \<open>%s\<close> reads and the rest of the text.\<close>

definition next_word :: "string \<Rightarrow> string \<times> string" where
  "next_word t = (let t = dropWhile c_isspace t
     in (takeWhile (\<lambda>c. \<not> c_isspace c) t, dropWhile (\<lambda>c. \<not> c_isspace c) t))"

fun nth_word :: "nat \<Rightarrow> string \<Rightarrow> string" where
  "nth_word 0 t = fst (next_word t)"
| "nth_word (Suc n) t = nth_word n (snd (next_word t))"

section \<open>Hexadecimal numbers\<close>

text \<open>The value of a hexadecimal digit, upper or lower case; None for other characters.\<close>

definition xdigit_value :: "char \<Rightarrow> nat option" where
  "xdigit_value c = (let n = of_char c :: nat in
     if 48 \<le> n \<and> n \<le> 57 then Some (n - 48)
     else if 65 \<le> n \<and> n \<le> 70 then Some (n - 55)
     else if 97 \<le> n \<and> n \<le> 102 then Some (n - 87) else None)"

definition c_isxdigit :: "char \<Rightarrow> bool" where
  "c_isxdigit c \<longleftrightarrow> xdigit_value c \<noteq> None"

definition xdigits_value :: "string \<Rightarrow> nat" where
  "xdigits_value s = foldl (\<lambda>n c. 16 * n + (case xdigit_value c of Some d \<Rightarrow> d | None \<Rightarrow> 0)) 0 s"

text \<open>Printing in upper case, without leading zeros.\<close>

definition xdigit :: "nat \<Rightarrow> char" where
  "xdigit n = (if n < 10 then char_of (48 + n) else char_of (55 + n))"

fun hex_upper :: "nat \<Rightarrow> string" where
  "hex_upper n = (if n < 16 then [xdigit n] else hex_upper (n div 16) @ [xdigit (n mod 16)])"

declare hex_upper.simps [simp del]

lemma xdigit_value_xdigit:
  assumes "n < 16"
  shows "xdigit_value (xdigit n) = Some n"
proof (cases "n < 10")
  case True
  then have "of_char (char_of (48 + n) :: char) = 48 + n" by (simp add: of_char_of)
  with True show ?thesis by (simp add: xdigit_value_def xdigit_def)
next
  case False
  then have "of_char (char_of (55 + n) :: char) = 55 + n" using assms by (simp add: of_char_of)
  with False assms show ?thesis by (simp add: xdigit_value_def xdigit_def)
qed

lemma hex_upper_value: "xdigits_value (hex_upper n) = n"
proof (induction n rule: hex_upper.induct)
  case (1 n)
  show ?case
  proof (cases "n < 16")
    case True
    then show ?thesis
      by (simp add: hex_upper.simps [of n] xdigits_value_def xdigit_value_xdigit)
  next
    case False
    have "xdigit_value (xdigit (n mod 16)) = Some (n mod 16)" by (rule xdigit_value_xdigit) simp
    then show ?thesis
      using 1 False by (simp add: hex_upper.simps [of n] xdigits_value_def)
  qed
qed

lemma hex_upper_xdigits: "list_all c_isxdigit (hex_upper n)"
proof (induction n rule: hex_upper.induct)
  case (1 n)
  have "c_isxdigit (xdigit (n mod 16))" by (simp add: c_isxdigit_def xdigit_value_xdigit)
  moreover have "n < 16 \<Longrightarrow> c_isxdigit (xdigit n)" by (simp add: c_isxdigit_def xdigit_value_xdigit)
  ultimately show ?case using 1 by (simp add: hex_upper.simps [of n])
qed

lemma hex_upper_nonempty [simp]: "hex_upper n \<noteq> []"
  by (simp add: hex_upper.simps [of n])

end
