(* ===== verification/Sdds_Processor.thy ===== *)
theory Sdds_Processor
  imports Bulkio_Utils Packet_Buffer C_Strings
begin

text \<open>
  The class \<open>SddsToBulkIOProcessor\<close>: the processing thread's state and its operations. The
  output ports and streams are BulkIO objects; a call on them is an entry of \<open>m_calls\<close>, the
  history of what the processor hands to BulkIO, and a stream handle is a flag that says
  whether it holds an open stream. Packets live in a store from pointers to packets, because
  the byte swaps write into the buffer itself. Logging is left out.
\<close>

section \<open>The surroundings\<close>

datatype port = OctetPort | ShortPort | FloatPort

datatype 'a call =
    CreateStream port "'a StreamSRI"
  | SetBufferSize port u64
  | CloseStream port
  | FlushStream port
  | SetSri port "'a StreamSRI"
  | WriteOctet "u8 list" PrecisionUTCTime
  | WriteShort "u16 list" PrecisionUTCTime
  | WriteFloat "u32 list" PrecisionUTCTime

text \<open>
  What the processor gets from outside: CORBA and framework functions, the readings of the
  clock in the order they are taken, \<open>timezone\<close>, \<open>omniORB::giopMaxMsgSize()\<close>, and whether a
  stream handle still tests as true after \<open>close\<close>.
\<close>

record 'a platform =
  pf_corba :: "'a corba"
  pf_clock :: "nat \<Rightarrow> int"
  pf_timezone :: int
  pf_giopMaxMsgSize :: u64
  pf_closed_valid :: bool

section \<open>The members\<close>

record 'a processor =
  m_pkts_per_read :: u64
  m_running :: bool
  m_shuttingDown :: bool
  m_wait_for_ttv :: bool
  m_push_on_ttv :: bool
  m_first_packet :: bool
  m_current_ttv_flag :: bool
  m_expected_seq_number :: u16
  m_bulkIO_capacity :: u64
  m_last_sdds_time :: SDDSTime
  m_pkts_dropped :: u64
  m_start_of_year :: int
  m_bps :: u16
  m_sri :: "'a StreamSRI"
  m_bulkio_time_stamp :: PrecisionUTCTime
  m_upstream_sri :: "'a StreamSRI"
  m_upstream_sri_set :: bool
  m_endianness :: string
  m_new_upstream_sri :: bool
  m_use_upstream_sri :: bool
  m_num_time_slips :: u64
  m_current_sample_rate :: dbl
  m_max_time_step :: dbl
  m_min_time_step :: dbl
  m_ideal_time_step :: dbl
  m_time_error_accum :: dbl
  m_accum_error_tolerance :: dbl
  m_non_conforming_device :: bool
  octetStream :: bool
  shortStream :: bool
  floatStream :: bool
  m_calls :: "'a call list"
  m_clock_reads :: nat

definition SDDS_DATA_SIZE :: u64 where "SDDS_DATA_SIZE = 1024"
definition DEFAULT_PKTS_PER_READ :: u64 where "DEFAULT_PKTS_PER_READ = 500"

definition CORBA_MAX_XFER_BYTES :: "'a platform \<Rightarrow> u64" where
  "CORBA_MAX_XFER_BYTES P = pf_giopMaxMsgSize P - 2048"

definition reserve :: "u64 \<Rightarrow> 'a processor \<Rightarrow> 'a processor" where
  "reserve n st = st\<lparr>m_bulkIO_capacity := max (m_bulkIO_capacity st) n\<rparr>"

definition initial_sri :: "'a StreamSRI" where
  "initial_sri = \<lparr>hversion = 0, xstart = Fin 0, xdelta = Fin (- 1), xunits = 0, subsize = 0,
     ystart = Fin 0, ydelta = Fin 0, yunits = 0, sri_mode = - 1,
     streamID = ''DEFAULT_SDDS_STREAM_ID'', blocking = False, sri_keywords = []\<rparr>"

text \<open>
  The constructor. The two members it does not initialize, the upstream SRI and the time
  stamp, are arguments; neither is read before it is written.
\<close>

definition new_processor :: "'a platform \<Rightarrow> 'a StreamSRI \<Rightarrow> PrecisionUTCTime \<Rightarrow> 'a processor" where
  "new_processor P up T = reserve (DEFAULT_PKTS_PER_READ * SDDS_DATA_SIZE)
     \<lparr>m_pkts_per_read = DEFAULT_PKTS_PER_READ, m_running = False, m_shuttingDown = False,
      m_wait_for_ttv = False, m_push_on_ttv = False, m_first_packet = True,
      m_current_ttv_flag = False, m_expected_seq_number = 0, m_bulkIO_capacity = 0,
      m_last_sdds_time = time_zero, m_pkts_dropped = 0,
      m_start_of_year = getStartOfYear (pf_timezone P) (pf_clock P 0), m_bps = 0,
      m_sri = initial_sri, m_bulkio_time_stamp = T, m_upstream_sri = up,
      m_upstream_sri_set = False, m_endianness = ENDIAN_DEFAULT, m_new_upstream_sri = False,
      m_use_upstream_sri = False, m_num_time_slips = 0, m_current_sample_rate = Fin 0,
      m_max_time_step = Fin 0, m_min_time_step = Fin 0, m_ideal_time_step = Fin 0,
      m_time_error_accum = Fin 0, m_accum_error_tolerance = rnd (1 / 10 ^ 6),
      m_non_conforming_device = False, octetStream = False, shortStream = False,
      floatStream = False, m_calls = [], m_clock_reads = 1\<rparr>"

section \<open>Settings and getters\<close>

definition setPktsPerRead :: "'a platform \<Rightarrow> u64 \<Rightarrow> 'a processor \<Rightarrow> 'a processor" where
  "setPktsPerRead P pkts_per_read st =
     (if m_running st then st
      else let st = (if CORBA_MAX_XFER_BYTES P < pkts_per_read * SDDS_DATA_SIZE
             then st\<lparr>m_pkts_per_read := CORBA_MAX_XFER_BYTES P div SDDS_DATA_SIZE\<rparr>
             else st\<lparr>m_pkts_per_read := pkts_per_read\<rparr>)
        in reserve (m_pkts_per_read st * SDDS_DATA_SIZE) st)"

definition shutDown :: "'a processor \<Rightarrow> 'a processor" where
  "shutDown st = st\<lparr>m_shuttingDown := True, m_running := False\<rparr>"

definition setWaitForTTV :: "bool \<Rightarrow> 'a processor \<Rightarrow> 'a processor" where
  "setWaitForTTV w st = (if m_running st then st else st\<lparr>m_wait_for_ttv := w\<rparr>)"

definition setPushOnTTV :: "bool \<Rightarrow> 'a processor \<Rightarrow> 'a processor" where
  "setPushOnTTV w st = (if m_running st then st else st\<lparr>m_push_on_ttv := w\<rparr>)"

definition setUpstreamSri :: "'a StreamSRI \<Rightarrow> 'a processor \<Rightarrow> 'a processor" where
  "setUpstreamSri up st =
     st\<lparr>m_upstream_sri := up, m_upstream_sri_set := True, m_new_upstream_sri := True\<rparr>"

definition unsetUpstreamSri :: "'a processor \<Rightarrow> 'a processor" where
  "unsetUpstreamSri st = st\<lparr>m_use_upstream_sri := False, m_upstream_sri_set := False,
     m_endianness := ENDIAN_DEFAULT,
     m_sri := (m_sri st)\<lparr>streamID := ''DEFAULT_SDDS_STREAM_ID''\<rparr>\<rparr>"

definition setEndianness :: "string \<Rightarrow> 'a processor \<Rightarrow> 'a processor" where
  "setEndianness endianness st =
     (if m_running st then st
      else if endianness \<noteq> BIG_ENDIAN_STR \<and> endianness \<noteq> LITTLE_ENDIAN_STR then st
      else st\<lparr>m_endianness := endianness\<rparr>)"

definition getPktsPerRead :: "'a processor \<Rightarrow> u64" where "getPktsPerRead = m_pkts_per_read"
definition getPushOnTTV :: "'a processor \<Rightarrow> bool" where "getPushOnTTV = m_push_on_ttv"
definition getWaitOnTTV :: "'a processor \<Rightarrow> bool" where "getWaitOnTTV = m_wait_for_ttv"
definition getBps_processor :: "'a processor \<Rightarrow> u16" where "getBps_processor = m_bps"
definition getNumDropped :: "'a processor \<Rightarrow> u64" where "getNumDropped = m_pkts_dropped"

definition getExpectedSequenceNumber :: "'a processor \<Rightarrow> u16" where
  "getExpectedSequenceNumber = m_expected_seq_number"

definition getStreamId :: "'a processor \<Rightarrow> string" where "getStreamId st = streamID (m_sri st)"
definition getSampleRate :: "'a processor \<Rightarrow> dbl" where "getSampleRate = m_current_sample_rate"
definition getEndianness :: "'a processor \<Rightarrow> string" where "getEndianness = m_endianness"
definition getTimeSlips :: "'a processor \<Rightarrow> int" where "getTimeSlips st = sint (m_num_time_slips st)"

section \<open>Calls on the streams\<close>

fun stream_open :: "port \<Rightarrow> 'a processor \<Rightarrow> bool" where
  "stream_open OctetPort st = octetStream st"
| "stream_open ShortPort st = shortStream st"
| "stream_open FloatPort st = floatStream st"

fun set_stream :: "port \<Rightarrow> bool \<Rightarrow> 'a processor \<Rightarrow> 'a processor" where
  "set_stream OctetPort v st = st\<lparr>octetStream := v\<rparr>"
| "set_stream ShortPort v st = st\<lparr>shortStream := v\<rparr>"
| "set_stream FloatPort v st = st\<lparr>floatStream := v\<rparr>"

definition call_on :: "port \<Rightarrow> 'a call \<Rightarrow> 'a processor \<Rightarrow> 'a processor result" where
  "call_on p c st =
     (if stream_open p st then Inr (st\<lparr>m_calls := m_calls st @ [c]\<rparr>) else Inl NullStream)"

definition flush_streams :: "'a processor \<Rightarrow> 'a processor result" where
  "flush_streams st =
     (if octetStream st then
        bind_result (call_on OctetPort (FlushStream OctetPort) st) (\<lambda>st.
        bind_result (call_on ShortPort (FlushStream ShortPort) st) (\<lambda>st.
        call_on FloatPort (FlushStream FloatPort) st))
      else Inr st)"

definition close_stream :: "'a platform \<Rightarrow> port \<Rightarrow> 'a processor \<Rightarrow> 'a processor" where
  "close_stream P p st =
     (if stream_open p st
      then set_stream p (pf_closed_valid P) (st\<lparr>m_calls := m_calls st @ [CloseStream p]\<rparr>)
      else st)"

definition close_streams :: "'a platform \<Rightarrow> 'a processor \<Rightarrow> 'a processor" where
  "close_streams P st = close_stream P FloatPort (close_stream P ShortPort (close_stream P OctetPort st))"

definition create_stream :: "port \<Rightarrow> 'a processor \<Rightarrow> 'a processor" where
  "create_stream p st =
     set_stream p True (st\<lparr>m_calls := m_calls st @ [CreateStream p (m_sri st)]\<rparr>)"

definition createOutputStreams :: "'a platform \<Rightarrow> 'a processor \<Rightarrow> 'a processor result" where
  "createOutputStreams P st = (let
     st = close_streams P st;
     st = create_stream FloatPort (create_stream ShortPort (create_stream OctetPort st));
     n = m_pkts_per_read st * 1024
     in bind_result (call_on OctetPort (SetBufferSize OctetPort n) st) (\<lambda>st.
        bind_result (call_on ShortPort (SetBufferSize ShortPort (n div 2)) st) (\<lambda>st.
        call_on FloatPort (SetBufferSize FloatPort (n div 4)) st)))"

definition pushSri :: "'a processor \<Rightarrow> 'a processor result" where
  "pushSri st =
     (if m_bps st = 8 then call_on OctetPort (SetSri OctetPort (m_sri st)) st
      else if m_bps st = 16 then call_on ShortPort (SetSri ShortPort (m_sri st)) st
      else if m_bps st = 32 then call_on FloatPort (SetSri FloatPort (m_sri st)) st
      else Inr st)"

section \<open>Sequence numbers and time slips\<close>

definition updateExpectedXdelta :: "dbl \<Rightarrow> bool \<Rightarrow> 'a processor \<Rightarrow> 'a processor result" where
  "updateExpectedXdelta rate cplx st = (let st = st\<lparr>m_current_sample_rate := rate\<rparr> in
     if m_bps st = 0 then Inr st
     else if m_bps st div 8 = 0 then Inl DivideByZero
     else let samps_per_packet = 1024 div uint (m_bps st div 8);
       samps_per_packet = (if cplx then samps_per_packet div 2 else samps_per_packet)
       in Inr (st\<lparr>m_max_time_step := ddiv (dbl_of_int (samps_per_packet + 1)) rate,
            m_ideal_time_step := ddiv (dbl_of_int samps_per_packet) rate,
            m_min_time_step := ddiv (dbl_of_int (samps_per_packet - 1)) rate\<rparr>))"

text \<open>The rate handed to \<open>updateExpectedXdelta\<close>: doubled for devices known not to conform.\<close>

definition expected_rate :: "'a processor \<Rightarrow> SDDSpacket \<Rightarrow> dbl" where
  "expected_rate st pkt =
     (if m_non_conforming_device st then dmul (get_rate pkt) (Fin 2) else get_rate pkt)"

definition orderIsValid :: "SDDSpacket \<Rightarrow> 'a processor \<Rightarrow> (bool \<times> 'a processor) result" where
  "orderIsValid pkt st =
     (if m_first_packet st then
        (let st = st\<lparr>m_first_packet := False, m_current_ttv_flag := (get_ttv pkt \<noteq> 0),
             m_expected_seq_number := get_seq pkt, m_bps := getBps pkt,
             m_last_sdds_time := time_zero\<rparr>
         in bind_result (updateExpectedXdelta (expected_rate st pkt) (pkt_cx pkt) st)
              (\<lambda>st. Inr (True, st)))
      else if m_expected_seq_number st \<noteq> get_seq pkt then
        (let numDropped = get_seq pkt - m_expected_seq_number st
         in Inr (False, st\<lparr>m_pkts_dropped := m_pkts_dropped st + ucast numDropped,
              m_first_packet := True\<rparr>))
      else Inr (True, st))"

text \<open>
  \<open>checkForTimeSlip\<close> in three steps: the test of one time step, with the special case of a device
  that does not conform; the accumulated error; the counter.
\<close>

definition step_out_of_range :: "dbl \<Rightarrow> 'a processor \<Rightarrow> bool" where
  "step_out_of_range deltaTime st \<longleftrightarrow>
     dless (m_max_time_step st) deltaTime \<or> dless deltaTime (m_min_time_step st)"

definition looks_non_conforming :: "dbl \<Rightarrow> SDDSpacket \<Rightarrow> 'a processor \<Rightarrow> bool" where
  "looks_non_conforming deltaTime pkt st \<longleftrightarrow>
     \<not> m_non_conforming_device st \<and> pkt_cx pkt \<and> m_num_time_slips st = 0
     \<and> dless (dmul (Fin 2) deltaTime) (m_max_time_step st)
     \<and> dless (m_min_time_step st) (dmul (Fin 2) deltaTime)"

definition check_time_step ::
    "dbl \<Rightarrow> SDDSpacket \<Rightarrow> 'a processor \<Rightarrow> (bool \<times> 'a processor) result" where
  "check_time_step deltaTime pkt st =
     (if \<not> step_out_of_range deltaTime st then Inr (False, st)
      else if looks_non_conforming deltaTime pkt st then
        (let st = st\<lparr>m_non_conforming_device := True\<rparr>
         in bind_result (updateExpectedXdelta (dmul (Fin 2) (m_current_sample_rate st)) (pkt_cx pkt) st)
              (\<lambda>st. Inr (False, st)))
      else Inr (True, st))"

definition accumulate_error :: "dbl \<Rightarrow> bool \<Rightarrow> 'a processor \<Rightarrow> bool \<times> 'a processor" where
  "accumulate_error deltaTime slip st = (let
     st = st\<lparr>m_time_error_accum := dadd (m_time_error_accum st) (dsub deltaTime (m_ideal_time_step st))\<rparr>
     in if dless (m_accum_error_tolerance st) (dabs (m_time_error_accum st))
        then (True, st\<lparr>m_time_error_accum := Fin 0\<rparr>) else (slip, st))"

definition checkForTimeSlip :: "SDDSpacket \<Rightarrow> 'a processor \<Rightarrow> 'a processor result" where
  "checkForTimeSlip pkt st =
     (if get_ttv pkt = 0 then Inr st
      else if time_eq (m_last_sdds_time st) time_zero
      then Inr (st\<lparr>m_last_sdds_time := get_SDDSTime pkt\<rparr>)
      else let curr_time = get_SDDSTime pkt;
        deltaTime = dsub (seconds curr_time) (seconds (m_last_sdds_time st));
        st = st\<lparr>m_last_sdds_time := curr_time\<rparr>
        in if dless deltaTime (Fin 0) then Inr st
           else bind_result (check_time_step deltaTime pkt st) (\<lambda>(slip, st).
             let (slip, st) = accumulate_error deltaTime slip st
             in Inr (if slip then st\<lparr>m_num_time_slips := m_num_time_slips st + 1\<rparr> else st)))"

section \<open>The sample data\<close>

definition BYTE_ORDER :: int where "BYTE_ORDER = 1234"   \<comment> \<open>a little endian host\<close>

text \<open>\<open>swab\<close> on the data, the loop of \<open>__builtin_bswap32\<close>, and the two pointer casts.\<close>

fun swab :: "u8 list \<Rightarrow> u8 list" where
  "swab (a # b # r) = b # a # swab r"
| "swab xs = xs"

fun bswap32_words :: "u8 list \<Rightarrow> u8 list" where
  "bswap32_words (a # b # c # d # r) = d # c # b # a # bswap32_words r"
| "bswap32_words xs = xs"

fun as_shorts :: "u8 list \<Rightarrow> u16 list" where
  "as_shorts (a # b # r) = le_load [a, b] # as_shorts r"
| "as_shorts xs = []"

fun as_floats :: "u8 list \<Rightarrow> u32 list" where
  "as_floats (a # b # c # d # r) = le_load [a, b, c, d] # as_floats r"
| "as_floats xs = []"

definition swap_data :: "(u8 list \<Rightarrow> u8 list) \<Rightarrow> 'a processor \<Rightarrow> ptr \<Rightarrow> store \<Rightarrow> store" where
  "swap_data f st p mem =
     (if atol (m_endianness st) \<noteq> BYTE_ORDER then mem(p := (mem p)\<lparr>pkt_d := f (pkt_d (mem p))\<rparr>) else mem)"

text \<open>The switch over the bits per sample that hands one packet's data to its stream.\<close>

definition write_packet :: "ptr \<Rightarrow> store \<Rightarrow> 'a processor \<Rightarrow> (store \<times> 'a processor) result" where
  "write_packet p mem st =
     (if m_bps st = 8 then
        bind_result (call_on OctetPort (WriteOctet (pkt_d (mem p)) (m_bulkio_time_stamp st)) st)
          (\<lambda>st. Inr (mem, st))
      else if m_bps st = 16 then
        (let mem = swap_data swab st p mem
         in bind_result (call_on ShortPort
              (WriteShort (as_shorts (pkt_d (mem p))) (m_bulkio_time_stamp st)) st) (\<lambda>st. Inr (mem, st)))
      else if m_bps st = 32 then
        (let mem = swap_data bswap32_words st p mem
         in bind_result (call_on FloatPort
              (WriteFloat (as_floats (pkt_d (mem p))) (m_bulkio_time_stamp st)) st) (\<lambda>st. Inr (mem, st)))
      else Inr (mem, st))"

section \<open>Processing packets\<close>

text \<open>The locked section: a new upstream SRI is merged; the result says whether the SRI changed.\<close>

definition take_upstream_sri :: "'a platform \<Rightarrow> 'a processor \<Rightarrow> (bool \<times> 'a processor) result" where
  "take_upstream_sri P st =
     (if m_upstream_sri_set st \<and> m_new_upstream_sri st then
        (let st = st\<lparr>m_new_upstream_sri := False\<rparr>;
           (sri, use, sriChanged, streamIDChanged, endianness) =
             mergeUpstreamSRI (pf_corba P) (m_sri st) (m_upstream_sri st) (m_use_upstream_sri st)
               False False (m_endianness st);
           st = st\<lparr>m_sri := sri, m_use_upstream_sri := use, m_endianness := endianness\<rparr>
         in if streamIDChanged
            then bind_result (createOutputStreams P st) (\<lambda>st. Inr (sriChanged, st))
            else Inr (sriChanged, st))
      else Inr (False, st))"

definition merge_packet_sri :: "SDDSpacket \<Rightarrow> bool \<Rightarrow> 'a processor \<Rightarrow> bool \<times> 'a processor" where
  "merge_packet_sri pkt sriChanged st =
     (if m_use_upstream_sri st then (sriChanged, st)
      else let (sri, sriChanged) =
          mergeSddsSRI pkt (m_sri st) sriChanged (m_non_conforming_device st)
        in (sriChanged, st\<lparr>m_sri := sri\<rparr>))"

definition stamp_packet :: "'a platform \<Rightarrow> SDDSpacket \<Rightarrow> 'a processor \<Rightarrow> 'a processor" where
  "stamp_packet P pkt st = (let (T, soy) =
     getBulkIOTimeStamp (pf_timezone P) (pf_clock P (m_clock_reads st)) pkt (m_last_sdds_time st)
       (m_start_of_year st)
     in st\<lparr>m_bulkio_time_stamp := T, m_start_of_year := soy,
          m_clock_reads := m_clock_reads st + 1\<rparr>)"

text \<open>The sequence counter skips the number of the checksum packet after every 31 packets.\<close>

definition next_seq :: "u16 \<Rightarrow> u16" where
  "next_seq n = (let n = n + 1 in if n \<noteq> 0 \<and> n mod 32 = 31 then n + 1 else n)"

definition count_packet :: "'a processor \<Rightarrow> 'a processor" where
  "count_packet st = st\<lparr>m_expected_seq_number := next_seq (m_expected_seq_number st)\<rparr>"

text \<open>
  One turn of the loop for the packet at the head of \<open>pktsToWork\<close>. \<open>Recycle\<close>: the packet moves
  to \<open>pktsToRecycle\<close> and the loop goes on. \<open>Refill\<close>: the function returns and the packet stays.
\<close>

datatype outcome = Recycle | Refill

definition push_packet ::
    "'a platform \<Rightarrow> ptr \<Rightarrow> store \<Rightarrow> 'a processor \<Rightarrow> (outcome \<times> store \<times> 'a processor) result" where
  "push_packet P p mem st =
     bind_result (checkForTimeSlip (mem p) (stamp_packet P (mem p) st)) (\<lambda>st.
     bind_result (write_packet p mem st) (\<lambda>(mem, st).
     Inr (Recycle, mem, count_packet st)))"

definition sri_and_push ::
    "'a platform \<Rightarrow> ptr \<Rightarrow> store \<Rightarrow> 'a processor \<Rightarrow> (outcome \<times> store \<times> 'a processor) result" where
  "sri_and_push P p mem st =
     bind_result (take_upstream_sri P st) (\<lambda>(sriChanged, st).
     let (sriChanged, st) = merge_packet_sri (mem p) sriChanged st in
     bind_result (if octetStream st then Inr st else createOutputStreams P st) (\<lambda>st.
     if sriChanged then
       bind_result (pushSri st) (\<lambda>st.
       bind_result (updateExpectedXdelta (expected_rate st (mem p)) (pkt_cx (mem p)) st) (\<lambda>st.
       Inr (Refill, mem, st\<lparr>m_last_sdds_time := time_zero\<rparr>)))
     else push_packet P p mem st))"

definition process_packet ::
    "'a platform \<Rightarrow> ptr \<Rightarrow> store \<Rightarrow> 'a processor \<Rightarrow> (outcome \<times> store \<times> 'a processor) result" where
  "process_packet P p mem st = (let ttv = (get_ttv (mem p) \<noteq> 0) in
     if m_wait_for_ttv st \<and> \<not> ttv then
       bind_result (flush_streams st) (\<lambda>st. Inr (Recycle, mem, st))
     else bind_result (orderIsValid (mem p) st) (\<lambda>(valid, st).
       if \<not> valid then
         bind_result (flush_streams st) (\<lambda>st. Inr (Refill, mem, st\<lparr>m_first_packet := True\<rparr>))
       else if m_push_on_ttv st \<and> m_current_ttv_flag st \<noteq> ttv then
         bind_result (flush_streams (st\<lparr>m_current_ttv_flag := ttv\<rparr>)) (\<lambda>st. Inr (Refill, mem, st))
       else sri_and_push P p mem st))"

fun processPackets ::
    "'a platform \<Rightarrow> store \<Rightarrow> 'a processor \<Rightarrow> ptr list \<Rightarrow> ptr list
      \<Rightarrow> (store \<times> 'a processor \<times> ptr list \<times> ptr list) result" where
  "processPackets P mem st [] pktsToRecycle = Inr (mem, st, [], pktsToRecycle)"
| "processPackets P mem st (p # pktsToWork) pktsToRecycle =
     bind_result (process_packet P p mem st) (\<lambda>(out, mem, st).
     if out = Refill then Inr (mem, st, p # pktsToWork, pktsToRecycle)
     else processPackets P mem st pktsToWork (pktsToRecycle @ [p]))"

section \<open>The thread\<close>

text \<open>
  \<open>run\<close>: its first lines, one turn of its loop (None while \<open>pop_full_buffers\<close> blocks) and what
  follows the loop.
\<close>

definition run_begin :: "'a processor \<Rightarrow> 'a processor" where
  "run_begin st = st\<lparr>m_running := True, m_shuttingDown := False\<rparr>"

definition run_turn ::
    "'a platform \<Rightarrow> store \<Rightarrow> 'a processor \<Rightarrow> packet_buffer \<Rightarrow> ptr list \<Rightarrow> ptr list
      \<Rightarrow> (store \<times> 'a processor \<times> packet_buffer \<times> ptr list \<times> ptr list) result option" where
  "run_turn P mem st buf toProcess toRecycle =
     (case pop_full_buffers toProcess (unat (m_pkts_per_read st)) buf of
        None \<Rightarrow> None
      | Some (toProcess, buf) \<Rightarrow> Some (
          bind_result
            (if \<not> m_shuttingDown st then processPackets P mem st toProcess toRecycle
             else Inr (mem, st, toProcess, toRecycle)) (\<lambda>(mem, st, toProcess, toRecycle).
          let (toRecycle, buf) = recycle_buffers toRecycle buf
          in Inr (mem, st, buf, toProcess, toRecycle))))"

definition run_end ::
    "'a platform \<Rightarrow> 'a processor \<Rightarrow> packet_buffer \<Rightarrow> ptr list \<Rightarrow> ptr list
      \<Rightarrow> 'a processor \<times> packet_buffer \<times> ptr list \<times> ptr list" where
  "run_end P st buf toProcess toRecycle = (let
     st = close_streams P st;
     (toProcess, buf) = recycle_buffers toProcess buf;
     (toRecycle, buf) = recycle_buffers toRecycle buf;
     st = st\<lparr>m_running := False, m_first_packet := True, m_non_conforming_device := False\<rparr>
     in (st, buf, toProcess, toRecycle))"

section \<open>A sample platform and processor\<close>

definition sample_platform :: "string platform" where
  "sample_platform = \<lparr>pf_corba = string_corba, pf_clock = (\<lambda>_. 1460000000), pf_timezone = 0,
     pf_giopMaxMsgSize = 2097152, pf_closed_valid = False\<rparr>"

definition sample_processor :: "string processor" where
  "sample_processor = new_processor sample_platform (string_sri ''up'' [])
     \<lparr>tcmode_of = TCM_SDDS, tcstatus_of = TCS_INVALID, toff = Fin 0, twsec = Fin 0, tfsec = Fin 0\<rparr>"

lemmas sample_defs = sample_processor_def new_processor_def reserve_def

section \<open>Properties\<close>

text \<open>While the processor runs its settings are locked: the setters for packets per read, the
  two time tag options and the endianness change nothing. When it is stopped, the endianness
  setter takes the two known values and no other.\<close>

theorem settings_locked_while_running:
  "(m_running st \<longrightarrow> setPktsPerRead P n st = st \<and> setWaitForTTV w st = st \<and> setPushOnTTV w st = st
      \<and> setEndianness e st = st)
   \<and> (m_endianness (setEndianness e st) \<noteq> m_endianness st \<longrightarrow>
        \<not> m_running st \<and> m_endianness (setEndianness e st) = e
        \<and> (e = BIG_ENDIAN_STR \<or> e = LITTLE_ENDIAN_STR))"
  by (auto simp: setPktsPerRead_def setWaitForTTV_def setPushOnTTV_def setEndianness_def)

lemma settings_locked_while_running_witness:
  "setEndianness LITTLE_ENDIAN_STR (run_begin sample_processor) = run_begin sample_processor"
  using settings_locked_while_running
    [of "run_begin sample_processor" sample_platform 0 True LITTLE_ENDIAN_STR]
  by (simp add: run_begin_def)

text \<open>A stopped processor takes the packets per read as given when their data fits a CORBA
  transfer, and otherwise the largest number that fits, provided the product of the two does not
  wrap around; room for the data is reserved either way.\<close>

theorem pkts_per_read_bounded:
  assumes "\<not> m_running st" "unat n * 1024 < 2 ^ 64" "2048 \<le> unat (pf_giopMaxMsgSize P)"
  shows "unat (m_pkts_per_read (setPktsPerRead P n st))
       = min (unat n) ((unat (pf_giopMaxMsgSize P) - 2048) div 1024)
     \<and> unat (m_pkts_per_read (setPktsPerRead P n st)) * 1024 \<le> unat (pf_giopMaxMsgSize P) - 2048
     \<and> m_pkts_per_read (setPktsPerRead P n st) * 1024 \<le> m_bulkIO_capacity (setPktsPerRead P n st)"
proof -
  let ?g = "unat (pf_giopMaxMsgSize P) - 2048" and ?m = "m_pkts_per_read (setPktsPerRead P n st)"
  have g: "unat (CORBA_MAX_XFER_BYTES P) = ?g"
    using assms(3) by (simp add: CORBA_MAX_XFER_BYTES_def unat_sub word_le_nat_alt)
  have n: "unat (n * SDDS_DATA_SIZE) = unat n * 1024"
    using assms(2) by (simp add: SDDS_DATA_SIZE_def unat_word_ariths)
  have m: "unat ?m = (if ?g < unat n * 1024 then ?g div 1024 else unat n)"
    using assms(1) by (simp add: setPktsPerRead_def reserve_def word_less_nat_alt g n)
      (simp add: unat_div g SDDS_DATA_SIZE_def)
  also have "\<dots> = min (unat n) (?g div 1024)"
    by (simp add: min_def) linarith
  finally have "unat ?m = min (unat n) (?g div 1024)" .
  moreover have "m_pkts_per_read (setPktsPerRead P n st) * 1024 \<le> m_bulkIO_capacity (setPktsPerRead P n st)"
    using assms(1) by (simp add: setPktsPerRead_def reserve_def SDDS_DATA_SIZE_def)
  moreover have "min (unat n) (?g div 1024) * 1024 \<le> ?g" by (simp add: min_def) linarith
  ultimately show ?thesis by simp
qed

lemma pkts_per_read_bounded_witness:
  "unat (m_pkts_per_read (setPktsPerRead sample_platform 5000 sample_processor)) = 2046"
  using pkts_per_read_bounded [of sample_processor 5000 sample_platform]
  by (simp add: sample_platform_def sample_defs)

end
