(* ===== verification/Processor_Invariants.thy ===== *)
theory Processor_Invariants
  imports Sdds_Processor
begin

text \<open>
  What holds at every moment of the processor's life: the operations in closed form (under the
  invariant that the three stream handles agree), the history of calls on the output streams,
  and one lemma per stage, up to a whole pass over the work queue.
\<close>

section \<open>Calls in closed form\<close>

text \<open>The three handles always agree; then no call reaches an empty handle.\<close>

definition coherent :: "'a processor \<Rightarrow> bool" where
  "coherent st \<longleftrightarrow> shortStream st = octetStream st \<and> floatStream st = octetStream st"

definition append_calls :: "'a call list \<Rightarrow> 'a processor \<Rightarrow> 'a processor" where
  "append_calls cs st = st\<lparr>m_calls := m_calls st @ cs\<rparr>"

definition flush_calls :: "'a processor \<Rightarrow> 'a call list" where
  "flush_calls st = (if octetStream st
     then [FlushStream OctetPort, FlushStream ShortPort, FlushStream FloatPort] else [])"

definition close_calls :: "'a processor \<Rightarrow> 'a call list" where
  "close_calls st = (if octetStream st
     then [CloseStream OctetPort, CloseStream ShortPort, CloseStream FloatPort] else [])"

definition create_calls :: "'a processor \<Rightarrow> 'a call list" where
  "create_calls st = (let n = m_pkts_per_read st * 1024 in close_calls st
     @ [CreateStream OctetPort (m_sri st), CreateStream ShortPort (m_sri st),
        CreateStream FloatPort (m_sri st), SetBufferSize OctetPort n,
        SetBufferSize ShortPort (n div 2), SetBufferSize FloatPort (n div 4)])"

definition sri_calls :: "'a processor \<Rightarrow> 'a call list" where
  "sri_calls st = (if m_bps st = 8 then [SetSri OctetPort (m_sri st)]
     else if m_bps st = 16 then [SetSri ShortPort (m_sri st)]
     else if m_bps st = 32 then [SetSri FloatPort (m_sri st)] else [])"

definition swapped_store :: "'a processor \<Rightarrow> ptr \<Rightarrow> store \<Rightarrow> store" where
  "swapped_store st p mem = (if m_bps st = 16 then swap_data swab st p mem
     else if m_bps st = 32 then swap_data bswap32_words st p mem else mem)"

definition write_calls :: "'a processor \<Rightarrow> u8 list \<Rightarrow> 'a call list" where
  "write_calls st d = (let T = m_bulkio_time_stamp st in
     if m_bps st = 8 then [WriteOctet d T] else if m_bps st = 16 then [WriteShort (as_shorts d) T]
     else if m_bps st = 32 then [WriteFloat (as_floats d) T] else [])"

definition opened :: "'a processor \<Rightarrow> 'a processor" where
  "opened st = st\<lparr>octetStream := True, shortStream := True, floatStream := True\<rparr>"

lemmas call_defs = call_on_def append_calls_def coherent_def opened_def

lemma flush_streams_eq: "coherent st \<Longrightarrow> flush_streams st = Inr (append_calls (flush_calls st) st)"
  by (simp add: flush_streams_def flush_calls_def call_defs)

lemma close_streams_eq:
  "coherent st \<Longrightarrow> close_streams P st = (if octetStream st
     then (append_calls (close_calls st) st)\<lparr>octetStream := pf_closed_valid P,
       shortStream := pf_closed_valid P, floatStream := pf_closed_valid P\<rparr> else st)"
  by (simp add: close_streams_def close_stream_def close_calls_def call_defs)

lemma createOutputStreams_eq:
  "coherent st \<Longrightarrow> createOutputStreams P st = Inr (opened (append_calls (create_calls st) st))"
  by (simp add: createOutputStreams_def close_streams_eq create_stream_def create_calls_def Let_def
      call_defs) (simp add: close_calls_def)

lemma pushSri_eq:
  "coherent st \<Longrightarrow> octetStream st \<Longrightarrow> pushSri st = Inr (append_calls (sri_calls st) st)"
  by (auto simp: pushSri_def sri_calls_def call_defs)

lemma write_packet_eq:
  "coherent st \<Longrightarrow> octetStream st \<Longrightarrow> write_packet p mem st =
     Inr (swapped_store st p mem,
          append_calls (write_calls st (pkt_d (swapped_store st p mem p))) st)"
  by (auto simp: write_packet_def swapped_store_def write_calls_def Let_def call_defs)

section \<open>Time steps in closed form\<close>

definition bps_ok :: "u16 \<Rightarrow> bool" where
  "bps_ok b \<longleftrightarrow> b = 0 \<or> b div 8 \<noteq> 0"

definition expect_steps :: "dbl \<Rightarrow> bool \<Rightarrow> 'a processor \<Rightarrow> 'a processor" where
  "expect_steps rate cplx st = (if m_bps st = 0 then st\<lparr>m_current_sample_rate := rate\<rparr>
     else let n = 1024 div uint (m_bps st div 8) div (if cplx then 2 else 1)
       in st\<lparr>m_current_sample_rate := rate,
            m_max_time_step := ddiv (dbl_of_int (n + 1)) rate,
            m_ideal_time_step := ddiv (dbl_of_int n) rate,
            m_min_time_step := ddiv (dbl_of_int (n - 1)) rate\<rparr>)"

lemma updateExpectedXdelta_eq:
  "updateExpectedXdelta rate cplx st =
     (if bps_ok (m_bps st) then Inr (expect_steps rate cplx st) else Inl DivideByZero)"
  by (simp add: updateExpectedXdelta_def expect_steps_def bps_ok_def Let_def)

text \<open>What a time slip check leaves as it is.\<close>

definition only_timing :: "'a processor \<Rightarrow> 'a processor \<Rightarrow> bool" where
  "only_timing st st' \<longleftrightarrow> m_pkts_per_read st' = m_pkts_per_read st \<and> m_running st' = m_running st
     \<and> m_shuttingDown st' = m_shuttingDown st \<and> m_wait_for_ttv st' = m_wait_for_ttv st
     \<and> m_push_on_ttv st' = m_push_on_ttv st \<and> m_first_packet st' = m_first_packet st
     \<and> m_current_ttv_flag st' = m_current_ttv_flag st
     \<and> m_expected_seq_number st' = m_expected_seq_number st
     \<and> m_bulkIO_capacity st' = m_bulkIO_capacity st \<and> m_pkts_dropped st' = m_pkts_dropped st
     \<and> m_start_of_year st' = m_start_of_year st \<and> m_bps st' = m_bps st \<and> m_sri st' = m_sri st
     \<and> m_bulkio_time_stamp st' = m_bulkio_time_stamp st \<and> m_upstream_sri st' = m_upstream_sri st
     \<and> m_upstream_sri_set st' = m_upstream_sri_set st \<and> m_endianness st' = m_endianness st
     \<and> m_new_upstream_sri st' = m_new_upstream_sri st
     \<and> m_use_upstream_sri st' = m_use_upstream_sri st
     \<and> m_accum_error_tolerance st' = m_accum_error_tolerance st
     \<and> octetStream st' = octetStream st \<and> shortStream st' = shortStream st
     \<and> floatStream st' = floatStream st \<and> m_calls st' = m_calls st
     \<and> m_clock_reads st' = m_clock_reads st"

lemma only_timing_refl [simp]: "only_timing st st"
  by (simp add: only_timing_def)

lemma only_timing_steps [simp]: "only_timing st (expect_steps rate cplx st)"
  by (simp add: only_timing_def expect_steps_def Let_def)

lemma only_timing_updates [simp]:
  "only_timing st (st'\<lparr>m_last_sdds_time := t\<rparr>) = only_timing st st'"
  "only_timing st (st'\<lparr>m_non_conforming_device := b\<rparr>) = only_timing st st'"
  "only_timing st (st'\<lparr>m_time_error_accum := d\<rparr>) = only_timing st st'"
  "only_timing st (st'\<lparr>m_num_time_slips := k\<rparr>) = only_timing st st'"
  by (simp_all add: only_timing_def)

lemma only_timing_trans: "only_timing a b \<Longrightarrow> only_timing b c \<Longrightarrow> only_timing a c"
  by (simp add: only_timing_def)

lemma only_timing_expect:
  "only_timing st st' \<Longrightarrow> only_timing st (expect_steps rate cplx st')"
  by (erule only_timing_trans) simp

lemma check_time_step_timing:
  assumes "bps_ok (m_bps st)"
  shows "holds (\<lambda>_. False) (\<lambda>(slip, st'). only_timing st st') (check_time_step dt pkt st)"
  using assms by (simp add: check_time_step_def updateExpectedXdelta_eq Let_def only_timing_expect)

lemma accumulate_error_timing:
  "only_timing st st' \<Longrightarrow> only_timing st (snd (accumulate_error dt slip st'))"
  by (simp add: accumulate_error_def Let_def)

lemma checkForTimeSlip_timing:
  assumes "bps_ok (m_bps st)"
  shows "holds (\<lambda>_. False) (only_timing st) (checkForTimeSlip pkt st)"
proof -
  let ?dt = "dsub (seconds (get_SDDSTime pkt)) (seconds (m_last_sdds_time st))"
  let ?st = "st\<lparr>m_last_sdds_time := get_SDDSTime pkt\<rparr>"
  have "holds (\<lambda>_. False) (\<lambda>(slip, st'). only_timing ?st st') (check_time_step ?dt pkt ?st)"
    using assms by (intro check_time_step_timing) simp
  then have "holds (\<lambda>_. False) (\<lambda>(slip, st'). only_timing st (snd (accumulate_error ?dt slip st')))
      (check_time_step ?dt pkt ?st)"
    by (rule holds_mono) (auto intro!: accumulate_error_timing intro: only_timing_trans [of st ?st])
  then show ?thesis
    unfolding checkForTimeSlip_def
    by (auto simp: Let_def case_prod_unfold)
qed

lemma checkForTimeSlip_total:
  assumes "bps_ok (m_bps st)"
  obtains st' where "checkForTimeSlip pkt st = Inr st'" "only_timing st st'"
  using checkForTimeSlip_timing [OF assms, of pkt] by (cases "checkForTimeSlip pkt st") auto

section \<open>The stages of a packet in closed form\<close>

definition ensure_open :: "'a processor \<Rightarrow> 'a processor" where
  "ensure_open st = (if octetStream st then st else opened (append_calls (create_calls st) st))"

definition upstream_merged :: "'a platform \<Rightarrow> 'a processor \<Rightarrow> bool \<times> 'a processor" where
  "upstream_merged P st = (if m_upstream_sri_set st \<and> m_new_upstream_sri st then
     (let (sri, use, ch, sc, e) = mergeUpstreamSRI (pf_corba P) (m_sri st) (m_upstream_sri st)
            (m_use_upstream_sri st) False False (m_endianness st);
        st = st\<lparr>m_new_upstream_sri := False, m_sri := sri, m_use_upstream_sri := use, m_endianness := e\<rparr>
      in (ch, if sc then opened (append_calls (create_calls st) st) else st))
     else (False, st))"

definition ready_packet ::
    "'a platform \<Rightarrow> SDDSpacket \<Rightarrow> 'a processor \<Rightarrow> bool \<times> 'a processor" where
  "ready_packet P pkt st = (let (ch, st) = upstream_merged P st;
     (ch, st) = merge_packet_sri pkt ch st in (ch, ensure_open st))"

text \<open>What these stages leave as it is.\<close>

definition only_sri :: "'a processor \<Rightarrow> 'a processor \<Rightarrow> bool" where
  "only_sri st st' \<longleftrightarrow> m_pkts_per_read st' = m_pkts_per_read st \<and> m_running st' = m_running st
     \<and> m_shuttingDown st' = m_shuttingDown st \<and> m_wait_for_ttv st' = m_wait_for_ttv st
     \<and> m_push_on_ttv st' = m_push_on_ttv st \<and> m_first_packet st' = m_first_packet st
     \<and> m_current_ttv_flag st' = m_current_ttv_flag st
     \<and> m_expected_seq_number st' = m_expected_seq_number st
     \<and> m_last_sdds_time st' = m_last_sdds_time st
     \<and> m_pkts_dropped st' = m_pkts_dropped st \<and> m_start_of_year st' = m_start_of_year st
     \<and> m_bps st' = m_bps st \<and> m_upstream_sri st' = m_upstream_sri st
     \<and> m_upstream_sri_set st' = m_upstream_sri_set st
     \<and> m_num_time_slips st' = m_num_time_slips st
     \<and> m_non_conforming_device st' = m_non_conforming_device st"

lemma only_sri_refl [simp]: "only_sri st st"
  by (simp add: only_sri_def)

lemma only_sri_trans: "only_sri a b \<Longrightarrow> only_sri b c \<Longrightarrow> only_sri a c"
  by (simp add: only_sri_def)

lemma only_sri_updates [simp]:
  "only_sri st (append_calls cs st') = only_sri st st'" "only_sri st (opened st') = only_sri st st'"
  "only_sri st (st'\<lparr>m_sri := x\<rparr>) = only_sri st st'"
  "only_sri st (st'\<lparr>m_use_upstream_sri := b\<rparr>) = only_sri st st'"
  "only_sri st (st'\<lparr>m_new_upstream_sri := b\<rparr>) = only_sri st st'"
  "only_sri st (st'\<lparr>m_endianness := x2\<rparr>) = only_sri st st'"
  by (simp_all add: only_sri_def append_calls_def opened_def)

lemma coherent_updates [simp]:
  "coherent (append_calls cs st) = coherent st" "coherent (opened st)"
  "octetStream (append_calls cs st) = octetStream st" "octetStream (opened st)"
  "coherent (st\<lparr>m_sri := x\<rparr>) = coherent st" "coherent (st\<lparr>m_use_upstream_sri := b\<rparr>) = coherent st"
  "coherent (st\<lparr>m_new_upstream_sri := b\<rparr>) = coherent st"
  "coherent (st\<lparr>m_endianness := e\<rparr>) = coherent st"
  by (simp_all add: coherent_def append_calls_def opened_def)

lemma take_upstream_sri_eq:
  "coherent st \<Longrightarrow> take_upstream_sri P st = Inr (upstream_merged P st)"
  by (auto simp: take_upstream_sri_def upstream_merged_def Let_def createOutputStreams_eq
      split: prod.splits)

lemma upstream_merged_frame:
  assumes "upstream_merged P st = (ch, st')"
  shows "only_sri st st'" "coherent st \<Longrightarrow> coherent st'"
  using assms by (auto simp: upstream_merged_def Let_def split: prod.splits if_splits)

lemma merge_packet_sri_frame:
  assumes "merge_packet_sri pkt ch st = (ch', st')"
  shows "only_sri st st'" "coherent st \<Longrightarrow> coherent st'" "octetStream st' = octetStream st"
    "m_calls st' = m_calls st" "m_endianness st' = m_endianness st"
    "m_new_upstream_sri st' = m_new_upstream_sri st" "m_use_upstream_sri st' = m_use_upstream_sri st"
    "ch \<Longrightarrow> ch'"
  using assms by (auto simp: merge_packet_sri_def mergeSddsSRI_eq split: prod.splits if_splits)

lemma ready_packet_frame:
  assumes "ready_packet P pkt st = (ch, st')" "coherent st"
  shows "only_sri st st'" "coherent st'" "octetStream st'"
proof -
  obtain c1 s1 where u: "upstream_merged P st = (c1, s1)" by fastforce
  obtain c2 s2 where m: "merge_packet_sri pkt c1 s1 = (c2, s2)" by fastforce
  have st': "st' = ensure_open s2" using assms(1) by (simp add: ready_packet_def u m)
  note frames = upstream_merged_frame [OF u] merge_packet_sri_frame [OF m]
  show "only_sri st st'"
    using only_sri_trans [OF frames(1,3)] by (simp add: st' ensure_open_def)
  show "coherent st'" "octetStream st'" using frames assms(2) by (simp_all add: st' ensure_open_def)
qed

lemma sri_and_push_eq:
  assumes "coherent st" "bps_ok (m_bps st)" "ready_packet P (mem p) st = (ch, st')"
  shows "sri_and_push P p mem st = (if ch then
      Inr (Refill, mem, (expect_steps (expected_rate st' (mem p)) (pkt_cx (mem p))
             (append_calls (sri_calls st') st'))\<lparr>m_last_sdds_time := time_zero\<rparr>)
    else push_packet P p mem st')"
proof -
  obtain c1 s1 where u: "upstream_merged P st = (c1, s1)" by fastforce
  obtain c2 s2 where m: "merge_packet_sri (mem p) c1 s1 = (c2, s2)" by fastforce
  have st': "st' = ensure_open s2" "ch = c2" using assms(3) by (simp_all add: ready_packet_def u m)
  have co: "coherent s2"
    using upstream_merged_frame(2) [OF u] merge_packet_sri_frame(2) [OF m] assms(1) by blast
  have "(if octetStream s2 then Inr s2 else createOutputStreams P s2) = Inr st'"
    by (simp add: st' ensure_open_def createOutputStreams_eq [OF co])
  moreover have "pushSri st' = Inr (append_calls (sri_calls st') st')"
    using ready_packet_frame [OF assms(3,1)] by (simp add: pushSri_eq)
  moreover have "m_bps (append_calls (sri_calls st') st') = m_bps st"
    "expected_rate (append_calls (sri_calls st') st') = expected_rate st'"
    using ready_packet_frame(1) [OF assms(3,1)]
    by (simp_all add: only_sri_def append_calls_def expected_rate_def fun_eq_iff)
  ultimately show ?thesis
    using assms(2) by (simp add: sri_and_push_def take_upstream_sri_eq [OF assms(1)] u m
        updateExpectedXdelta_eq st'(2))
qed

lemma push_packet_eq:
  assumes "coherent st" "octetStream st" "bps_ok (m_bps st)"
  obtains st' where "checkForTimeSlip (mem p) (stamp_packet P (mem p) st) = Inr st'"
    "only_timing (stamp_packet P (mem p) st) st'"
    "push_packet P p mem st = Inr (Recycle, swapped_store st p mem,
       count_packet (append_calls (write_calls st' (pkt_d (swapped_store st p mem p))) st'))"
proof -
  let ?s = "stamp_packet P (mem p) st"
  have s: "coherent ?s" "octetStream ?s" "m_bps ?s = m_bps st" "m_endianness ?s = m_endianness st"
    using assms by (simp_all add: stamp_packet_def coherent_def split: prod.split)
  then have "bps_ok (m_bps ?s)" using assms(3) by simp
  then obtain st' where st': "checkForTimeSlip (mem p) ?s = Inr st'" "only_timing ?s st'"
    by (rule checkForTimeSlip_total)
  then have "coherent st'" "octetStream st'" "swapped_store st' p mem = swapped_store st p mem"
    using s by (simp_all add: only_timing_def coherent_def swapped_store_def swap_data_def)
  then have "push_packet P p mem st = Inr (Recycle, swapped_store st p mem,
       count_packet (append_calls (write_calls st' (pkt_d (swapped_store st p mem p))) st'))"
    by (simp add: push_packet_def st'(1) write_packet_eq)
  with st' show thesis by (rule that)
qed

section \<open>Reading the call history\<close>

text \<open>
  \<open>written\<close> is the port and the time stamp status of a write, \<open>ended\<close> the port whose buffered
  data a call pushes out. \<open>pend m cs\<close> is, per port, the status of the last write not yet pushed
  out; \<open>separated\<close> says that no write joins buffered data of the other status.
\<close>

type_synonym pending = "port \<Rightarrow> tcstatus option"

fun written :: "'a call \<Rightarrow> (port \<times> tcstatus) option" where
  "written (WriteOctet d T) = Some (OctetPort, tcstatus_of T)"
| "written (WriteShort d T) = Some (ShortPort, tcstatus_of T)"
| "written (WriteFloat d T) = Some (FloatPort, tcstatus_of T)"
| "written c = None"

fun ended :: "'a call \<Rightarrow> port option" where
  "ended (FlushStream p) = Some p"
| "ended (CloseStream p) = Some p"
| "ended c = None"

definition pend_step :: "pending \<Rightarrow> 'a call \<Rightarrow> pending" where
  "pend_step m c = (case written c of Some (p, s) \<Rightarrow> m(p := Some s)
     | None \<Rightarrow> (case ended c of Some p \<Rightarrow> m(p := None) | None \<Rightarrow> m))"

fun pend :: "pending \<Rightarrow> 'a call list \<Rightarrow> pending" where
  "pend m [] = m"
| "pend m (c # cs) = pend (pend_step m c) cs"

fun separated :: "pending \<Rightarrow> 'a call list \<Rightarrow> bool" where
  "separated m [] = True"
| "separated m (c # cs) \<longleftrightarrow>
     (case written c of Some (p, s) \<Rightarrow> m p = None \<or> m p = Some s | None \<Rightarrow> True)
     \<and> separated (pend_step m c) cs"

lemma pend_append [simp]: "pend m (cs @ ds) = pend (pend m cs) ds"
  by (induction m cs rule: pend.induct) auto

lemma separated_append [simp]:
  "separated m (cs @ ds) \<longleftrightarrow> separated m cs \<and> separated (pend m cs) ds"
  by (induction m cs rule: separated.induct) auto

abbreviation clean :: pending where "clean \<equiv> \<lambda>_. None"

lemma all_ports: "(\<forall>p. Q p) \<longleftrightarrow> Q OctetPort \<and> Q ShortPort \<and> Q FloatPort"
  by (metis port.exhaust)

lemma pend_calls [simp]:
  "octetStream st \<Longrightarrow> pend m (flush_calls st) = clean"
  "\<not> octetStream st \<Longrightarrow> flush_calls st = []"
  "octetStream st \<Longrightarrow> pend m (create_calls st) = clean"
  "\<not> octetStream st \<Longrightarrow> pend m (create_calls st) = m"
  "pend m (sri_calls st) = m"
  by (simp_all add: flush_calls_def create_calls_def close_calls_def sri_calls_def Let_def
      pend_step_def fun_eq_iff all_ports)

lemma separated_calls [simp]:
  "separated m (flush_calls st)" "separated m (create_calls st)" "separated m (sri_calls st)"
  by (simp_all add: flush_calls_def create_calls_def close_calls_def sri_calls_def Let_def)

definition write_status :: "tcstatus \<Rightarrow> 'a call list \<Rightarrow> bool" where
  "write_status s cs \<longleftrightarrow> (\<forall>c \<in> set cs. \<forall>p s'. written c = Some (p, s') \<longrightarrow> s' = s)"

lemma write_status_calls [simp]:
  "write_status s (flush_calls st)" "write_status s (create_calls st)" "write_status s (sri_calls st)"
  "write_status (tcstatus_of (m_bulkio_time_stamp st)) (write_calls st d)"
  by (auto simp: write_status_def flush_calls_def create_calls_def close_calls_def sri_calls_def
      write_calls_def Let_def)

lemma write_status_append [simp]:
  "write_status s (cs @ ds) \<longleftrightarrow> write_status s cs \<and> write_status s ds"
  by (auto simp: write_status_def)

lemma write_status_Nil [simp]: "write_status s []"
  by (simp add: write_status_def)

lemma write_calls_pend:
  assumes "\<forall>p. m p = None \<or> m p = Some (tcstatus_of (m_bulkio_time_stamp st))"
  shows "separated m (write_calls st d)"
    "pend m (write_calls st d) p = None
       \<or> pend m (write_calls st d) p = Some (tcstatus_of (m_bulkio_time_stamp st))"
  using assms by (auto simp: write_calls_def Let_def pend_step_def)

section \<open>Invariants\<close>

definition proc_ok :: "'a processor \<Rightarrow> bool" where
  "proc_ok st \<longleftrightarrow> coherent st \<and> bps_ok (m_bps st)
     \<and> (m_endianness st = BIG_ENDIAN_STR \<or> m_endianness st = LITTLE_ENDIAN_STR)"

abbreviation ttv_status :: "bool \<Rightarrow> tcstatus" where
  "ttv_status b \<equiv> (if b then TCS_VALID else TCS_INVALID)"

text \<open>With \<open>m_push_on_ttv\<close>: all buffered data has the status of the current flag.\<close>

definition push_ok :: "'a processor \<Rightarrow> bool" where
  "push_ok st \<longleftrightarrow> separated clean (m_calls st)
     \<and> (\<forall>p. pend clean (m_calls st) p = None
          \<or> pend clean (m_calls st) p = Some (ttv_status (m_current_ttv_flag st)))
     \<and> (m_first_packet st \<or> \<not> octetStream st \<longrightarrow> pend clean (m_calls st) = clean)"

text \<open>The settings a pass of the processor leaves as they are.\<close>

definition same_config :: "'a processor \<Rightarrow> 'a processor \<Rightarrow> bool" where
  "same_config st st' \<longleftrightarrow> m_pkts_per_read st' = m_pkts_per_read st \<and> m_running st' = m_running st
     \<and> m_shuttingDown st' = m_shuttingDown st \<and> m_wait_for_ttv st' = m_wait_for_ttv st
     \<and> m_push_on_ttv st' = m_push_on_ttv st \<and> m_upstream_sri st' = m_upstream_sri st
     \<and> m_upstream_sri_set st' = m_upstream_sri_set st"

lemma same_config_refl [simp]: "same_config st st"
  by (simp add: same_config_def)

lemma same_config_trans: "same_config a b \<Longrightarrow> same_config b c \<Longrightarrow> same_config a c"
  by (simp add: same_config_def)

lemma same_config_frames:
  "only_sri st st' \<Longrightarrow> same_config st st'" "only_timing st st' \<Longrightarrow> same_config st st'"
  by (simp_all add: same_config_def only_sri_def only_timing_def)

lemma same_config_updates [simp]:
  "same_config st (append_calls cs st') = same_config st st'"
  "same_config st (expect_steps r c st') = same_config st st'"
  "same_config st (stamp_packet P pkt st') = same_config st st'"
  "same_config st (count_packet st') = same_config st st'"
  "same_config st (st'\<lparr>m_last_sdds_time := t\<rparr>) = same_config st st'"
  "same_config st (st'\<lparr>m_first_packet := b\<rparr>) = same_config st st'"
  "same_config st (st'\<lparr>m_current_ttv_flag := b\<rparr>) = same_config st st'"
  "same_config st (st'\<lparr>m_expected_seq_number := n\<rparr>) = same_config st st'"
  "same_config st (st'\<lparr>m_pkts_dropped := n2\<rparr>) = same_config st st'"
  "same_config st (st'\<lparr>m_bps := w\<rparr>) = same_config st st'"
  by (simp_all add: same_config_def append_calls_def expect_steps_def stamp_packet_def
      count_packet_def Let_def split: prod.split)

text \<open>Stages that write nothing: they leave buffered data alone or push out all of it.\<close>

definition quiet_calls :: "'a call list \<Rightarrow> bool" where
  "quiet_calls cs \<longleftrightarrow> (\<forall>s. write_status s cs)
     \<and> (\<forall>m. separated m cs \<and> (pend m cs = m \<or> pend m cs = clean))"

lemma quiet_calls_simps [simp]:
  "quiet_calls []" "quiet_calls (flush_calls st)" "quiet_calls (create_calls st)"
  "quiet_calls (sri_calls st)"
  by (cases "octetStream st"; simp add: quiet_calls_def)+

lemma quiet_calls_append: "quiet_calls cs \<Longrightarrow> quiet_calls ds \<Longrightarrow> quiet_calls (cs @ ds)"
  by (simp add: quiet_calls_def) metis

definition quiet :: "'a processor \<Rightarrow> 'a processor \<Rightarrow> bool" where
  "quiet st st' \<longleftrightarrow> only_sri st st' \<and> (octetStream st \<longrightarrow> octetStream st')
     \<and> (proc_ok st \<longrightarrow> proc_ok st')
     \<and> (\<exists>cs. m_calls st' = m_calls st @ cs \<and> quiet_calls cs)"

lemma quiet_refl [simp]: "quiet st st"
  by (auto simp: quiet_def intro: exI [of _ "[]"])

lemma quiet_trans:
  assumes "quiet a b" "quiet b c"
  shows "quiet a c"
proof -
  from assms obtain cs ds where "m_calls b = m_calls a @ cs" "quiet_calls cs"
    "m_calls c = m_calls b @ ds" "quiet_calls ds" unfolding quiet_def by blast
  then have "m_calls c = m_calls a @ (cs @ ds) \<and> quiet_calls (cs @ ds)"
    by (simp add: quiet_calls_append)
  then show ?thesis using assms only_sri_trans [of a b c] unfolding quiet_def by blast
qed

lemma quiet_append: "quiet_calls cs \<Longrightarrow> quiet st (append_calls cs st)"
  by (auto simp: quiet_def append_calls_def only_sri_def proc_ok_def coherent_def)

lemma quiet_opened: "quiet st (opened (append_calls (create_calls st) st))"
  by (auto simp: quiet_def append_calls_def opened_def only_sri_def proc_ok_def coherent_def)

lemma quiet_push:
  assumes "quiet st st'" "push_ok st"
  shows "push_ok st'"
proof -
  let ?m = "pend clean (m_calls st)"
  from assms(1) obtain cs where cs: "m_calls st' = m_calls st @ cs" "quiet_calls cs"
    unfolding quiet_def by blast
  then have "separated ?m cs" "pend ?m cs = ?m \<or> pend ?m cs = clean"
    by (simp_all add: quiet_calls_def)
  moreover have "m_first_packet st' = m_first_packet st" "octetStream st \<longrightarrow> octetStream st'"
    "m_current_ttv_flag st' = m_current_ttv_flag st"
    using assms(1) by (simp_all add: quiet_def only_sri_def)
  ultimately show ?thesis using assms(2) cs(1) by (auto simp: push_ok_def)
qed

lemma upstream_merged_quiet:
  assumes "upstream_merged P st = (ch, st')"
  shows "quiet st st'"
proof (cases "m_upstream_sri_set st \<and> m_new_upstream_sri st")
  case True
  obtain sri u c sc e where m: "mergeUpstreamSRI (pf_corba P) (m_sri st) (m_upstream_sri st)
      (m_use_upstream_sri st) False False (m_endianness st) = (sri, u, c, sc, e)"
    by (metis prod_cases5)
  let ?s = "st\<lparr>m_new_upstream_sri := False, m_sri := sri, m_use_upstream_sri := u, m_endianness := e\<rparr>"
  have "proc_ok st \<longrightarrow> proc_ok ?s"
    using mergeUpstreamSRI_endianness [OF m] by (auto simp: proc_ok_def)
  then have "quiet st ?s" by (auto simp: quiet_def intro: exI [of _ "[]"])
  moreover have "quiet ?s st'"
    using assms True m quiet_opened [of ?s] by (auto simp: upstream_merged_def Let_def split: if_splits)
  ultimately show ?thesis by (rule quiet_trans)
next
  case False
  then have "upstream_merged P st = (False, st)" by (auto simp: upstream_merged_def)
  with assms show ?thesis by simp
qed

lemma ready_packet_quiet:
  assumes "ready_packet P pkt st = (ch, st')"
  shows "quiet st st'"
proof -
  obtain c1 s1 where u: "upstream_merged P st = (c1, s1)" by fastforce
  obtain c2 s2 where m: "merge_packet_sri pkt c1 s1 = (c2, s2)" by fastforce
  have st': "st' = ensure_open s2" using assms(1) by (simp add: ready_packet_def u m)
  have "quiet s1 s2"
    using merge_packet_sri_frame [OF m]
    by (auto simp: quiet_def proc_ok_def only_sri_def intro: exI [of _ "[]"])
  moreover have "quiet s2 st'" using quiet_opened by (auto simp: st' ensure_open_def)
  ultimately show ?thesis
    using upstream_merged_quiet [OF u] by (blast intro: quiet_trans)
qed

section \<open>One packet\<close>

text \<open>What every turn of the packet loop guarantees.\<close>

definition turn_ok :: "'a processor \<Rightarrow> 'a processor \<Rightarrow> bool" where
  "turn_ok st st' \<longleftrightarrow> same_config st st' \<and> proc_ok st'
     \<and> (\<exists>cs. m_calls st' = m_calls st @ cs \<and> (m_wait_for_ttv st \<longrightarrow> write_status TCS_VALID cs))
     \<and> (m_push_on_ttv st \<and> push_ok st \<longrightarrow> push_ok st')"

lemma turn_ok_refl: "proc_ok st \<Longrightarrow> turn_ok st st"
  by (auto simp: turn_ok_def intro: exI [of _ "[]"])

lemma turn_ok_trans:
  assumes "turn_ok a b" "turn_ok b c"
  shows "turn_ok a c"
proof -
  from assms obtain cs ds where
    "m_calls b = m_calls a @ cs" "m_wait_for_ttv a \<longrightarrow> write_status TCS_VALID cs"
    "m_calls c = m_calls b @ ds" "m_wait_for_ttv b \<longrightarrow> write_status TCS_VALID ds"
    unfolding turn_ok_def by blast
  moreover have "m_wait_for_ttv b = m_wait_for_ttv a" "m_push_on_ttv b = m_push_on_ttv a"
    using assms(1) by (simp_all add: turn_ok_def same_config_def)
  ultimately have "m_calls c = m_calls a @ (cs @ ds)
      \<and> (m_wait_for_ttv a \<longrightarrow> write_status TCS_VALID (cs @ ds))" by simp
  then show ?thesis
    using assms same_config_trans [of a b c] \<open>m_push_on_ttv b = m_push_on_ttv a\<close>
    unfolding turn_ok_def by blast
qed

lemma quiet_turn: "quiet st st' \<Longrightarrow> proc_ok st \<Longrightarrow> turn_ok st st'"
  unfolding turn_ok_def
  by (auto simp: quiet_push same_config_frames) (auto simp: quiet_def same_config_frames quiet_calls_def)

lemma timing_turn:
  assumes "turn_ok st s" "only_timing s s'"
  shows "turn_ok st s'"
proof -
  have "same_config st s'"
    using assms same_config_trans [OF _ same_config_frames(2)] by (auto simp: turn_ok_def)
  moreover have "proc_ok s' = proc_ok s" "push_ok s' = push_ok s" "m_calls s' = m_calls s"
    using assms(2) by (simp_all add: proc_ok_def coherent_def push_ok_def only_timing_def)
  ultimately show ?thesis using assms(1) by (simp add: turn_ok_def)
qed

text \<open>The store: only the data of the packet at hand is touched, and its length stays.\<close>

definition touches :: "ptr \<Rightarrow> store \<Rightarrow> store \<Rightarrow> bool" where
  "touches p mem mem' \<longleftrightarrow> mem' = mem \<or>
     (\<exists>d. mem' = mem(p := (mem p)\<lparr>pkt_d := d\<rparr>) \<and> length d = length (pkt_d (mem p)))"

lemma length_swab [simp]: "length (swab d) = length d"
  by (induction d rule: swab.induct) auto

lemma length_bswap32_words [simp]: "length (bswap32_words d) = length d"
  by (induction d rule: bswap32_words.induct) auto

lemma touches_refl [simp]: "touches p mem mem"
  by (simp add: touches_def)

lemma touches_swap: "(\<And>d. length (f d) = length d) \<Longrightarrow> touches p mem (swap_data f st p mem)"
  unfolding touches_def swap_data_def by (metis (no_types))

lemma touches_swapped: "touches p mem (swapped_store st p mem)"
  by (simp add: swapped_store_def touches_swap)

definition first_state :: "SDDSpacket \<Rightarrow> 'a processor \<Rightarrow> 'a processor" where
  "first_state pkt st = expect_steps (expected_rate st pkt) (pkt_cx pkt)
     (st\<lparr>m_first_packet := False, m_current_ttv_flag := (get_ttv pkt \<noteq> 0),
        m_expected_seq_number := get_seq pkt, m_bps := getBps pkt, m_last_sdds_time := time_zero\<rparr>)"

definition dropped_state :: "SDDSpacket \<Rightarrow> 'a processor \<Rightarrow> 'a processor" where
  "dropped_state pkt st = st\<lparr>m_pkts_dropped :=
     m_pkts_dropped st + ucast (get_seq pkt - m_expected_seq_number st), m_first_packet := True\<rparr>"

lemma orderIsValid_eq:
  "orderIsValid pkt st =
     (if m_first_packet st then
        (if bps_ok (getBps pkt) then Inr (True, first_state pkt st) else Inl DivideByZero)
      else if m_expected_seq_number st \<noteq> get_seq pkt then Inr (False, dropped_state pkt st)
      else Inr (True, st))"
  by (simp add: orderIsValid_def updateExpectedXdelta_eq first_state_def dropped_state_def
      expected_rate_def Let_def)

lemma first_state_frame:
  "same_config st (first_state pkt st)" "\<not> m_first_packet (first_state pkt st)"
  "m_current_ttv_flag (first_state pkt st) = ttv_on pkt" "m_bps (first_state pkt st) = getBps pkt"
  "m_calls (first_state pkt st) = m_calls st" "octetStream (first_state pkt st) = octetStream st"
  "coherent (first_state pkt st) = coherent st" "m_endianness (first_state pkt st) = m_endianness st"
  "m_expected_seq_number (first_state pkt st) = get_seq pkt"
  by (simp_all add: first_state_def expect_steps_def same_config_def coherent_def ttv_on_def Let_def)

lemma first_state_turn:
  assumes "proc_ok st" "m_first_packet st" "bps_ok (getBps pkt)"
  shows "turn_ok st (first_state pkt st)"
  using assms unfolding turn_ok_def proc_ok_def push_ok_def
  by (auto simp: first_state_frame intro: exI [of _ "[]"])

text \<open>Pushing out everything, together with changes of the packet flags.\<close>

lemma flush_turn:
  assumes "proc_ok st" "st' = (append_calls (flush_calls st) st)
    \<lparr>m_first_packet := f, m_current_ttv_flag := c, m_pkts_dropped := d\<rparr>"
  shows "turn_ok st st'"
proof -
  have "pend clean (m_calls st') = clean" if "push_ok st"
    using that by (cases "octetStream st") (simp_all add: assms(2) append_calls_def push_ok_def)
  then have "push_ok st \<longrightarrow> push_ok st'"
    by (auto simp: push_ok_def assms(2) append_calls_def)
  then show ?thesis
    using assms(1) unfolding turn_ok_def proc_ok_def
    by (auto simp: assms(2) append_calls_def coherent_def same_config_def)
qed

lemma stamp_packet_frame:
  "m_calls (stamp_packet P pkt st) = m_calls st"
  "tcstatus_of (m_bulkio_time_stamp (stamp_packet P pkt st)) = ttv_status (ttv_on pkt)"
  "m_current_ttv_flag (stamp_packet P pkt st) = m_current_ttv_flag st"
  "m_first_packet (stamp_packet P pkt st) = m_first_packet st"
  "octetStream (stamp_packet P pkt st) = octetStream st"
  "m_bps (stamp_packet P pkt st) = m_bps st" "coherent (stamp_packet P pkt st) = coherent st"
  "m_endianness (stamp_packet P pkt st) = m_endianness st"
  by (simp_all add: stamp_packet_def getBulkIOTimeStamp_def coherent_def ttv_on_def Let_def
      split: prod.split)

lemma push_packet_turn:
  assumes ok: "proc_ok st" "octetStream st" and run: "\<not> m_first_packet st"
    and wait: "m_wait_for_ttv st \<Longrightarrow> ttv_on (mem p)"
    and push: "m_push_on_ttv st \<Longrightarrow> m_current_ttv_flag st = ttv_on (mem p)"
  obtains mem' st' where "push_packet P p mem st = Inr (Recycle, mem', st')"
    "turn_ok st st'" "touches p mem mem'"
proof -
  from ok have co: "coherent st" "bps_ok (m_bps st)" by (simp_all add: proc_ok_def)
  let ?mem = "swapped_store st p mem"
  from push_packet_eq [OF co(1) ok(2) co(2)] obtain s where
    s: "only_timing (stamp_packet P (mem p) st) s" and
    eq: "push_packet P p mem st = Inr (Recycle, ?mem,
       count_packet (append_calls (write_calls s (pkt_d (?mem p))) s))" by blast
  let ?w = "write_calls s (pkt_d (?mem p))"
  have f: "m_calls s = m_calls st" "tcstatus_of (m_bulkio_time_stamp s) = ttv_status (ttv_on (mem p))"
    "m_current_ttv_flag s = m_current_ttv_flag st" "m_first_packet s = m_first_packet st"
    "octetStream s = octetStream st" "m_bps s = m_bps st" "coherent s = coherent st"
    "m_endianness s = m_endianness st" "same_config st s"
    using s same_config_frames(2) [OF s] stamp_packet_frame [of P "mem p" st]
    by (simp_all add: only_timing_def coherent_def) (simp add: same_config_def stamp_packet_def split: prod.splits)
  have "push_ok (count_packet (append_calls ?w s))" if p: "m_push_on_ttv st" "push_ok st"
  proof -
    have "\<forall>q. pend clean (m_calls st) q = None
        \<or> pend clean (m_calls st) q = Some (tcstatus_of (m_bulkio_time_stamp s))"
      using p push by (simp add: push_ok_def f)
    from write_calls_pend [OF this] p push run ok(2) show ?thesis
      by (simp add: push_ok_def f count_packet_def append_calls_def)
  qed
  moreover have "m_wait_for_ttv st \<longrightarrow> write_status TCS_VALID ?w"
    using wait write_status_calls(4) [of s "pkt_d (?mem p)"] by (auto simp: f)
  moreover have "proc_ok (count_packet (append_calls ?w s))"
    using ok(1) f by (simp add: proc_ok_def count_packet_def append_calls_def coherent_def)
  moreover have "m_calls (count_packet (append_calls ?w s)) = m_calls st @ ?w"
    "same_config st (count_packet (append_calls ?w s))"
    using f by (simp_all only: same_config_updates) (simp add: append_calls_def count_packet_def)
  ultimately have "turn_ok st (count_packet (append_calls ?w s))"
    unfolding turn_ok_def by auto
  from that [OF eq this touches_swapped] show thesis .
qed

lemma sri_and_push_turn:
  assumes ok: "proc_ok st" and run: "\<not> m_first_packet st"
    and wait: "m_wait_for_ttv st \<Longrightarrow> ttv_on (mem p)"
    and push: "m_push_on_ttv st \<Longrightarrow> m_current_ttv_flag st = ttv_on (mem p)"
  obtains out mem' st' where "sri_and_push P p mem st = Inr (out, mem', st')"
    "turn_ok st st'" "touches p mem mem'" "out = Refill \<Longrightarrow> mem' = mem"
proof -
  from ok have co: "coherent st" "bps_ok (m_bps st)" by (simp_all add: proc_ok_def)
  obtain ch s where r: "ready_packet P (mem p) st = (ch, s)" by fastforce
  note q = ready_packet_quiet [OF r]
  have s: "proc_ok s" "octetStream s" using q ok ready_packet_frame(3) [OF r co(1)]
    by (simp_all add: quiet_def)
  have same: "m_first_packet s = m_first_packet st" "m_wait_for_ttv s = m_wait_for_ttv st"
    "m_push_on_ttv s = m_push_on_ttv st" "m_current_ttv_flag s = m_current_ttv_flag st"
    using q by (simp_all add: quiet_def only_sri_def)
  note eq = sri_and_push_eq [where mem = mem and p = p, OF co r]
  show thesis
  proof (cases ch)
    case True
    let ?t = "append_calls (sri_calls s) s"
    let ?e = "(expect_steps (expected_rate s (mem p)) (pkt_cx (mem p)) ?t)\<lparr>m_last_sdds_time := time_zero\<rparr>"
    have "quiet st ?t" using q by (rule quiet_trans) (simp add: quiet_append)
    then have "turn_ok st ?t" using ok by (rule quiet_turn)
    then have "turn_ok st ?e" by (rule timing_turn) simp
    then show ?thesis using eq True by (intro that [of Refill mem ?e]) simp_all
  next
    case False
    obtain mem' st' where p: "push_packet P p mem s = Inr (Recycle, mem', st')"
      "turn_ok s st'" "touches p mem mem'"
      using push_packet_turn [OF s] run wait push same by metis
    have "turn_ok st st'" using quiet_turn [OF q ok] p(2) by (rule turn_ok_trans)
    with p eq False show ?thesis by (intro that [of Recycle mem' st']) simp_all
  qed
qed

text \<open>One turn of the loop: it faults only on a first packet with 1 to 7 bits per sample.\<close>

lemma process_packet_turn:
  assumes ok: "proc_ok st"
  shows "holds (\<lambda>e. e = DivideByZero \<and> m_first_packet st \<and> \<not> bps_ok (getBps (mem p)))
     (\<lambda>(out, mem', st'). turn_ok st st' \<and> touches p mem mem' \<and> (out = Refill \<longrightarrow> mem' = mem))
     (process_packet P p mem st)"
proof -
  let ?Q = "\<lambda>(out, mem', st'). turn_ok st st' \<and> touches p mem mem' \<and> (out = Refill \<longrightarrow> mem' = mem)"
  from ok have co: "coherent st" by (simp add: proc_ok_def)
  have ttv: "(get_ttv (mem p) \<noteq> 0) = ttv_on (mem p)" by (simp add: ttv_on_def)
  have go: "holds (\<lambda>_. False) ?Q
      (if m_push_on_ttv s \<and> m_current_ttv_flag s \<noteq> ttv_on (mem p) then
         bind_result (flush_streams (s\<lparr>m_current_ttv_flag := ttv_on (mem p)\<rparr>)) (\<lambda>st. Inr (Refill, mem, st))
       else sri_and_push P p mem s)"
    if t: "turn_ok st s" and run: "\<not> m_first_packet s"
      and wait: "\<not> (m_wait_for_ttv st \<and> \<not> ttv_on (mem p))" for s
  proof -
    have s: "proc_ok s" "m_wait_for_ttv s = m_wait_for_ttv st"
      using t by (simp_all add: turn_ok_def same_config_def)
    then have cs: "coherent (s\<lparr>m_current_ttv_flag := ttv_on (mem p)\<rparr>)"
      by (simp add: proc_ok_def coherent_def)
    have fl: "turn_ok s (append_calls (flush_calls s) (s\<lparr>m_current_ttv_flag := ttv_on (mem p)\<rparr>))"
      by (rule flush_turn [OF s(1), where f = "m_first_packet s"
          and c = "ttv_on (mem p)" and d = "m_pkts_dropped s"])
        (simp add: append_calls_def)
    have fc: "flush_calls (s\<lparr>m_current_ttv_flag := ttv_on (mem p)\<rparr>) = flush_calls s"
      by (simp add: flush_calls_def)
    show ?thesis
    proof (cases "m_push_on_ttv s \<and> m_current_ttv_flag s \<noteq> ttv_on (mem p)")
      case True
      then show ?thesis using turn_ok_trans [OF t fl] by (simp add: flush_streams_eq [OF cs] fc)
    next
      case False
      obtain out mem' st' where "sri_and_push P p mem s = Inr (out, mem', st')"
        "turn_ok s st'" "touches p mem mem'" "out = Refill \<Longrightarrow> mem' = mem"
        using sri_and_push_turn [OF s(1) run, of mem p P thesis] wait s(2) False by auto
      then show ?thesis using turn_ok_trans [OF t] False by auto
    qed
  qed
  have fl: "turn_ok st (append_calls (flush_calls st) st)"
    by (rule flush_turn [OF ok, where f = "m_first_packet st" and c = "m_current_ttv_flag st"
        and d = "m_pkts_dropped st"])
      (simp add: append_calls_def)
  have dr: "turn_ok st ((append_calls (flush_calls (dropped_state (mem p) st)) (dropped_state (mem p) st))
      \<lparr>m_first_packet := True\<rparr>)"
    by (rule flush_turn [OF ok, where f = True and c = "m_current_ttv_flag st"
        and d = "m_pkts_dropped (dropped_state (mem p) st)"])
      (simp add: append_calls_def dropped_state_def flush_calls_def)
  have cd: "coherent (dropped_state (mem p) st)" using co by (simp add: dropped_state_def coherent_def)
  show ?thesis
  proof (cases "m_wait_for_ttv st \<and> \<not> ttv_on (mem p)")
    case True
    then show ?thesis using fl by (simp add: process_packet_def ttv Let_def flush_streams_eq [OF co])
  next
    case wait: False
    then have body: "process_packet P p mem st = bind_result (orderIsValid (mem p) st) (\<lambda>(valid, st).
       if \<not> valid then
         bind_result (flush_streams st) (\<lambda>st. Inr (Refill, mem, st\<lparr>m_first_packet := True\<rparr>))
       else if m_push_on_ttv st \<and> m_current_ttv_flag st \<noteq> ttv_on (mem p) then
         bind_result (flush_streams (st\<lparr>m_current_ttv_flag := ttv_on (mem p)\<rparr>)) (\<lambda>st. Inr (Refill, mem, st))
       else sri_and_push P p mem st)"
      unfolding process_packet_def ttv Let_def by (simp only: wait if_False)
    show ?thesis
    proof (cases "m_first_packet st")
      case True
      show ?thesis
      proof (cases "bps_ok (getBps (mem p))")
        case bps: True
        have "holds (\<lambda>_. False) ?Q (process_packet P p mem st)"
          using go [OF first_state_turn [OF ok True bps] first_state_frame(2) wait]
          by (simp add: body orderIsValid_eq True bps)
        then show ?thesis by (rule holds_mono) auto
      next
        case False
        then show ?thesis by (simp add: body orderIsValid_eq True)
      qed
    next
      case first: False
      show ?thesis
      proof (cases "m_expected_seq_number st = get_seq (mem p)")
        case True
        have "holds (\<lambda>_. False) ?Q (process_packet P p mem st)"
          using go [OF turn_ok_refl [OF ok] first wait] by (simp add: body orderIsValid_eq True first)
        then show ?thesis by (rule holds_mono) auto
      next
        case False
        then show ?thesis
          using dr first by (simp add: body orderIsValid_eq flush_streams_eq [OF cd])
      qed
    qed
  qed
qed

section \<open>A pass over the work queue\<close>

text \<open>The headers of all packets stay, and so do the data of those not recycled.\<close>

definition same_headers :: "store \<Rightarrow> store \<Rightarrow> bool" where
  "same_headers mem mem' \<longleftrightarrow> (\<forall>q. (mem' q)\<lparr>pkt_d := []\<rparr> = (mem q)\<lparr>pkt_d := []\<rparr>
     \<and> length (pkt_d (mem' q)) = length (pkt_d (mem q)))"

lemma same_headers_refl [simp]: "same_headers mem mem"
  by (simp add: same_headers_def)

lemma same_headers_trans: "same_headers a b \<Longrightarrow> same_headers b c \<Longrightarrow> same_headers a c"
  by (simp add: same_headers_def)

lemma same_headers_fields:
  assumes "same_headers mem mem'"
  shows "getBps (mem' q) = getBps (mem q)" "get_seq (mem' q) = get_seq (mem q)"
    "ttv_on (mem' q) = ttv_on (mem q)" "get_rate (mem' q) = get_rate (mem q)"
    "pkt_cx (mem' q) = pkt_cx (mem q)" "get_SDDSTime (mem' q) = get_SDDSTime (mem q)"
    "pkt_freq (mem' q) = pkt_freq (mem q)"
proof -
  define hd_of where "hd_of p = p\<lparr>pkt_d := []\<rparr>" for p :: SDDSpacket
  have eq: "hd_of (mem' q) = hd_of (mem q)" using assms by (simp add: same_headers_def hd_of_def)
  have reads: "getBps (hd_of p) = getBps p" "get_seq (hd_of p) = get_seq p"
    "ttv_on (hd_of p) = ttv_on p" "get_rate (hd_of p) = get_rate p" "pkt_cx (hd_of p) = pkt_cx p"
    "get_SDDSTime (hd_of p) = get_SDDSTime p" "pkt_freq (hd_of p) = pkt_freq p" for p
    by (simp_all add: hd_of_def getBps_def get_seq_def ttv_on_def get_ttv_def get_rate_def
        get_SDDSTime_def)
  show "getBps (mem' q) = getBps (mem q)" "get_seq (mem' q) = get_seq (mem q)"
    "ttv_on (mem' q) = ttv_on (mem q)" "get_rate (mem' q) = get_rate (mem q)"
    "pkt_cx (mem' q) = pkt_cx (mem q)" "get_SDDSTime (mem' q) = get_SDDSTime (mem q)"
    "pkt_freq (mem' q) = pkt_freq (mem q)"
    using eq reads by metis+
qed

lemma touches_headers: "touches p mem mem' \<Longrightarrow> same_headers mem mem'"
  by (auto simp: touches_def same_headers_def)

lemma touches_other: "touches p mem mem' \<Longrightarrow> q \<noteq> p \<Longrightarrow> mem' q = mem q"
  by (auto simp: touches_def)

lemma processPackets_run:
  assumes "proc_ok st"
  shows "holds (\<lambda>e. e = DivideByZero \<and> (\<exists>p \<in> set work. \<not> bps_ok (getBps (mem p))))
     (\<lambda>(mem', st', work', rec'). turn_ok st st' \<and> same_headers mem mem' \<and>
        (\<exists>don. work = don @ work' \<and> rec' = rec @ don \<and> (\<forall>q. q \<notin> set don \<longrightarrow> mem' q = mem q)))
     (processPackets P mem st work rec)"
  using assms
proof (induction P mem st work rec rule: processPackets.induct)
  case (1 P mem st rec)
  then show ?case by (simp add: turn_ok_refl)
next
  case (2 P mem st p work rec)
  note turn = process_packet_turn [OF 2(2), of mem p P]
  show ?case
  proof (cases "process_packet P p mem st")
    case (Inl e)
    with turn show ?thesis by auto
  next
    case (Inr r)
    then obtain out mem1 st1 where r: "process_packet P p mem st = Inr (out, mem1, st1)"
      by (cases r) auto
    from turn have t: "turn_ok st st1" "touches p mem mem1" "out = Refill \<longrightarrow> mem1 = mem"
      by (simp_all add: r)
    note h = touches_headers [OF t(2)]
    show ?thesis
    proof (cases "out = Refill")
      case True
      with t show ?thesis by (simp add: r)
    next
      case False
      have "proc_ok st1" using t(1) by (simp add: turn_ok_def)
      from 2(1) [OF False this]
      show ?thesis
        unfolding processPackets.simps r bind_result.simps prod.case if_not_P [OF False]
      proof (rule holds_mono, goal_cases)
        case (1 x)
        then obtain mem' st' work' rec' don where x: "x = (mem', st', work', rec')"
          "turn_ok st1 st'" "same_headers mem1 mem'" "work = don @ work'" "rec' = (rec @ [p]) @ don"
          "\<forall>q. q \<notin> set don \<longrightarrow> mem' q = mem1 q" by auto
        then have "\<forall>q. q \<notin> set (p # don) \<longrightarrow> mem' q = mem q"
          using touches_other [OF t(2)] by auto
        with x have "p # work = (p # don) @ work' \<and> rec' = rec @ (p # don)
            \<and> (\<forall>q. q \<notin> set (p # don) \<longrightarrow> mem' q = mem q)" by simp
        then show ?case
          using x(1) turn_ok_trans [OF t(1) x(2)] same_headers_trans [OF h x(3)] by blast
      next
        case (2 e)
        then show ?case by (auto simp: same_headers_fields(1) [OF h])
      qed
    qed
  qed
qed

section \<open>Samples for the witnesses\<close>

definition sample_store :: store where
  "sample_store = (\<lambda>p. set_seq (of_nat p) sample_packet)"

lemma bps_ok_iff: "bps_ok b \<longleftrightarrow> b = 0 \<or> 8 \<le> b"
  by (simp add: bps_ok_def word_unat_eq_iff unat_div word_le_nat_alt) linarith

lemma sample_bps: "getBps (sample_store p) = 16" "pkt_freq (sample_store p) \<noteq> 0"
  by (simp_all add: sample_store_def sample_packet_def set_seq_def getBps_def net64.swap_eq_0)

lemma sample_ok: "proc_ok sample_processor"
  by (simp add: proc_ok_def sample_defs coherent_def bps_ok_def endian_defs)

lemma sample_total:
  "proc_ok st \<Longrightarrow> \<exists>mem' st' work' rec'. processPackets P sample_store st work rec = Inr (mem', st', work', rec')"
  using processPackets_run [where mem = sample_store and st = st and work = work and P = P and rec = rec]
  by (cases "processPackets P sample_store st work rec") (auto simp: sample_bps bps_ok_def)

section \<open>Properties\<close>

text \<open>C11: A pass over the work queue calls no method on a stream handle that holds no stream and
  reads nothing out of range: the only fault it can run into is the division by zero for a
  packet with 1 to 7 bits per sample. Otherwise the invariant of the processor (its three stream
  handles agree, its bits per sample are usable, its endianness is one of the two known ones)
  holds again, and the settings are as before.\<close>

theorem pass_faults_only_on_bad_bps:
  assumes "proc_ok st"
  shows "case processPackets P mem st work rec of
      Inl e \<Rightarrow> e = DivideByZero \<and> (\<exists>p \<in> set work. getBps (mem p) \<noteq> 0 \<and> getBps (mem p) < 8)
    | Inr (mem', st', work', rec') \<Rightarrow> proc_ok st' \<and> same_config st st'"
  using processPackets_run [where work = work and mem = mem and P = P and rec = rec, OF assms]
  by (auto split: sum.split simp: bps_ok_iff not_le turn_ok_def)

lemma pass_faults_only_on_bad_bps_witness:
  "(case processPackets sample_platform sample_store sample_processor [0, 1] [] of
      Inl e \<Rightarrow> False | Inr (mem', st', work', rec') \<Rightarrow> proc_ok st')"
proof -
  obtain mem' st' work' rec' where
    r: "processPackets sample_platform sample_store sample_processor [0, 1] [] = Inr (mem', st', work', rec')"
    using sample_total [OF sample_ok] by blast
  have "proc_ok st'"
    using pass_faults_only_on_bad_bps [where P = sample_platform and mem = sample_store
      and work = "[0, 1]" and rec = "[]", OF sample_ok]
    unfolding r by simp
  then show ?thesis unfolding r by simp
qed

text \<open>And it does run into it: the first packet of a stream with 1 to 7 bits per sample
  divides by zero, whatever the settings, unless the packet is skipped for its time tag flag.\<close>

theorem bad_bps_divides_by_zero:
  assumes "m_first_packet st" "getBps (mem p) \<noteq> 0" "getBps (mem p) < 8"
    "m_wait_for_ttv st \<longrightarrow> ttv_on (mem p)"
  shows "processPackets P mem st (p # work) rec = Inl DivideByZero"
proof -
  have "\<not> bps_ok (getBps (mem p))" using assms(2,3) by (simp add: bps_ok_iff)
  then show ?thesis
    using assms(1,4) by (auto simp: process_packet_def orderIsValid_eq ttv_on_def Let_def)
qed

lemma bad_bps_divides_by_zero_witness:
  "processPackets sample_platform (\<lambda>_. sample_packet\<lparr>pkt_bps := 4\<rparr>) sample_processor [0] []
     = Inl DivideByZero"
  by (rule bad_bps_divides_by_zero) (simp_all add: getBps_def sample_defs)

text \<open>C12: A pass takes packets from the front of the work queue and appends them, in the same
  order, to the recycle queue: no packet is lost, duplicated or overtaken, on no exit of the
  loop. The data of a packet that stays in the queue is untouched (it is not byte swapped
  twice), and no header changes.\<close>

theorem pass_keeps_packets_in_order:
  assumes "proc_ok st" "processPackets P mem st work rec = Inr (mem', st', work', rec')"
  shows "\<exists>don. work = don @ work' \<and> rec' = rec @ don
     \<and> (\<forall>q. q \<notin> set don \<longrightarrow> mem' q = mem q) \<and> same_headers mem mem'"
  using processPackets_run [where work = work and mem = mem and P = P and rec = rec, OF assms(1)] by (auto simp: assms(2))

lemma pass_keeps_packets_in_order_witness:
  "(case processPackets sample_platform sample_store sample_processor [0, 1] [7] of
      Inl e \<Rightarrow> False | Inr (mem', st', work', rec') \<Rightarrow> rec' @ work' = [7, 0, 1])"
proof -
  obtain mem' st' work' rec' where
    r: "processPackets sample_platform sample_store sample_processor [0, 1] [7] = Inr (mem', st', work', rec')"
    using sample_total [OF sample_ok] by blast
  from pass_keeps_packets_in_order [OF sample_ok r] r show ?thesis by auto
qed

text \<open>With wait-on-ttv set, everything a pass writes to BulkIO carries a valid time stamp.\<close>

theorem wait_for_ttv_writes_valid:
  assumes "proc_ok st" "m_wait_for_ttv st"
    "processPackets P mem st work rec = Inr (mem', st', work', rec')"
  shows "\<exists>cs. m_calls st' = m_calls st @ cs \<and> write_status TCS_VALID cs"
  using processPackets_run [where work = work and mem = mem and P = P and rec = rec, OF assms(1)] assms(2)
  by (auto simp: assms(3) turn_ok_def)

lemma wait_for_ttv_writes_valid_witness:
  "(case processPackets sample_platform sample_store (setWaitForTTV True sample_processor) [0, 1] [] of
      Inl e \<Rightarrow> False | Inr (mem', st', work', rec') \<Rightarrow> write_status TCS_VALID (m_calls st'))"
proof -
  let ?st = "setWaitForTTV True sample_processor"
  have ok: "proc_ok ?st" "m_wait_for_ttv ?st" "m_calls ?st = []"
    using sample_ok by (auto simp: setWaitForTTV_def proc_ok_def coherent_def sample_defs)
  obtain mem' st' work' rec' where
    r: "processPackets sample_platform sample_store ?st [0, 1] [] = Inr (mem', st', work', rec')"
    using sample_total [OF ok(1)] by blast
  from wait_for_ttv_writes_valid [OF ok(1,2) r] r ok(3) show ?thesis by auto
qed

text \<open>With push-on-ttv set, data with a valid and data with an invalid time stamp never share
  a push: on every port, between two writes of different time stamp status the port is
  flushed or closed.\<close>

theorem push_on_ttv_separates:
  assumes "proc_ok st" "m_push_on_ttv st" "push_ok st"
    "processPackets P mem st work rec = Inr (mem', st', work', rec')"
  shows "push_ok st' \<and> separated clean (m_calls st')"
proof -
  have "push_ok st'"
    using processPackets_run [where work = work and mem = mem and P = P and rec = rec, OF assms(1)] assms(2,3)
    by (auto simp: assms(4) turn_ok_def)
  then show ?thesis by (simp add: push_ok_def)
qed

lemma push_on_ttv_separates_witness:
  "(case processPackets sample_platform sample_store (setPushOnTTV True sample_processor) [0, 1] [] of
      Inl e \<Rightarrow> False | Inr (mem', st', work', rec') \<Rightarrow> separated clean (m_calls st'))"
proof -
  let ?st = "setPushOnTTV True sample_processor"
  have ok: "proc_ok ?st" "m_push_on_ttv ?st" "push_ok ?st"
    using sample_ok by (auto simp: setPushOnTTV_def proc_ok_def coherent_def sample_defs push_ok_def)
  obtain mem' st' work' rec' where
    r: "processPackets sample_platform sample_store ?st [0, 1] [] = Inr (mem', st', work', rec')"
    using sample_total [OF ok(1)] by blast
  from push_on_ttv_separates [OF ok r] r show ?thesis by auto
qed

end
