(* ===== verification/Processor_Atomic.thy ===== *)
theory Processor_Atomic
  imports Processor_Invariants
begin

text \<open>
  Why the work on one packet is one step of the pipeline. While a packet is worked on, other threads
  may hand the processor a new upstream SRI or tell it to stop; \<open>raced_packet\<close> lets them do so between
  any two operations of \<open>processPackets\<close>. Only the section under \<open>m_upstream_sri_lock\<close> reads what they
  write, so what happens before that section might as well have happened before the packet, and the
  rest after it. Taking the upstream SRI away is different: \<open>unsetUpstreamSri\<close> writes \<open>m_sri\<close> and
  \<open>m_endianness\<close>, which the processing thread reads without the lock.
\<close>

section \<open>What other threads do meanwhile\<close>

datatype 'a interference = NewSri "'a StreamSRI" | StopFlag

fun act1 :: "'a interference \<Rightarrow> 'a processor \<Rightarrow> 'a processor" where
  "act1 (NewSri up) st = setUpstreamSri up st"
| "act1 StopFlag st = shutDown st"

definition act :: "'a interference list \<Rightarrow> 'a processor \<Rightarrow> 'a processor" where
  "act gs st = fold act1 gs st"

lemma act_simps [simp]:
  "act [] st = st" "act (g # gs) st = act gs (act1 g st)" "act hs (act gs st) = act (gs @ hs) st"
  by (simp_all add: act_def)

text \<open>The packet loop for one packet, with the interference \<open>gs i\<close> at its \<open>i\<close>-th gap.\<close>

definition raced_push ::
    "'a platform \<Rightarrow> (nat \<Rightarrow> 'a interference list) \<Rightarrow> ptr \<Rightarrow> store \<Rightarrow> 'a processor
      \<Rightarrow> (outcome \<times> store \<times> 'a processor) result" where
  "raced_push P gs p mem st = (let st = act (gs 4) (stamp_packet P (mem p) st) in
     bind_result (checkForTimeSlip (mem p) st) (\<lambda>st.
     bind_result (write_packet p mem (act (gs 5) st)) (\<lambda>(mem, st).
     Inr (Recycle, mem, act (gs 7) (count_packet (act (gs 6) st))))))"

definition raced_sri_and_push ::
    "'a platform \<Rightarrow> (nat \<Rightarrow> 'a interference list) \<Rightarrow> ptr \<Rightarrow> store \<Rightarrow> 'a processor
      \<Rightarrow> (outcome \<times> store \<times> 'a processor) result" where
  "raced_sri_and_push P gs p mem st =
     bind_result (take_upstream_sri P st) (\<lambda>(sriChanged, st).
     let (sriChanged, st) = merge_packet_sri (mem p) sriChanged (act (gs 2) st) in
     bind_result (if octetStream st then Inr (act (gs 3) st) else createOutputStreams P (act (gs 3) st)) (\<lambda>st.
     if sriChanged then
       bind_result (pushSri (act (gs 4) st)) (\<lambda>st.
       bind_result (updateExpectedXdelta (expected_rate st (mem p)) (pkt_cx (mem p)) (act (gs 5) st)) (\<lambda>st.
       Inr (Refill, mem, (act (gs 6) st)\<lparr>m_last_sdds_time := time_zero\<rparr>)))
     else raced_push P gs p mem st))"

definition raced_packet ::
    "'a platform \<Rightarrow> (nat \<Rightarrow> 'a interference list) \<Rightarrow> ptr \<Rightarrow> store \<Rightarrow> 'a processor
      \<Rightarrow> (outcome \<times> store \<times> 'a processor) result" where
  "raced_packet P gs p mem st = (let ttv = (get_ttv (mem p) \<noteq> 0) in
     if m_wait_for_ttv st \<and> \<not> ttv then
       bind_result (flush_streams (act (gs 0) st)) (\<lambda>st. Inr (Recycle, mem, act (gs 1) st))
     else bind_result (orderIsValid (mem p) st) (\<lambda>(valid, st).
       let st = act (gs 0) st in
       if \<not> valid then
         bind_result (flush_streams st) (\<lambda>st. Inr (Refill, mem, (act (gs 1) st)\<lparr>m_first_packet := True\<rparr>))
       else if m_push_on_ttv st \<and> m_current_ttv_flag st \<noteq> ttv then
         bind_result (flush_streams (st\<lparr>m_current_ttv_flag := ttv\<rparr>)) (\<lambda>st. Inr (Refill, mem, act (gs 1) st))
       else raced_sri_and_push P gs p mem (act (gs 1) st)))"

section \<open>The operations that do not notice\<close>

lemma act_fields1 [simp]:
  "m_wait_for_ttv (act1 g st) = m_wait_for_ttv st" "m_push_on_ttv (act1 g st) = m_push_on_ttv st"
  "m_current_ttv_flag (act1 g st) = m_current_ttv_flag st" "octetStream (act1 g st) = octetStream st"
  "m_non_conforming_device (act1 g st) = m_non_conforming_device st"
  by (cases g; simp add: setUpstreamSri_def shutDown_def)+

lemma act_fields [simp]:
  "m_wait_for_ttv (act gs st) = m_wait_for_ttv st" "m_push_on_ttv (act gs st) = m_push_on_ttv st"
  "m_current_ttv_flag (act gs st) = m_current_ttv_flag st" "octetStream (act gs st) = octetStream st"
  "expected_rate (act gs st) pkt = expected_rate st pkt"
  by (induction gs arbitrary: st) (simp_all add: expected_rate_def)

text \<open>One act commutes with each operation outside the locked section.\<close>

lemma pure1 [simp]:
  "stamp_packet P pkt (act1 g st) = act1 g (stamp_packet P pkt st)"
  "count_packet (act1 g st) = act1 g (count_packet st)"
  "(act1 g st)\<lparr>m_first_packet := b\<rparr> = act1 g (st\<lparr>m_first_packet := b\<rparr>)"
  "(act1 g st)\<lparr>m_current_ttv_flag := b\<rparr> = act1 g (st\<lparr>m_current_ttv_flag := b\<rparr>)"
  "(act1 g st)\<lparr>m_last_sdds_time := t\<rparr> = act1 g (st\<lparr>m_last_sdds_time := t\<rparr>)"
  "(act1 g st)\<lparr>m_calls := cs\<rparr> = act1 g (st\<lparr>m_calls := cs\<rparr>)"
  by (cases g; simp add: setUpstreamSri_def shutDown_def stamp_packet_def count_packet_def split: prod.splits)+

lemma calls1: "call_on q c (act1 g st) = bind_result (call_on q c st) (\<lambda>st. Inr (act1 g st))"
  by (cases g; cases q; simp add: call_on_def setUpstreamSri_def shutDown_def)

lemma flush1: "flush_streams (act1 g st) = bind_result (flush_streams st) (\<lambda>st. Inr (act1 g st))"
  by (simp add: flush_streams_def calls1 bind_result_assoc)

lemma create1: "createOutputStreams P (act1 g st) = bind_result (createOutputStreams P st) (\<lambda>st. Inr (act1 g st))"
proof -
  have "close_stream P q (act1 g s) = act1 g (close_stream P q s)"
    "create_stream q (act1 g s) = act1 g (create_stream q s)" "m_pkts_per_read (act1 g s) = m_pkts_per_read s" for q s
    by (cases g; cases q; simp add: close_stream_def create_stream_def setUpstreamSri_def shutDown_def)+
  then show ?thesis
    by (simp add: createOutputStreams_def close_streams_def Let_def calls1 bind_result_assoc)
qed

lemma pushSri1: "pushSri (act1 g st) = bind_result (pushSri st) (\<lambda>st. Inr (act1 g st))"
  by (cases g; simp add: pushSri_def call_on_def setUpstreamSri_def shutDown_def)

lemma xdelta1: "updateExpectedXdelta r c (act1 g st) = bind_result (updateExpectedXdelta r c st) (\<lambda>st. Inr (act1 g st))"
  by (cases g; simp add: updateExpectedXdelta_def setUpstreamSri_def shutDown_def Let_def)

lemma order1: "orderIsValid pkt (act1 g st) = bind_result (orderIsValid pkt st) (\<lambda>(v, st). Inr (v, act1 g st))"
proof -
  have fields: "m_first_packet (act1 g s) = m_first_packet s" "m_pkts_dropped (act1 g s) = m_pkts_dropped s"
    "m_expected_seq_number (act1 g s) = m_expected_seq_number s"
    "(act1 g s)\<lparr>m_expected_seq_number := n\<rparr> = act1 g (s\<lparr>m_expected_seq_number := n\<rparr>)"
    "(act1 g s)\<lparr>m_bps := b\<rparr> = act1 g (s\<lparr>m_bps := b\<rparr>)"
    "(act1 g s)\<lparr>m_pkts_dropped := d\<rparr> = act1 g (s\<lparr>m_pkts_dropped := d\<rparr>)" for s n b d
    by (cases g; simp add: setUpstreamSri_def shutDown_def)+
  show ?thesis
    by (simp add: orderIsValid_def Let_def fields expected_rate_def xdelta1 bind_result_assoc)
qed

lemma write1: "write_packet p mem (act1 g st) = bind_result (write_packet p mem st) (\<lambda>(mem, st). Inr (mem, act1 g st))"
proof -
  have fields: "m_bps (act1 g st) = m_bps st" "m_bulkio_time_stamp (act1 g st) = m_bulkio_time_stamp st"
    "swap_data f (act1 g st) p mem = swap_data f st p mem" for f
    by (cases g; simp add: setUpstreamSri_def shutDown_def swap_data_def)+
  show ?thesis by (simp add: write_packet_def Let_def fields calls1 bind_result_assoc)
qed

lemma merge1: "merge_packet_sri pkt ch (act1 g st) = map_prod id (act1 g) (merge_packet_sri pkt ch st)"
  by (cases g; simp add: merge_packet_sri_def setUpstreamSri_def shutDown_def Let_def split: prod.splits)

lemma step1: "check_time_step d pkt (act1 g st) = bind_result (check_time_step d pkt st) (\<lambda>(v, st). Inr (v, act1 g st))"
proof -
  have "step_out_of_range d (act1 g s) = step_out_of_range d s" "m_current_sample_rate (act1 g s) = m_current_sample_rate s"
    "looks_non_conforming d pkt (act1 g s) = looks_non_conforming d pkt s"
    "(act1 g s)\<lparr>m_non_conforming_device := b\<rparr> = act1 g (s\<lparr>m_non_conforming_device := b\<rparr>)" for s b
    by (cases g; simp add: step_out_of_range_def looks_non_conforming_def setUpstreamSri_def shutDown_def)+
  then show ?thesis by (simp add: check_time_step_def Let_def xdelta1 bind_result_assoc)
qed

lemma accumulate1: "accumulate_error d b (act1 g st) = map_prod id (act1 g) (accumulate_error d b st)"
  by (cases g; simp add: accumulate_error_def setUpstreamSri_def shutDown_def Let_def)

lemma slip1: "checkForTimeSlip pkt (act1 g st) = bind_result (checkForTimeSlip pkt st) (\<lambda>st. Inr (act1 g st))"
proof -
  have fields: "m_last_sdds_time (act1 g st) = m_last_sdds_time st" "m_num_time_slips (act1 g s) = m_num_time_slips s"
    "(act1 g s)\<lparr>m_num_time_slips := n\<rparr> = act1 g (s\<lparr>m_num_time_slips := n\<rparr>)" for s n
    by (cases g; simp add: setUpstreamSri_def shutDown_def)+
  show ?thesis
    by (cases "check_time_step (dsub (seconds (get_SDDSTime pkt)) (seconds (m_last_sdds_time st))) pkt
          (st\<lparr>m_last_sdds_time := get_SDDSTime pkt\<rparr>)")
      (auto simp: checkForTimeSlip_def fields step1 accumulate1 Let_def split: prod.splits)
qed

text \<open>So do any number of them.\<close>

lemma act_commutes:
  "stamp_packet P pkt (act gs st) = act gs (stamp_packet P pkt st)"
  "count_packet (act gs st) = act gs (count_packet st)"
  "(act gs st)\<lparr>m_first_packet := b\<rparr> = act gs (st\<lparr>m_first_packet := b\<rparr>)"
  "(act gs st)\<lparr>m_current_ttv_flag := b\<rparr> = act gs (st\<lparr>m_current_ttv_flag := b\<rparr>)"
  "(act gs st)\<lparr>m_last_sdds_time := t\<rparr> = act gs (st\<lparr>m_last_sdds_time := t\<rparr>)"
  by (induction gs arbitrary: st) simp_all

lemma act_merge:
  "merge_packet_sri pkt ch st = (c, st') \<Longrightarrow> merge_packet_sri pkt ch (act gs st) = (c, act gs st')"
  by (induction gs arbitrary: st st') (simp_all add: merge1)

lemma commutes_list:
  assumes "\<And>g st. f (act1 g st) = bind_result (f st) (\<lambda>st. Inr (act1 g st))"
  shows "f (act gs st) = bind_result (f st) (\<lambda>st. Inr (act gs st))"
proof (induction gs arbitrary: st)
  case Nil
  then show ?case by (cases "f st") simp_all
next
  case (Cons g gs)
  then show ?case using assms [of g st] by (cases "f st") simp_all
qed

lemma commutes_list_pair:
  assumes "\<And>g st. f (act1 g st) = bind_result (f st) (\<lambda>(x, st). Inr (x, act1 g st))"
  shows "f (act gs st) = bind_result (f st) (\<lambda>(x, st). Inr (x, act gs st))"
proof (induction gs arbitrary: st)
  case Nil
  then show ?case by (cases "f st") auto
next
  case (Cons g gs)
  then show ?case using assms [of g st] by (cases "f st") auto
qed

lemmas act_results = commutes_list [of flush_streams, OF flush1] commutes_list [of "createOutputStreams P" for P, OF create1]
  commutes_list [of pushSri, OF pushSri1] commutes_list [of "updateExpectedXdelta r c" for r c, OF xdelta1]
  commutes_list [of "checkForTimeSlip pkt" for pkt, OF slip1]
  commutes_list_pair [of "orderIsValid pkt" for pkt, OF order1] commutes_list_pair [of "write_packet p mem" for p mem, OF write1]

section \<open>Moving them to the ends\<close>

lemma push_commutes:
  "push_packet P p mem (act hs st) = bind_result (push_packet P p mem st) (\<lambda>(out, mem, st). Inr (out, mem, act hs st))"
  by (simp add: push_packet_def act_results act_commutes bind_result_assoc case_prod_unfold)

lemma raced_push_eq:
  "raced_push P gs p mem st = bind_result (push_packet P p mem st)
     (\<lambda>(out, mem, st). Inr (out, mem, act (gs 4 @ gs 5 @ gs 6 @ gs 7) st))"
  by (cases "checkForTimeSlip (mem p) (stamp_packet P (mem p) st)")
    (auto simp: raced_push_def push_packet_def act_results act_commutes Let_def bind_result_assoc case_prod_unfold)

lemma raced_sri_and_push_eq:
  "\<exists>k\<ge>2. raced_sri_and_push P gs p mem st = bind_result (sri_and_push P p mem st)
     (\<lambda>(out, mem, st). Inr (out, mem, act (concat (map gs [2 ..< k])) st))"
proof (cases "take_upstream_sri P st")
  case (Inl e)
  then show ?thesis by (auto simp: raced_sri_and_push_def sri_and_push_def)
next
  case (Inr r)
  then obtain c s where u: "take_upstream_sri P st = Inr (c, s)" by (cases r) auto
  obtain ch t where m: "merge_packet_sri (mem p) c s = (ch, t)" by fastforce
  let ?open = "if octetStream t then Inr t else createOutputStreams P t"
  have opened: "(if octetStream (act (gs 2) t) then Inr (act (gs 3) (act (gs 2) t))
      else createOutputStreams P (act (gs 3) (act (gs 2) t))) = bind_result ?open (\<lambda>t. Inr (act (gs 2 @ gs 3) t))"
    by (simp add: act_results)
  show ?thesis
  proof (cases ch)
    case True
    have "raced_sri_and_push P gs p mem st = bind_result (sri_and_push P p mem st)
        (\<lambda>(out, mem, st). Inr (out, mem, act (concat (map gs [2 ..< 7])) st))"
      unfolding raced_sri_and_push_def sri_and_push_def u bind_result.simps prod.case m act_merge [OF m] Let_def opened
      by (simp add: True bind_result_assoc act_results act_commutes)
    then show ?thesis by (intro exI [of _ 7]) simp
  next
    case False
    have "raced_sri_and_push P gs p mem st = bind_result (sri_and_push P p mem st)
        (\<lambda>(out, mem, st). Inr (out, mem, act (concat (map gs [2 ..< 8])) st))"
      unfolding raced_sri_and_push_def sri_and_push_def u bind_result.simps prod.case m act_merge [OF m] Let_def opened
      by (simp add: False bind_result_assoc raced_push_eq push_commutes case_prod_unfold)
    then show ?thesis by (intro exI [of _ 8]) simp
  qed
qed

section \<open>Property\<close>

text \<open>C7: The work on one packet may be taken as one step: let other threads set a new upstream SRI or
  the flag of a stop, any number of times, between any two operations of \<open>processPackets\<close> on a packet.
  Then the packets, the outcome and the processor are those of \<open>process_packet\<close> in one go, with a
  first part of what the others did done before it and the rest, in the same order, after it.\<close>


theorem packet_work_is_atomic:
  "\<exists>k before after. before @ after = concat (map gs [0 ..< k])
     \<and> raced_packet P gs p mem st = bind_result (process_packet P p mem (act before st))
         (\<lambda>(out, mem, st). Inr (out, mem, act after st))"
proof -
  let ?ttv = "get_ttv (mem p) \<noteq> 0"
  have two: "[] @ (gs 0 @ gs 1) = concat (map gs [0 ..< 2])" by (simp add: numeral_2_eq_2)
  show ?thesis
  proof (cases "m_wait_for_ttv st \<and> \<not> ?ttv")
    case True
    have "raced_packet P gs p mem st = bind_result (process_packet P p mem (act [] st))
         (\<lambda>(out, mem, st). Inr (out, mem, act (gs 0 @ gs 1) st))"
      unfolding raced_packet_def process_packet_def Let_def if_P [OF True] by (simp add: True act_results bind_result_assoc)
    with two show ?thesis by blast
  next
    case wait: False
    show ?thesis
    proof (cases "orderIsValid (mem p) st")
      case (Inl e)
      then have "raced_packet P gs p mem st = bind_result (process_packet P p mem (act [] st))
         (\<lambda>(out, mem, st). Inr (out, mem, act [] st))"
        unfolding raced_packet_def process_packet_def Let_def if_not_P [OF wait] using wait by auto
      then show ?thesis by (intro exI [of _ 0] exI [of _ "[]"]) simp
    next
      case (Inr r)
      then obtain valid s where o: "orderIsValid (mem p) st = Inr (valid, s)" by (cases r) auto
      show ?thesis
      proof (cases "\<not> valid \<or> m_push_on_ttv s \<and> m_current_ttv_flag s \<noteq> ?ttv")
        case True
        then have "raced_packet P gs p mem st = bind_result (process_packet P p mem (act [] st))
           (\<lambda>(out, mem, st). Inr (out, mem, act (gs 0 @ gs 1) st))"
          unfolding raced_packet_def process_packet_def Let_def if_not_P [OF wait]
          using wait by (auto simp: o act_results act_commutes bind_result_assoc)
        with two show ?thesis by blast
      next
        case False
        obtain k where k: "2 \<le> k" "raced_sri_and_push P gs p mem (act (gs 0 @ gs 1) s)
            = bind_result (sri_and_push P p mem (act (gs 0 @ gs 1) s))
              (\<lambda>(out, mem, st). Inr (out, mem, act (concat (map gs [2 ..< k])) st))"
          using raced_sri_and_push_eq by blast
        have "raced_packet P gs p mem st = raced_sri_and_push P gs p mem (act (gs 0 @ gs 1) s)"
          using False unfolding raced_packet_def Let_def if_not_P [OF wait] by (auto simp: o)
        moreover have "process_packet P p mem (act (gs 0 @ gs 1) st) = sri_and_push P p mem (act (gs 0 @ gs 1) s)"
          using False wait unfolding process_packet_def Let_def by (auto simp: o act_results)
        moreover have "[0 ..< k] = [0 ..< 2] @ [2 ..< k]"
          using upt_add_eq_append [of 0 2 "k - 2"] by (simp only: le_add_diff_inverse [OF k(1)] le0)
        then have "(gs 0 @ gs 1) @ concat (map gs [2 ..< k]) = concat (map gs [0 ..< k])"
          using two by (metis append_Nil concat_append map_append)
        ultimately show ?thesis using k(2) by metis
      qed
    qed
  qed
qed

end
