(* ===== verification/Processor_Progress.thy ===== *)
theory Processor_Progress
  imports Processor_Invariants
begin

text \<open>
  Termination and progress of the processor: a pass that returns early without consuming the
  packet at the head of the queue does so at most twice in a row.
\<close>

section \<open>Progress\<close>

text \<open>
  \<open>accepts\<close>: the order and flag tests let the packet through. \<open>sri_quiet\<close>: the packet brings no
  change of the SRI.
\<close>

definition accepts :: "SDDSpacket \<Rightarrow> 'a processor \<Rightarrow> bool" where
  "accepts pkt st \<longleftrightarrow> m_first_packet st \<or> (m_expected_seq_number st = get_seq pkt
     \<and> (m_push_on_ttv st \<longrightarrow> m_current_ttv_flag st = ttv_on pkt))"

definition sri_quiet :: "SDDSpacket \<Rightarrow> 'a processor \<Rightarrow> bool" where
  "sri_quiet pkt st \<longleftrightarrow> \<not> (m_upstream_sri_set st \<and> m_new_upstream_sri st)
     \<and> (m_use_upstream_sri st \<or> sri_settled pkt (m_non_conforming_device st) (m_sri st))"

lemma upstream_merged_flags:
  "upstream_merged P st = (ch, s) \<Longrightarrow> \<not> (m_upstream_sri_set s \<and> m_new_upstream_sri s)"
  by (auto simp: upstream_merged_def opened_def append_calls_def Let_def split: prod.splits if_splits)

lemma ready_packet_sri_quiet:
  assumes "sri_quiet pkt st"
  shows "ready_packet P pkt st = (False, ensure_open st)"
proof -
  have "upstream_merged P st = (False, st)"
    using assms by (auto simp: upstream_merged_def sri_quiet_def)
  moreover have "merge_packet_sri pkt False st = (False, st)"
    using assms by (auto simp: merge_packet_sri_def sri_quiet_def mergeSddsSRI_settled)
  ultimately show ?thesis by (simp add: ready_packet_def)
qed

lemma ready_packet_settles:
  assumes "ready_packet P pkt st = (ch, s)" "pkt_freq pkt \<noteq> 0"
  shows "sri_quiet pkt s"
proof -
  obtain c1 s1 where u: "upstream_merged P st = (c1, s1)" by fastforce
  obtain c2 s2 where m: "merge_packet_sri pkt c1 s1 = (c2, s2)" by fastforce
  have s: "s = ensure_open s2" using assms(1) by (simp add: ready_packet_def u m)
  have "sri_quiet pkt s2"
  proof (cases "m_use_upstream_sri s1")
    case True
    with m upstream_merged_flags [OF u] show ?thesis by (auto simp: merge_packet_sri_def sri_quiet_def)
  next
    case False
    obtain sri c where sri: "mergeSddsSRI pkt (m_sri s1) c1 (m_non_conforming_device s1) = (sri, c)"
      by fastforce
    with m False have "s2 = s1\<lparr>m_sri := sri\<rparr>" by (simp add: merge_packet_sri_def)
    with mergeSddsSRI_settles [OF assms(2) sri] upstream_merged_flags [OF u] show ?thesis
      by (auto simp: sri_quiet_def)
  qed
  then show ?thesis by (simp add: s ensure_open_def sri_quiet_def opened_def append_calls_def)
qed

lemma ready_refill_state:
  assumes "ready_packet P pkt st = (ch, s)" "pkt_freq pkt \<noteq> 0"
  shows "sri_quiet pkt ((expect_steps r c (append_calls cs s))\<lparr>m_last_sdds_time := t\<rparr>)"
  using ready_packet_settles [OF assms] by (simp add: sri_quiet_def expect_steps_def append_calls_def Let_def)

text \<open>A packet the tests let through is recycled, or the SRI is sent and it is let through again.\<close>

lemma sri_and_push_progress:
  assumes ok: "proc_ok st" and run: "\<not> m_first_packet st" and acc: "accepts (mem p) st"
    and freq: "pkt_freq (mem p) \<noteq> 0" and res: "sri_and_push P p mem st = Inr (out, mem', st')"
  shows "out = Recycle \<or> (\<not> sri_quiet (mem p) st \<and> \<not> m_first_packet st' \<and> accepts (mem p) st' \<and> sri_quiet (mem p) st')"
proof -
  from ok have co: "coherent st" "bps_ok (m_bps st)" by (simp_all add: proc_ok_def)
  obtain ch s where r: "ready_packet P (mem p) st = (ch, s)" by fastforce
  note frame = ready_packet_frame [OF r co(1)]
  note eq = sri_and_push_eq [where mem = mem and p = p, OF co r]
  show ?thesis
  proof (cases ch)
    case True
    then have st': "st' = (expect_steps (expected_rate s (mem p)) (pkt_cx (mem p))
        (append_calls (sri_calls s) s))\<lparr>m_last_sdds_time := time_zero\<rparr>"
      using res by (auto simp: eq)
    then have "sri_quiet (mem p) st'" using ready_refill_state [OF r freq] by simp
    moreover have "\<not> sri_quiet (mem p) st"
      using ready_packet_sri_quiet [of "mem p" st P] r True by auto
    moreover have "\<not> m_first_packet st' \<and> accepts (mem p) st'"
      using acc run frame(1) by (simp add: st' accepts_def only_sri_def expect_steps_def append_calls_def Let_def)
    ultimately show ?thesis by blast
  next
    case False
    have "bps_ok (m_bps s)" using frame(1) co(2) by (simp add: only_sri_def)
    from push_packet_eq [OF frame(2,3) this, of mem p P] res False show ?thesis
      by (auto simp: eq)
  qed
qed

lemma process_packet_accepted:
  assumes ok: "proc_ok st" and acc: "accepts (mem p) st" and freq: "pkt_freq (mem p) \<noteq> 0"
    and res: "process_packet P p mem st = Inr (out, mem', st')"
  shows "out = Recycle \<or> \<not> m_first_packet st' \<and> accepts (mem p) st' \<and> sri_quiet (mem p) st'"
    "sri_quiet (mem p) st \<Longrightarrow> \<not> m_first_packet st \<Longrightarrow> out = Recycle"
proof -
  from ok have co: "coherent st" by (simp add: proc_ok_def)
  have ttv: "(get_ttv (mem p) \<noteq> 0) = ttv_on (mem p)" by (simp add: ttv_on_def)
  consider (wait) "m_wait_for_ttv st \<and> \<not> ttv_on (mem p)"
    | (first) "\<not> (m_wait_for_ttv st \<and> \<not> ttv_on (mem p))" "m_first_packet st"
    | (later) "\<not> (m_wait_for_ttv st \<and> \<not> ttv_on (mem p))" "\<not> m_first_packet st" by blast
  then have "(out = Recycle \<or> \<not> m_first_packet st' \<and> accepts (mem p) st' \<and> sri_quiet (mem p) st')
      \<and> (sri_quiet (mem p) st \<longrightarrow> \<not> m_first_packet st \<longrightarrow> out = Recycle)"
  proof cases
    case wait
    then show ?thesis using res by (simp add: process_packet_def ttv Let_def flush_streams_eq [OF co])
  next
    case first
    let ?s = "first_state (mem p) st"
    have bps: "bps_ok (getBps (mem p))"
      using res first by (auto simp: process_packet_def ttv Let_def orderIsValid_eq split: if_splits)
    have s: "proc_ok ?s" "accepts (mem p) ?s"
      using first_state_turn [OF ok first(2) bps] first_state_frame [where st = st and pkt = "mem p"]
      by (simp_all add: turn_ok_def accepts_def)
    have "process_packet P p mem st = sri_and_push P p mem ?s"
      unfolding process_packet_def ttv Let_def
      by (simp only: first if_False orderIsValid_eq bps if_True bind_result.simps prod.case
          first_state_frame not_True_eq_False) simp
    then have "sri_and_push P p mem ?s = Inr (out, mem', st')" using res by simp
    from sri_and_push_progress [OF s(1) first_state_frame(2) s(2) freq this] first show ?thesis by blast
  next
    case later
    then have a: "m_expected_seq_number st = get_seq (mem p)"
      "\<not> (m_push_on_ttv st \<and> m_current_ttv_flag st \<noteq> ttv_on (mem p))"
      using acc by (auto simp: accepts_def)
    have "process_packet P p mem st = sri_and_push P p mem st"
      unfolding process_packet_def ttv Let_def
      by (simp only: later a if_False orderIsValid_eq bind_result.simps prod.case) (use a in auto)
    then have "sri_and_push P p mem st = Inr (out, mem', st')" using res by simp
    from sri_and_push_progress [OF ok later(2) acc freq this] show ?thesis by blast
  qed
  then show "out = Recycle \<or> \<not> m_first_packet st' \<and> accepts (mem p) st' \<and> sri_quiet (mem p) st'"
    "sri_quiet (mem p) st \<Longrightarrow> \<not> m_first_packet st \<Longrightarrow> out = Recycle" by blast+
qed

lemma process_packet_refused:
  assumes ok: "proc_ok st" and acc: "\<not> accepts (mem p) st"
    and res: "process_packet P p mem st = Inr (out, mem', st')"
  shows "out = Recycle \<or> accepts (mem p) st'"
proof -
  from ok have co: "coherent st" "coherent (dropped_state (mem p) st)"
    "coherent (st\<lparr>m_current_ttv_flag := c\<rparr>)" for c
    by (simp_all add: proc_ok_def coherent_def dropped_state_def)
  have ttv: "(get_ttv (mem p) \<noteq> 0) = ttv_on (mem p)" by (simp add: ttv_on_def)
  show ?thesis
  proof (cases "m_wait_for_ttv st \<and> \<not> ttv_on (mem p)")
    case True
    then show ?thesis using res by (simp add: process_packet_def ttv Let_def flush_streams_eq [OF co(1)])
  next
    case False
    then show ?thesis
      using res acc unfolding process_packet_def ttv Let_def accepts_def
      by (auto simp: orderIsValid_eq flush_streams_eq [OF co(2)] flush_streams_eq [OF co(3)]
          append_calls_def split: if_splits)
  qed
qed

text \<open>\<open>n\<close> passes in a row, with nothing done from outside in between.\<close>

fun passes :: "nat \<Rightarrow> 'a platform \<Rightarrow> store \<Rightarrow> 'a processor \<Rightarrow> ptr list \<Rightarrow> ptr list
    \<Rightarrow> (store \<times> 'a processor \<times> ptr list \<times> ptr list) result" where
  "passes 0 P mem st work rec = Inr (mem, st, work, rec)"
| "passes (Suc n) P mem st work rec =
     bind_result (processPackets P mem st work rec)
       (\<lambda>(mem, st, work, rec). passes n P mem st work rec)"

definition work_ok :: "store \<Rightarrow> ptr list \<Rightarrow> bool" where
  "work_ok mem work \<longleftrightarrow> (\<forall>p \<in> set work. bps_ok (getBps (mem p)) \<and> pkt_freq (mem p) \<noteq> 0)"

text \<open>A pass over packets with usable headers returns; it recycles the head or leaves all.\<close>

lemma processPackets_head:
  assumes ok: "proc_ok st" and w: "work_ok mem (p # work)"
  obtains (moved) mem' st' work' rec' don where
      "processPackets P mem st (p # work) rec = Inr (mem', st', work', rec')"
      "p # work = don @ work'" "rec' = rec @ don" "don \<noteq> []" "proc_ok st'" "same_headers mem mem'"
    | (stays) st' where "processPackets P mem st (p # work) rec = Inr (mem, st', p # work, rec)"
      "process_packet P p mem st = Inr (Refill, mem, st')" "proc_ok st'"
proof -
  have run: "holds (\<lambda>e. False) (\<lambda>(mem', st', work', rec'). turn_ok st st' \<and> same_headers mem mem' \<and>
        (\<exists>don. p # work = don @ work' \<and> rec' = rec @ don \<and> (\<forall>q. q \<notin> set don \<longrightarrow> mem' q = mem q)))
     (processPackets P mem st (p # work) rec)"
    by (rule holds_mono [OF processPackets_run [OF ok]]) (use w in \<open>auto simp: work_ok_def\<close>)
  from holds_total [OF this] obtain x where x: "processPackets P mem st (p # work) rec = Inr x"
    "case x of (mem', st', work', rec') \<Rightarrow> turn_ok st st' \<and> same_headers mem mem' \<and>
        (\<exists>don. p # work = don @ work' \<and> rec' = rec @ don \<and> (\<forall>q. q \<notin> set don \<longrightarrow> mem' q = mem q))"
    by blast
  obtain mem' st' work' rec' where t: "x = (mem', st', work', rec')" by (rule prod_cases4)
  from x(2) [unfolded t prod.case] obtain don where d:
    "turn_ok st st'" "same_headers mem mem'" "p # work = don @ work'" "rec' = rec @ don" by blast
  note r = x(1) [unfolded t] d(3,4,1,2)
  from d(1) have pr: "proc_ok st'" by (simp add: turn_ok_def)
  show thesis
  proof (cases "don = []")
    case False
    with r pr show ?thesis by (intro moved) auto
  next
    case True
    obtain out mem1 st1 where pp: "process_packet P p mem st = Inr (out, mem1, st1)"
      using r(1) by (cases "process_packet P p mem st") auto
    have "out = Refill"
    proof (rule ccontr)
      assume o: "out \<noteq> Refill"
      have "turn_ok st st1" using process_packet_turn [OF ok, of mem p P] by (simp add: pp)
      then have "proc_ok st1" by (simp add: turn_ok_def)
      from processPackets_run [where work = work and mem = mem1 and P = P and rec = "rec @ [p]", OF this] r(1) o True r(3)
      show False by (auto simp: pp)
    qed
    moreover have "mem1 = mem" using process_packet_turn [OF ok, of mem p P] calculation by (simp add: pp)
    ultimately show ?thesis using r pp True pr by (intro stays [of st']) auto
  qed
qed

definition moves :: "nat \<Rightarrow> 'a platform \<Rightarrow> store \<Rightarrow> 'a processor \<Rightarrow> ptr list \<Rightarrow> ptr list \<Rightarrow> bool" where
  "moves k P mem st work rec \<longleftrightarrow> (\<exists>mem' st' work' rec' don.
     passes k P mem st work rec = Inr (mem', st', work', rec') \<and> work = don @ work'
     \<and> rec' = rec @ don \<and> don \<noteq> [] \<and> proc_ok st' \<and> same_headers mem mem')"

lemma moves_one:
  assumes "proc_ok st" "work_ok mem (p # work)"
  obtains "moves 1 P mem st (p # work) rec"
    | st' where "process_packet P p mem st = Inr (Refill, mem, st')" "proc_ok st'"
  using assms
proof (cases rule: processPackets_head [where P = P and rec = rec])
  case (moved mem' st' work' rec' don)
  have "moves 1 P mem st (p # work) rec"
    unfolding moves_def One_nat_def passes.simps moved(1) bind_result.simps prod.case
    using moved(2-) by blast
  then show thesis by (rule that)
next
  case (stays st')
  then show thesis by (intro that(2))
qed

lemma moves_Suc:
  assumes "process_packet P p mem st = Inr (Refill, mem, st')" "moves k P mem st' (p # work) rec"
  shows "moves (Suc k) P mem st (p # work) rec"
  using assms unfolding moves_def by simp

text \<open>At most three passes are needed: lost packets or a flag change, then a new SRI, then it is written.\<close>

lemma passes_progress:
  assumes ok: "proc_ok st" and w: "work_ok mem (p # work)"
  shows "\<exists>k \<in> {1, 2, 3}. moves k P mem st (p # work) rec"
proof -
  have freq: "pkt_freq (mem p) \<noteq> 0" using w by (simp add: work_ok_def)
  note accepted = process_packet_accepted [where mem = mem and p = p, OF _ _ freq]
  have three: "moves 1 P mem s (p # work) rec"
    if s: "proc_ok s" "accepts (mem p) s" "sri_quiet (mem p) s" "\<not> m_first_packet s" for s
    using s(1) w
  proof (cases rule: moves_one [where P = P and rec = rec])
    case (2 s')
    from accepted(2) [OF s(1,2) this(1) s(3,4)] show ?thesis by simp
  qed
  have two: "\<exists>k \<in> {1, 2}. moves k P mem s (p # work) rec"
    if s: "proc_ok s" "accepts (mem p) s" for s
    using s(1) w
  proof (cases rule: moves_one [where P = P and rec = rec])
    case (2 s')
    with accepted(1) [OF s 2(1)] have "moves 1 P mem s' (p # work) rec" by (intro three) auto
    from moves_Suc [OF 2(1) this] show ?thesis by (simp add: numeral_2_eq_2)
  qed simp
  from ok w show ?thesis
  proof (cases rule: moves_one [where P = P and rec = rec])
    case (2 s')
    have "accepts (mem p) s'"
      using process_packet_refused [where mem = mem and p = p, OF ok _ 2(1)]
        accepted(1) [OF ok _ 2(1)] by blast
    from two [OF 2(2) this] obtain k where "k \<in> {1, 2}" "moves k P mem s' (p # work) rec" by blast
    with moves_Suc [OF 2(1)] show ?thesis by (auto simp: numeral_2_eq_2 numeral_3_eq_3)
  qed simp
qed

lemma passes_add:
  "passes (j + k) P mem st work rec =
     bind_result (passes j P mem st work rec) (\<lambda>(mem, st, work, rec). passes k P mem st work rec)"
proof (induction j P mem st work rec rule: passes.induct)
  case (2 n P mem st work rec)
  then show ?case
    by (cases "processPackets P mem st work rec") auto
qed simp

lemma passes_Nil: "passes k P mem st [] rec = Inr (mem, st, [], rec)"
  by (induction k) simp_all

text \<open>So a work queue of \<open>n\<close> packets is processed completely within \<open>3 n\<close> passes.\<close>

lemma passes_complete:
  assumes "proc_ok st" "work_ok mem work"
  shows "\<exists>mem' st'. passes (3 * length work) P mem st work rec = Inr (mem', st', [], rec @ work)
     \<and> proc_ok st' \<and> same_headers mem mem'"
  using assms
proof (induction "length work" arbitrary: mem st work rec rule: less_induct)
  case less
  show ?case
  proof (cases work)
    case Nil
    then show ?thesis using less.prems by simp
  next
    case (Cons p ps)
    from passes_progress [OF less.prems(1), of mem p ps P rec] less.prems(2) Cons
    obtain k where k: "k \<in> {1, 2, 3}" "moves k P mem st work rec" by auto
    then obtain mem1 st1 work1 don where m: "passes k P mem st work rec = Inr (mem1, st1, work1, rec @ don)"
      "work = don @ work1" "don \<noteq> []" "proc_ok st1" "same_headers mem mem1"
      unfolding moves_def by blast
    have "work_ok mem1 work1"
      using less.prems(2) m(2) by (simp add: work_ok_def same_headers_fields [OF m(5)])
    moreover have "length work1 < length work" using m by simp
    ultimately obtain mem2 st2 where r:
      "passes (3 * length work1) P mem1 st1 work1 (rec @ don) = Inr (mem2, st2, [], (rec @ don) @ work1)"
      "proc_ok st2" "same_headers mem1 mem2"
      using less.hyps m(4) by blast
    have "k \<le> 3" using k(1) by auto
    moreover have "3 * length work1 + 3 \<le> 3 * length work"
      using m(2,3) by (cases don) auto
    ultimately have "k + 3 * length work1 \<le> 3 * length work" by linarith
    then obtain j where j: "3 * length work = k + 3 * length work1 + j" by (rule less_eqE)
    have "passes (3 * length work) P mem st work rec = Inr (mem2, st2, [], rec @ work)"
      by (simp add: j passes_add m(1) r(1) passes_Nil) (simp add: m(2))
    then show ?thesis using r(2) same_headers_trans [OF m(5) r(3)] by blast
  qed
qed

section \<open>Properties\<close>

text \<open>C10: Progress: from any state of the processor, a work queue of \<open>n\<close> packets with a usable
  number of bits per sample and a nonzero frequency is processed completely, in order and
  without a fault, within \<open>3 n\<close> passes: no setting, gap in the sequence numbers, flag change or
  SRI change keeps the processor from getting past a packet. (With a zero frequency it
  does not: the SRI never settles.)\<close>

theorem work_queue_completes:
  assumes "proc_ok st" "work_ok mem work"
  shows "\<exists>mem' st'. passes (3 * length work) P mem st work [] = Inr (mem', st', [], work)
     \<and> proc_ok st' \<and> same_headers mem mem'"
  using passes_complete [OF assms, of P "[]"] by simp

lemma sample_work_ok: "work_ok sample_store work"
  by (simp add: work_ok_def sample_bps bps_ok_iff)

lemma work_queue_completes_witness:
  "\<exists>mem' st'. passes 6 sample_platform sample_store (setPushOnTTV True sample_processor) [3, 9] []
     = Inr (mem', st', [], [3, 9])"
proof -
  have "proc_ok (setPushOnTTV True sample_processor)"
    using sample_ok by (auto simp: setPushOnTTV_def proc_ok_def coherent_def)
  from work_queue_completes [OF this sample_work_ok, of "[3, 9]" sample_platform] show ?thesis by auto
qed

text \<open>A packet with a zero frequency word, once streaming without an upstream override, is
  never consumed: every pass sends the SRI once more and leaves the packet at the head of the
  queue.\<close>

theorem zero_frequency_stalls:
  assumes "proc_ok st" "\<not> m_first_packet st" "accepts (mem p) st" "pkt_freq (mem p) = 0"
    "\<not> m_use_upstream_sri st" "\<not> m_new_upstream_sri st" "m_wait_for_ttv st \<longrightarrow> ttv_on (mem p)"
  shows "\<exists>st'. processPackets P mem st (p # work) rec = Inr (mem, st', p # work, rec)
     \<and> proc_ok st' \<and> \<not> m_first_packet st' \<and> accepts (mem p) st'
     \<and> \<not> m_use_upstream_sri st' \<and> \<not> m_new_upstream_sri st' \<and> m_wait_for_ttv st' = m_wait_for_ttv st"
proof -
  from assms(1) have co: "coherent st" "bps_ok (m_bps st)" by (simp_all add: proc_ok_def)
  have ttv: "(get_ttv (mem p) \<noteq> 0) = ttv_on (mem p)" by (simp add: ttv_on_def)
  obtain ch s where r: "ready_packet P (mem p) st = (ch, s)" by fastforce
  have u: "upstream_merged P st = (False, st)" using assms(6) by (simp add: upstream_merged_def)
  obtain sri c where m: "mergeSddsSRI (mem p) (m_sri st) False (m_non_conforming_device st) = (sri, c)"
    by fastforce
  have "c" using zero_rate_never_settles [OF assms(4)] mergeSddsSRI_changed_iff
    by (metis m snd_conv)
  then have ch: "ch" and s: "s = ensure_open (st\<lparr>m_sri := sri\<rparr>)"
    using r assms(5) m by (simp_all add: ready_packet_def u merge_packet_sri_def)
  let ?t = "(expect_steps (expected_rate s (mem p)) (pkt_cx (mem p))
      (append_calls (sri_calls s) s))\<lparr>m_last_sdds_time := time_zero\<rparr>"
  have body: "process_packet P p mem st = Inr (Refill, mem, ?t)"
    using sri_and_push_eq [where mem = mem and p = p, OF co r] ch assms(2,3,7)
    unfolding process_packet_def ttv Let_def accepts_def by (auto simp: orderIsValid_eq)
  have "turn_ok st ?t" using process_packet_turn [OF assms(1), of mem p P] by (simp add: body)
  moreover have "\<not> m_first_packet ?t \<and> accepts (mem p) ?t \<and> \<not> m_use_upstream_sri ?t
      \<and> \<not> m_new_upstream_sri ?t \<and> m_wait_for_ttv ?t = m_wait_for_ttv st"
    using assms(2,3,5,6)
    by (simp add: s ensure_open_def opened_def append_calls_def expect_steps_def accepts_def Let_def)
  ultimately show ?thesis by (auto simp: body turn_ok_def)
qed

lemma zero_frequency_stalls_witness:
  "(case processPackets sample_platform (\<lambda>_. sample_packet\<lparr>pkt_freq := 0\<rparr>)
      (sample_processor\<lparr>m_first_packet := False, m_bps := 16\<rparr>) [5] [] of
      Inl e \<Rightarrow> False | Inr (mem', st', work', rec') \<Rightarrow> work' = [5])"
proof -
  let ?mem = "\<lambda>_. sample_packet\<lparr>pkt_freq := 0\<rparr>"
  let ?st = "sample_processor\<lparr>m_first_packet := False, m_bps := 16\<rparr>"
  have "proc_ok ?st" using sample_ok by (simp add: proc_ok_def coherent_def bps_ok_iff)
  moreover have "accepts (?mem 5) ?st"
    by (simp add: accepts_def sample_defs get_seq_def sample_packet_def wire_simps)
  moreover have "\<not> m_first_packet ?st" "pkt_freq (?mem 5) = 0" "\<not> m_use_upstream_sri ?st"
    "\<not> m_new_upstream_sri ?st" "m_wait_for_ttv ?st \<longrightarrow> ttv_on (?mem 5)"
    by (simp_all add: sample_defs)
  ultimately obtain st' where
    e: "processPackets sample_platform ?mem ?st [5] [] = Inr (?mem, st', [5], [])"
    using zero_frequency_stalls [where mem = ?mem and p = 5 and st = ?st and P = sample_platform
      and work = "[]" and rec = "[]"] by blast
  show ?thesis unfolding e by simp
qed

end
