(* ===== verification/Socket_Reader.thy ===== *)
theory Socket_Reader
  imports Sdds_Packet Packet_Buffer
begin

text \<open>
  The class \<open>SocketReader\<close>: the thread that receives datagrams with \<open>recvmmsg\<close> into empty
  packet buffers and hands the full ones on. The kernel is outside: what a system call returns
  is an argument of the operation that makes the call. \<open>errno\<close> is explicit state, because the
  read loop switches on it and not on the result of the call. Setting up the socket
  (\<open>setConnectionInfo\<close>, \<open>getMcastIfaceFromRoutes\<close>) is in \<open>Connection\<close>; logging is left out.
\<close>

section \<open>State\<close>

record reader =
  r_shuttingDown :: bool
  r_running :: bool
  r_timeout :: int
  r_host_addr :: u32
  r_pkts_per_read :: u64
  r_socket_buffer_size :: u64
  r_multicast_sock :: int
  r_unicast_sock :: int
  r_interface :: string

definition new_reader :: reader where
  "new_reader = \<lparr>r_shuttingDown = False, r_running = False, r_timeout = 1, r_host_addr = 0,
     r_pkts_per_read = 1, r_socket_buffer_size = - 1, r_multicast_sock = 0, r_unicast_sock = 0,
     r_interface = ''''\<rparr>"

definition reader_shutDown :: "reader \<Rightarrow> reader" where
  "reader_shutDown r = r\<lparr>r_shuttingDown := True, r_running := False\<rparr>"

definition reader_setPktsPerRead :: "u64 \<Rightarrow> reader \<Rightarrow> reader" where
  "reader_setPktsPerRead n r = (if r_running r then r else r\<lparr>r_pkts_per_read := n\<rparr>)"

definition reader_getPktsPerRead :: "reader \<Rightarrow> u64" where
  "reader_getPktsPerRead = r_pkts_per_read"

text \<open>The argument is an \<open>int\<close>, the member a \<open>size_t\<close>: negative sizes become huge ones.\<close>

definition setSocketBufferSize :: "int \<Rightarrow> reader \<Rightarrow> reader" where
  "setSocketBufferSize n r = (if r_running r then r else r\<lparr>r_socket_buffer_size := of_int n\<rparr>)"

definition getSocketBufferSize :: "reader \<Rightarrow> u64" where
  "getSocketBufferSize = r_socket_buffer_size"

definition getInterface :: "reader \<Rightarrow> string" where
  "getInterface = r_interface"

section \<open>Blocking mode\<close>

definition O_NONBLOCK :: u32 where "O_NONBLOCK = 0x800"

text \<open>
  \<open>getfl\<close> is what \<open>fcntl (fd, F_GETFL)\<close> returns and \<open>setfl\<close> the result of \<open>F_SETFL\<close> for the flags
  handed to it. The result of the model: success, and the flags that were set, if any.
\<close>

definition setSocketBlockingEnabled ::
    "int \<Rightarrow> (u32 \<Rightarrow> int) \<Rightarrow> int \<Rightarrow> bool \<Rightarrow> bool \<times> u32 option" where
  "setSocketBlockingEnabled getfl setfl fd blocking =
     (if fd < 0 then (False, None)
      else if getfl < 0 then (False, None)
      else let flags = (of_int getfl :: u32);
        flags = (if blocking then flags AND NOT O_NONBLOCK else flags OR O_NONBLOCK)
        in (setfl flags = 0, Some flags))"

section \<open>Confirming the sender\<close>

text \<open>The loop over the senders of a batch: the new \<open>m_host_addr\<close> and the number of warnings.\<close>

fun confirmSingleHost :: "u32 list \<Rightarrow> u32 \<Rightarrow> nat \<Rightarrow> u32 \<times> nat" where
  "confirmSingleHost [] host warned = (host, warned)"
| "confirmSingleHost (a # as) host warned =
     (if a \<noteq> host then confirmSingleHost as a (if host \<noteq> 0 then warned + 1 else warned)
      else confirmSingleHost as host warned)"

section \<open>The thread\<close>

text \<open>
  The local variables of \<open>run\<close> that live across turns of the loop: \<open>errno\<close>, the buffers the reader
  holds and where the kernel will write the next datagrams.
\<close>

record read_loop =
  rl_errno :: int
  rl_bufQue :: "ptr list"
  rl_iov :: "ptr list"

definition EAGAIN :: int where "EAGAIN = 11"
definition EINTR :: int where "EINTR = 4"

text \<open>
  The lines before the loop up to the buffers. \<open>e_fcntl\<close> and \<open>e_setopt\<close> are the values the two
  calls leave in \<open>errno\<close> (0 when they succeed), \<open>rcvbuf\<close> the size \<open>getsockopt\<close> reports: the
  kernel writes an \<open>int\<close>, the low half of the 64-bit member.
\<close>

definition store_rcvbuf :: "u32 \<Rightarrow> u64 \<Rightarrow> u64" where
  "store_rcvbuf rcvbuf old = (old AND NOT (mask 32)) OR ucast rcvbuf"

definition reader_begin :: "int \<Rightarrow> int \<Rightarrow> u32 \<Rightarrow> reader \<Rightarrow> int \<times> reader" where
  "reader_begin e_fcntl e_setopt rcvbuf r = (let
     r = r\<lparr>r_shuttingDown := False, r_running := True\<rparr>;
     errno = (if e_fcntl \<noteq> 0 then e_fcntl else 0);
     errno = (if r_socket_buffer_size r \<noteq> 0 \<and> e_setopt \<noteq> 0 then e_setopt else errno)
     in (errno, r\<lparr>r_socket_buffer_size := store_rcvbuf rcvbuf (r_socket_buffer_size r)\<rparr>))"

text \<open>The first buffers; None while \<open>pop_empty_buffers\<close> blocks.\<close>

definition reader_fill ::
    "int \<Rightarrow> reader \<Rightarrow> packet_buffer \<Rightarrow> (read_loop \<times> packet_buffer) result option" where
  "reader_fill errno r buf = (let n = unat (r_pkts_per_read r) in
     case pop_empty_buffers [] n buf of None \<Rightarrow> None
     | Some (bufQue, buf) \<Rightarrow> Some (
         if length bufQue < n then Inl OutOfRange
         else Inr (\<lparr>rl_errno = errno, rl_bufQue = bufQue, rl_iov = take n bufQue\<rparr>, buf)))"

text \<open>
  \<open>recvmmsg\<close>: a batch of datagrams with their senders, or an error number. The kernel copies each
  datagram over the first bytes of its buffer, at most 1080, and leaves the rest of the buffer.
\<close>

datatype received = Received "(u32 \<times> u8 list) list" | RecvError int

definition overwrite :: "u8 list \<Rightarrow> SDDSpacket \<Rightarrow> SDDSpacket" where
  "overwrite d pkt = packet_of_bytes (take 1080 d @ drop (length (take 1080 d)) (bytes_of_packet pkt))"

fun store_datagrams :: "ptr list \<Rightarrow> u8 list list \<Rightarrow> store \<Rightarrow> store" where
  "store_datagrams (p # ps) (d # ds) mem = store_datagrams ps ds (mem(p := overwrite d (mem p)))"
| "store_datagrams _ _ mem = mem"

text \<open>
  What has arrived then: the packets as they stand in the buffers \<open>q\<close>. Of a full datagram it is the packet
  the sender wrote, of a shorter one its bytes before those of the packet the buffer held.
\<close>

definition received_packets :: "ptr list \<Rightarrow> store \<Rightarrow> received \<Rightarrow> SDDSpacket list" where
  "received_packets q mem rcv = (case rcv of
     Received ms \<Rightarrow> map (\<lambda>((a, d), p). overwrite d (mem p)) (zip ms q) | RecvError e \<Rightarrow> [])"

text \<open>
  One turn of the loop has two halves, since the refill may block: \<open>reader_receive\<close> (the system
  call, the switch on \<open>errno\<close>, the push of what arrived) and \<open>reader_refill\<close>. The first returns
  the number of buffers to refill, or None when the turn is over.
\<close>

definition reader_receive ::
    "bool \<Rightarrow> received \<Rightarrow> reader \<Rightarrow> read_loop \<Rightarrow> store \<Rightarrow> packet_buffer
      \<Rightarrow> (nat option \<times> reader \<times> read_loop \<times> store \<times> packet_buffer) result" where
  "reader_receive confirmHosts rcv r l mem buf = (let
     errno = (case rcv of Received _ \<Rightarrow> rl_errno l | RecvError e \<Rightarrow> e);
     n = (case rcv of Received ms \<Rightarrow> length ms | RecvError _ \<Rightarrow> 2 ^ 64 - 1);
     mem = (case rcv of Received ms \<Rightarrow> store_datagrams (rl_iov l) (map snd ms) mem | RecvError _ \<Rightarrow> mem);
     l = l\<lparr>rl_errno := errno\<rparr>
     in if errno = 0 then
          bind_result (push_full_buffers (rl_bufQue l) n buf) (\<lambda>(bufQue, buf).
          Inr (Some n, r, l\<lparr>rl_bufQue := bufQue\<rparr>, mem, buf))
        else if errno = EAGAIN then Inr (None, r, l\<lparr>rl_errno := 0\<rparr>, mem, buf)
        else Inr (None, r\<lparr>r_shuttingDown := True, r_running := False\<rparr>, l, mem, buf))"

definition reader_refill ::
    "bool \<Rightarrow> u32 list \<Rightarrow> nat \<Rightarrow> reader \<Rightarrow> read_loop \<Rightarrow> packet_buffer
      \<Rightarrow> (reader \<times> read_loop \<times> packet_buffer) result option" where
  "reader_refill confirmHosts senders n r l buf =
     (case pop_empty_buffers (rl_bufQue l) (unat (r_pkts_per_read r)) buf of None \<Rightarrow> None
      | Some (bufQue, buf) \<Rightarrow> Some (
          if length bufQue < n then Inl OutOfRange
          else let l = l\<lparr>rl_bufQue := bufQue, rl_iov := take n bufQue @ drop n (rl_iov l)\<rparr>;
            r = (if confirmHosts
                 then r\<lparr>r_host_addr := fst (confirmSingleHost (take n senders) (r_host_addr r) 0)\<rparr> else r)
            in Inr (r, l, buf)))"

definition reader_end :: "reader \<Rightarrow> read_loop \<Rightarrow> packet_buffer \<Rightarrow> reader \<times> read_loop \<times> packet_buffer" where
  "reader_end r l buf = (let (bufQue, buf) = recycle_buffers (rl_bufQue l) buf in
     (r\<lparr>r_running := False, r_multicast_sock := 0, r_unicast_sock := 0\<rparr>, l\<lparr>rl_bufQue := bufQue\<rparr>, buf))"

section \<open>Writing datagrams into buffers\<close>

lemma store_datagrams_other:
  "q \<notin> set (take (length ds) ps) \<Longrightarrow> store_datagrams ps ds mem q = mem q"
  by (induction ps ds mem rule: store_datagrams.induct) auto

lemma store_datagrams_nth:
  assumes "distinct ps" "i < length ds" "i < length ps"
  shows "store_datagrams ps ds mem (ps ! i) = overwrite (ds ! i) (mem (ps ! i))"
  using assms
proof (induction ps ds mem arbitrary: i rule: store_datagrams.induct)
  case (1 p ps d ds mem)
  show ?case
  proof (cases i)
    case 0
    have "p \<notin> set (take (length ds) ps)" using 1 by (auto dest: in_set_takeD)
    then show ?thesis using 0 by (simp add: store_datagrams_other)
  next
    case (Suc j)
    then have "ps ! j \<noteq> p" using 1 nth_mem [of j ps] by auto
    moreover have "store_datagrams ps ds (mem(p := overwrite d (mem p))) (ps ! j)
        = overwrite (ds ! j) ((mem(p := overwrite d (mem p))) (ps ! j))"
      by (rule "1.IH") (use 1 Suc in auto)
    ultimately show ?thesis using Suc by simp
  qed
qed auto

lemma overwrite_full: "length d = 1080 \<Longrightarrow> wf_packet pkt \<Longrightarrow> overwrite d pkt = packet_of_bytes d"
  by (simp add: overwrite_def length_bytes_of_packet)

lemma overwrite_bytes:
  assumes "wf_packet pkt" "length d \<le> 1080"
  shows "bytes_of_packet (overwrite d pkt) = d @ drop (length d) (bytes_of_packet pkt)"
    "wf_packet (overwrite d pkt)"
  using assms by (simp_all add: overwrite_def bytes_packet_inverse length_bytes_of_packet wf_packet_of_bytes)

text \<open>A batch of full datagrams: the first buffers then hold its packets.\<close>

lemma store_datagrams_batch:
  assumes "distinct q" "length ms \<le> length q"
  shows "map (store_datagrams q (map snd ms) mem) (take (length ms) q) = received_packets q mem (Received ms)"
proof (rule nth_equalityI)
  fix i
  assume "i < length (map (store_datagrams q (map snd ms) mem) (take (length ms) q))"
  then have i: "i < length ms" "i < length q" using assms(2) by auto
  then show "map (store_datagrams q (map snd ms) mem) (take (length ms) q) ! i = received_packets q mem (Received ms) ! i"
    using store_datagrams_nth [OF assms(1), of i "map snd ms" mem]
    by (simp add: received_packets_def case_prod_unfold)
qed (use assms(2) in \<open>simp add: received_packets_def\<close>)

lemma received_full:
  assumes "length ms \<le> length q" "\<forall>p. wf_packet (mem p)" "\<forall>(a, d) \<in> set ms. length d = 1080"
  shows "received_packets q mem (Received ms) = map (packet_of_bytes \<circ> snd) ms"
proof (rule nth_equalityI)
  fix i
  assume "i < length (received_packets q mem (Received ms))"
  then have i: "i < length ms" "i < length q" by (simp_all add: received_packets_def)
  then have "length (snd (ms ! i)) = 1080"
    using assms(3) nth_mem [OF i(1)] by (auto simp: case_prod_unfold)
  then show "received_packets q mem (Received ms) ! i = map (packet_of_bytes \<circ> snd) ms ! i"
    using i assms(2) by (simp add: received_packets_def case_prod_unfold overwrite_full)
qed (use assms(1) in \<open>simp add: received_packets_def\<close>)

lemma overwrite_wf: "wf_packet pkt \<Longrightarrow> wf_packet (overwrite d pkt)"
  by (auto simp: overwrite_def length_bytes_of_packet min_def intro!: wf_packet_of_bytes)

lemma store_datagrams_wf:
  "\<forall>p. wf_packet (mem p) \<Longrightarrow> wf_packet (store_datagrams ps ds mem q)"
proof (induction ps ds mem rule: store_datagrams.induct)
  case (1 p ps d ds mem)
  then have "\<forall>q. wf_packet ((mem(p := overwrite d (mem p))) q)" by (simp add: overwrite_wf)
  then show ?case by (simp only: store_datagrams.simps) (rule "1.IH")
qed simp_all

section \<open>The reader's buffers\<close>

text \<open>Between two turns the reader holds \<open>n\<close> distinct buffers and the kernel's table points to them.\<close>

definition reader_ok :: "nat \<Rightarrow> read_loop \<Rightarrow> bool" where
  "reader_ok n l \<longleftrightarrow> length (rl_bufQue l) = n \<and> rl_iov l = rl_bufQue l \<and> distinct (rl_bufQue l)"

text \<open>Between the halves: the buffers that were handed on are missing at the front.\<close>

definition reader_handed :: "nat \<Rightarrow> nat \<Rightarrow> read_loop \<Rightarrow> bool" where
  "reader_handed n k l \<longleftrightarrow> k \<le> n \<and> length (rl_iov l) = n \<and> rl_bufQue l = drop k (rl_iov l)"

lemma reader_receive_happy:
  assumes "reader_ok n l" "rl_errno l = 0" "\<not> buf_shuttingDown buf" "length ms \<le> n"
  shows "reader_receive c (Received ms) r l mem buf =
     Inr (Some (length ms), r, l\<lparr>rl_bufQue := drop (length ms) (rl_bufQue l)\<rparr>,
       store_datagrams (rl_bufQue l) (map snd ms) mem,
       buf\<lparr>buf_full := buf_full buf @ take (length ms) (rl_bufQue l)\<rparr>)"
  using assms by (simp add: reader_receive_def reader_ok_def push_full_buffers_def Let_def)

lemma reader_refill_happy:
  assumes h: "reader_handed n k l" and run: "\<not> buf_shuttingDown buf"
    and n: "n = unat (r_pkts_per_read r)" and res: "reader_refill c senders k r l buf = Some res"
  obtains r' l' new buf' where "res = Inr (r', l', buf')" "rl_bufQue l' = new @ rl_bufQue l"
    "rl_iov l' = rl_bufQue l'" "length (rl_bufQue l') = n" "mset new + pooled_buffers buf' = pooled_buffers buf"
    "buf_full buf' = buf_full buf" "rl_errno l' = rl_errno l" "r_pkts_per_read r' = r_pkts_per_read r"
    "\<not> buf_shuttingDown buf'" "r_shuttingDown r' = r_shuttingDown r" "buf_empty buf = new @ buf_empty buf'"
proof -
  obtain q b where pop: "pop_empty_buffers (rl_bufQue l) n buf = Some (q, b)"
    using res unfolding reader_refill_def n by (auto split: option.splits)
  have len: "length (rl_bufQue l) = n - k" "k \<le> n" using h by (auto simp: reader_handed_def)
  from spb.pop_empty_shape [OF pop run] obtain new where new: "q = new @ rl_bufQue l"
    "mset new + pooled_buffers b = pooled_buffers buf" "buf_full b = buf_full buf"
    "length (rl_bufQue l) \<le> n \<longrightarrow> length q = n" "\<not> buf_shuttingDown b" by blast
  have lq: "length q = n" using new(4) len by simp
  have e: "buf_empty buf = new @ buf_empty b"
    using pop new(1) run by (auto simp: pop_empty_buffers_def Let_def split: if_splits)
  have "length new = k" using new(1) lq len by simp
  then have iov: "take k q @ drop k (rl_iov l) = q" using h new(1) by (simp add: reader_handed_def)
  let ?r = "if c then r\<lparr>r_host_addr := fst (confirmSingleHost (take k senders) (r_host_addr r) 0)\<rparr> else r"
  let ?l = "l\<lparr>rl_bufQue := q, rl_iov := q\<rparr>"
  have r: "res = Inr (?r, ?l, b)"
    using res pop lq len(2) unfolding reader_refill_def n [symmetric]
    by (simp add: Let_def iov)
  have l: "rl_bufQue ?l = new @ rl_bufQue l" "rl_iov ?l = rl_bufQue ?l" "length (rl_bufQue ?l) = n"
    "rl_errno ?l = rl_errno l" "r_pkts_per_read ?r = r_pkts_per_read r"
    "r_shuttingDown ?r = r_shuttingDown r"
    using new(1) lq by simp_all
  show thesis by (rule that [OF r l(1-3) new(2,3) l(4,5) new(5) l(6) e])
qed

lemma reader_handed_after:
  "reader_ok n l \<Longrightarrow> k \<le> n \<Longrightarrow> reader_handed n k (l\<lparr>rl_bufQue := drop k (rl_bufQue l)\<rparr>)"
  by (simp add: reader_ok_def reader_handed_def)

section \<open>Properties\<close>

text \<open>C29: A batch of datagrams, of any lengths, reaches the full queue in the order it arrived: the first
  buffers the reader holds are appended to it, the \<open>i\<close>-th of them holds the \<open>i\<close>-th datagram, the
  buffers behind them stay with the reader, and no other packet changes. Full datagrams are the packets
  their senders wrote.\<close>

theorem batch_delivered_in_order:
  assumes "reader_ok n l" "rl_errno l = 0" "\<not> buf_shuttingDown buf" "length ms \<le> n" "\<forall>p. wf_packet (mem p)"
  shows "\<exists>l' mem' buf'. reader_receive c (Received ms) r l mem buf = Inr (Some (length ms), r, l', mem', buf')
     \<and> rl_bufQue l' = drop (length ms) (rl_bufQue l)
     \<and> buf_full buf' = buf_full buf @ take (length ms) (rl_bufQue l)
     \<and> map mem' (take (length ms) (rl_bufQue l)) = received_packets (rl_bufQue l) mem (Received ms)
     \<and> ((\<forall>(a, d) \<in> set ms. length d = 1080) \<longrightarrow>
          map mem' (take (length ms) (rl_bufQue l)) = map (packet_of_bytes \<circ> snd) ms)
     \<and> (\<forall>q. q \<notin> set (take (length ms) (rl_bufQue l)) \<longrightarrow> mem' q = mem q)"
proof -
  have len: "length (rl_bufQue l) = n" "distinct (rl_bufQue l)"
    using assms(1) by (simp_all add: reader_ok_def)
  with assms(4) have le: "length ms \<le> length (rl_bufQue l)" by simp
  have recv: "reader_receive c (Received ms) r l mem buf = Inr (Some (length ms), r,
      l\<lparr>rl_bufQue := drop (length ms) (rl_bufQue l)\<rparr>, store_datagrams (rl_bufQue l) (map snd ms) mem,
      buf\<lparr>buf_full := buf_full buf @ take (length ms) (rl_bufQue l)\<rparr>)"
    by (rule reader_receive_happy [OF assms(1-4)])
  have "map (store_datagrams (rl_bufQue l) (map snd ms) mem) (take (length ms) (rl_bufQue l))
      = received_packets (rl_bufQue l) mem (Received ms)" by (rule store_datagrams_batch [OF len(2) le])
  moreover have "received_packets (rl_bufQue l) mem (Received ms) = map (packet_of_bytes \<circ> snd) ms"
    if "\<forall>(a, d) \<in> set ms. length d = 1080" by (rule received_full [OF le assms(5) that])
  moreover have "store_datagrams (rl_bufQue l) (map snd ms) mem q = mem q"
    if "q \<notin> set (take (length ms) (rl_bufQue l))" for q
    using that by (simp add: store_datagrams_other)
  ultimately show ?thesis by (simp add: recv)
qed

definition sample_loop :: read_loop where
  "sample_loop = \<lparr>rl_errno = 0, rl_bufQue = [4, 2], rl_iov = [4, 2]\<rparr>"

definition blank_packet :: SDDSpacket where
  "blank_packet = packet_of_bytes (replicate 1080 0)"

lemma batch_delivered_in_order_witness:
  "\<exists>l' mem' buf'. reader_receive False (Received [(1, replicate 1080 7)]) new_reader sample_loop
      (\<lambda>_. blank_packet) new_packet_buffer = Inr (Some 1, new_reader, l', mem', buf')
     \<and> buf_full buf' = [4] \<and> mem' 4 = packet_of_bytes (replicate 1080 7)"
proof -
  have pre: "reader_ok 2 sample_loop" "rl_errno sample_loop = 0" "\<not> buf_shuttingDown new_packet_buffer"
    "\<forall>p. wf_packet ((\<lambda>_. blank_packet) p)"
    by (simp_all add: reader_ok_def sample_loop_def new_packet_buffer_def blank_packet_def wf_packet_of_bytes)
  have "length [(1 :: u32, replicate 1080 (7 :: u8))] \<le> 2" by simp
  from batch_delivered_in_order [OF pre(1-3) this pre(4), of False new_reader] show ?thesis
    by (elim exE) (auto simp: sample_loop_def new_packet_buffer_def intro!: exI)
qed

text \<open>C30: After a batch of \<open>k\<close> the refill, once it does not block, restores the invariant of the
  reader: it again holds as many buffers as it reads at once, none twice, and the kernel's
  table points to exactly these buffers, although only its first \<open>k\<close> entries were
  set again. The packets of the pool and the reader together stay the same.\<close>

theorem refill_restores_alignment:
  assumes "reader_ok n l" "k \<le> n" "n = unat (r_pkts_per_read r)" "\<not> buf_shuttingDown buf"
    "distinct (rl_bufQue l @ buf_empty buf)"
    "reader_refill c senders k r (l\<lparr>rl_bufQue := drop k (rl_bufQue l)\<rparr>) buf = Some res"
  shows "\<exists>r' l' buf'. res = Inr (r', l', buf') \<and> reader_ok n l' \<and> buf_full buf' = buf_full buf
     \<and> mset (rl_bufQue l') + pooled_buffers buf' = mset (drop k (rl_bufQue l)) + pooled_buffers buf"
proof -
  show ?thesis
  proof (rule reader_refill_happy [OF reader_handed_after [OF assms(1,2)] assms(4,3,6)])
    fix r' l' new buf'
    assume f: "res = Inr (r', l', buf')" "rl_bufQue l' = new @ rl_bufQue (l\<lparr>rl_bufQue := drop k (rl_bufQue l)\<rparr>)"
      "rl_iov l' = rl_bufQue l'" "length (rl_bufQue l') = n" "mset new + pooled_buffers buf' = pooled_buffers buf"
      "buf_full buf' = buf_full buf" "buf_empty buf = new @ buf_empty buf'"
    have "set (drop k (rl_bufQue l)) \<subseteq> set (rl_bufQue l)" by (rule set_drop_subset)
    then have "distinct (rl_bufQue l')" using assms(5) f(2,7) by (auto intro: distinct_drop)
    moreover have "mset (rl_bufQue l') + pooled_buffers buf'
        = mset (drop k (rl_bufQue l)) + pooled_buffers buf"
      using f(2,5) by (simp add: ac_simps)
    ultimately show ?thesis using f by (simp add: reader_ok_def)
  qed
qed

lemma refill_restores_alignment_witness:
  "(case reader_refill False [] 1 (new_reader\<lparr>r_pkts_per_read := 2\<rparr>) (sample_loop\<lparr>rl_bufQue := [2]\<rparr>)
      (new_packet_buffer\<lparr>buf_empty := [9]\<rparr>) of Some (Inr (r, l, b)) \<Rightarrow> reader_ok 2 l | _ \<Rightarrow> False)"
proof -
  let ?r = "new_reader\<lparr>r_pkts_per_read := 2\<rparr>" and ?b = "new_packet_buffer\<lparr>buf_empty := [9]\<rparr>"
  let ?l = "sample_loop\<lparr>rl_bufQue := drop 1 (rl_bufQue sample_loop)\<rparr>"
  have l: "?l = sample_loop\<lparr>rl_bufQue := [2]\<rparr>" by (simp add: sample_loop_def)
  have "pop_empty_buffers [2] 2 ?b = Some ([9, 2], new_packet_buffer)"
    by (simp add: pop_empty_buffers_def empties_available_def new_packet_buffer_def Let_def)
  then obtain res where res: "reader_refill False [] 1 ?r ?l ?b = Some res"
    unfolding l by (simp add: reader_refill_def)
  have pre: "reader_ok 2 sample_loop" "(1 :: nat) \<le> 2" "2 = unat (r_pkts_per_read ?r)"
    "\<not> buf_shuttingDown ?b" "distinct (rl_bufQue sample_loop @ buf_empty ?b)"
    by (simp_all add: reader_ok_def sample_loop_def new_packet_buffer_def)
  from refill_restores_alignment [OF pre res] obtain r' l' b' where
    "res = Inr (r', l', b')" "reader_ok 2 l'" by blast
  with res show ?thesis unfolding l by simp
qed

text \<open>C40: A reader that has handed on \<open>k\<close> of its \<open>n\<close> buffers and finds the packet buffer shut down when
  it wants new ones, gets none; the loop that follows then indexes its queue past the end exactly
  when \<open>k\<close> is more than half of \<open>n\<close>. It makes no difference whether the shut down comes before or after
  the push, which drops the batch in the first case. When the packet buffer is shut down before the
  first buffers are taken, the reader indexes its empty queue, for any packets per read but zero.\<close>

theorem refill_past_end_on_shutdown:
  assumes "reader_ok n l" "length ms \<le> n"
    and "reader_receive c (Received ms) r l mem buf0 = Inr (Some k, r', l', mem', buf')" "buf_shuttingDown buf"
  shows "k = length ms \<and> (reader_refill c senders k r' l' buf = Some (Inl OutOfRange) \<longleftrightarrow> n < 2 * k)
     \<and> (reader_fill errno r buf = Some (Inl OutOfRange) \<longleftrightarrow> 0 < unat (r_pkts_per_read r))"
proof -
  have k: "k = length ms" "rl_bufQue l' = drop k (rl_bufQue l)" "length (rl_bufQue l) = n"
    using assms(1-3)
    by (auto simp: reader_receive_def reader_ok_def push_full_buffers_def Let_def split: if_splits)
  moreover have "length (drop k (rl_bufQue l)) < k \<longleftrightarrow> n < 2 * k" using k assms(2) by auto
  ultimately show ?thesis
    using assms(4) by (simp add: reader_refill_def reader_fill_def stopping_never_blocks Let_def)
qed

text \<open>Three buffers, of which two are handed on.\<close>

lemma refill_past_end_on_shutdown_witness:
  "\<exists>l' mem' buf'. reader_receive False (Received [(1, []), (1, [])]) new_reader
      \<lparr>rl_errno = 0, rl_bufQue = [4, 2, 0], rl_iov = [4, 2, 0]\<rparr> (\<lambda>_. blank_packet) new_packet_buffer
      = Inr (Some 2, new_reader, l', mem', buf')
    \<and> reader_refill False [] 2 new_reader l' (shutDown_buffer buf') = Some (Inl OutOfRange)"
proof -
  let ?l = "\<lparr>rl_errno = 0, rl_bufQue = [4, 2, 0], rl_iov = [4, 2, 0]\<rparr>" and ?ms = "[(1, []), (1, [])] :: (u32 \<times> u8 list) list"
  have ok: "reader_ok 3 ?l" "rl_errno ?l = 0" "\<not> buf_shuttingDown new_packet_buffer" "length ?ms \<le> 3"
    by (simp_all add: reader_ok_def new_packet_buffer_def)
  obtain l' mem' buf' where rcv: "reader_receive False (Received ?ms) new_reader ?l (\<lambda>_. blank_packet) new_packet_buffer
      = Inr (Some 2, new_reader, l', mem', buf')"
    using reader_receive_happy [OF ok, of False new_reader "\<lambda>_. blank_packet"] by simp
  have shut: "buf_shuttingDown (shutDown_buffer buf')"
    by (simp add: shutDown_buffer_def shutDown_empty_def shutDown_full_def shutDown_flag_def)
  from refill_past_end_on_shutdown [OF ok(1,4) rcv shut, of "[]"] rcv show ?thesis by auto
qed

text \<open>The outcome of a turn depends on \<open>errno\<close> alone: "no data" clears it and changes nothing
  else; any other error stops the reader; and so does an error number left over from before
  the loop, although the batch was received without an error.\<close>

theorem errno_decides:
  "reader_receive c (RecvError EAGAIN) r l mem buf = Inr (None, r, l\<lparr>rl_errno := 0\<rparr>, mem, buf)
   \<and> (e \<noteq> 0 \<and> e \<noteq> EAGAIN \<longrightarrow> reader_receive c (RecvError e) r l mem buf
        = Inr (None, reader_shutDown r, l\<lparr>rl_errno := e\<rparr>, mem, buf))
   \<and> (rl_errno l \<noteq> 0 \<and> rl_errno l \<noteq> EAGAIN \<longrightarrow> reader_receive c (Received ms) r l mem buf
        = Inr (None, reader_shutDown r, l, store_datagrams (rl_iov l) (map snd ms) mem, buf))"
  by (simp add: reader_receive_def reader_shutDown_def EAGAIN_def Let_def)

lemma errno_decides_witness:
  "reader_receive False (RecvError EINTR) new_reader sample_loop (\<lambda>_. blank_packet) new_packet_buffer
     = Inr (None, reader_shutDown new_reader, sample_loop\<lparr>rl_errno := 4\<rparr>, \<lambda>_. blank_packet, new_packet_buffer)"
  using errno_decides [of False new_reader sample_loop "\<lambda>_. blank_packet" new_packet_buffer EINTR]
  by (simp add: EINTR_def EAGAIN_def)

text \<open>A datagram shorter than a packet is taken for a whole one: the bytes behind it are those
  of the packet that was in the buffer before.\<close>

theorem short_datagram_keeps_old_bytes:
  assumes "wf_packet pkt" "length d \<le> 1080"
  shows "bytes_of_packet (overwrite d pkt) = d @ drop (length d) (bytes_of_packet pkt)
     \<and> wf_packet (overwrite d pkt)"
  using overwrite_bytes [OF assms] by blast

lemma short_datagram_keeps_old_bytes_witness:
  "bytes_of_packet (overwrite [1, 2] (packet_of_bytes (replicate 1080 9))) = [1, 2] @ replicate 1078 9"
  using short_datagram_keeps_old_bytes [of "packet_of_bytes (replicate 1080 9)" "[1, 2]"]
  by (simp add: wf_packet_of_bytes bytes_packet_inverse)

text \<open>Switching the blocking mode sets or clears the one flag bit and leaves the other flags
  of the descriptor as they are; a bad descriptor or a failing read of the flags sets nothing.\<close>

theorem blocking_flag_only:
  assumes "setSocketBlockingEnabled getfl setfl fd blocking = (ok, Some flags)"
  shows "0 \<le> fd \<and> 0 \<le> getfl \<and> (bit flags 11 \<longleftrightarrow> \<not> blocking)
     \<and> (\<forall>k. k \<noteq> 11 \<longrightarrow> bit flags k = bit (of_int getfl :: u32) k)"
proof -
  let ?w = "of_int getfl :: u32"
  have f: "flags = (if blocking then ?w AND NOT O_NONBLOCK else ?w OR O_NONBLOCK)" "0 \<le> fd" "0 \<le> getfl"
    using assms by (auto simp: setSocketBlockingEnabled_def Let_def split: if_splits)
  have o: "O_NONBLOCK = 2 ^ 11" by (simp add: O_NONBLOCK_def)
  have m: "bit O_NONBLOCK k \<longleftrightarrow> k = 11" for k
    unfolding o bit_exp_iff by auto
  have "bit flags k = (if k = 11 then \<not> blocking else bit ?w k)" for k
    unfolding f(1) by (cases "k < 32") (auto simp: bit_simps m dest: bit_imp_le_length)
  with f show ?thesis by auto
qed

lemma blocking_flag_only_witness:
  "snd (setSocketBlockingEnabled 2 (\<lambda>_. 0) 5 False) = Some 0x802 \<and> bit (0x802 :: u32) 1"
proof -
  have "setSocketBlockingEnabled 2 (\<lambda>_. 0) 5 False = (True, Some 0x802)"
    by (simp add: setSocketBlockingEnabled_def O_NONBLOCK_def)
  from blocking_flag_only [OF this] this show ?thesis by simp
qed

lemma confirm_warned: "w \<le> snd (confirmSingleHost as h w)"
  by (induction as h w rule: confirmSingleHost.induct) (auto intro: order_trans [of _ "_ + 1"])

lemma confirm_first:
  "h \<noteq> 0 \<Longrightarrow> snd (confirmSingleHost as h w) = w \<longleftrightarrow> (\<forall>a \<in> set as. a = h)"
proof (induction as h w rule: confirmSingleHost.induct)
  case (2 a as h w)
  show ?case
  proof (cases "a = h")
    case False
    have "w + 1 \<le> snd (confirmSingleHost as a (w + 1))" by (rule confirm_warned)
    with False 2 show ?thesis by auto
  qed (use 2 in simp)
qed simp

lemma confirm_last: "fst (confirmSingleHost as h w) = (if as = [] then h else last as)"
  by (induction as h w rule: confirmSingleHost.induct) auto

text \<open>With confirmed hosts a batch is free of warnings exactly when all its senders are the
  expected host (the first sender, while none is known), and the last sender is the one
  expected next.\<close>

theorem confirm_single_host_correct:
  assumes "0 \<notin> set senders"
  shows "(snd (confirmSingleHost senders host 0) = 0 \<longleftrightarrow>
      (\<forall>a \<in> set senders. a = (if host = 0 then hd senders else host)))
     \<and> fst (confirmSingleHost senders host 0) = (if senders = [] then host else last senders)"
proof (cases senders)
  case (Cons a as)
  have "a \<noteq> 0" using assms Cons by auto
  then show ?thesis
    using confirm_first [of a as 0] confirm_first [of host "a # as" 0] Cons
    by (auto simp: confirm_last)
qed simp

lemma confirm_single_host_correct_witness:
  "confirmSingleHost [7, 7, 9] 0 0 = (9, 1) \<and> snd (confirmSingleHost [7, 7, 9] 0 0) \<noteq> 0"
  using confirm_single_host_correct [of "[7, 7, 9]" 0] by simp

text \<open>The reported socket buffer size is not the kernel's: the kernel writes an \<open>int\<close> over the
  low half of the 64-bit member, so that the initial \<open>-1\<close> leaves the upper half set.\<close>

theorem buffer_size_upper_half_kept:
  "getSocketBufferSize (snd (reader_begin 0 0 rcvbuf new_reader)) = NOT (mask 32) OR ucast rcvbuf"
  by (simp add: getSocketBufferSize_def reader_begin_def store_rcvbuf_def new_reader_def Let_def)

end
