(* ===== verification/Pipeline.thy ===== *)
theory Pipeline
  imports Processor_Progress Socket_Reader
begin

text \<open>
  The running component: the socket reader thread, the processing thread and the thread that
  stops them (\<open>destroyBuffersAndJoinThreads\<close>) as one step relation over the shared packet buffer
  and the packets. A step is one critical section or system call of one thread, or the processor's work
  on one packet: the operations of the component theories, placed at their line by a program counter
  for each thread. The events of a run tell which packets arrived and which were processed.
  A thread whose pop blocks has no step of its own and tries again in a later state; how it sleeps and is
  woken, and what that means for a stop, is in \<open>Wake_Up\<close>. \<open>Processor_Atomic\<close> shows that the work on
  a packet may be taken as one step.
\<close>

section \<open>States and steps\<close>

datatype reader_pc = RStart | RFill int | RTop | RRecv | RRefill nat "u32 list" | RDone | RFault
datatype proc_pc = PStart | PTop | PPop | PWork | PPass | PRecycle | PDone | PFault fault
datatype stop_pc = Running | ReaderTold | ProcTold | FlagUp | FullCleared | Stopped

record 'a system =
  sy_buf :: packet_buffer
  sy_mem :: store
  sy_rpc :: reader_pc
  sy_reader :: reader
  sy_loop :: read_loop
  sy_ppc :: proc_pc
  sy_proc :: "'a processor"
  sy_work :: "ptr list"
  sy_rec :: "ptr list"
  sy_stop :: stop_pc

text \<open>\<open>_start\<close>: the buffer is filled with \<open>capacity\<close> packets, the threads are about to begin.\<close>

definition started :: "nat \<Rightarrow> nat \<Rightarrow> store \<Rightarrow> reader \<Rightarrow> 'a processor \<Rightarrow> 'a system" where
  "started base capacity mem r st = \<lparr>sy_buf = snd (initialize capacity base new_packet_buffer), sy_mem = mem,
     sy_rpc = RStart, sy_reader = r, sy_loop = \<lparr>rl_errno = 0, rl_bufQue = [], rl_iov = []\<rparr>,
     sy_ppc = PStart, sy_proc = st, sy_work = [], sy_rec = [], sy_stop = Running\<rparr>"

text \<open>\<open>destroyBuffersAndJoinThreads\<close> up to the joins; \<open>shutDown\<close> of the buffer is three steps.\<close>

definition stop_step :: "'a system \<Rightarrow> 'a system" where
  "stop_step s = (case sy_stop s of
       Running \<Rightarrow> s\<lparr>sy_reader := reader_shutDown (sy_reader s), sy_stop := ReaderTold\<rparr>
     | ReaderTold \<Rightarrow> s\<lparr>sy_proc := shutDown (sy_proc s), sy_stop := ProcTold\<rparr>
     | ProcTold \<Rightarrow> s\<lparr>sy_buf := shutDown_flag (sy_buf s), sy_stop := FlagUp\<rparr>
     | FlagUp \<Rightarrow> s\<lparr>sy_buf := shutDown_full (sy_buf s), sy_stop := FullCleared\<rparr>
     | FullCleared \<Rightarrow> s\<lparr>sy_buf := shutDown_empty (sy_buf s), sy_stop := Stopped\<rparr>
     | Stopped \<Rightarrow> s)"

text \<open>What \<open>recvmmsg\<close> may return for \<open>n\<close> buffers: at least one datagram, of whatever length, or an error.\<close>

definition kernel_ok :: "nat \<Rightarrow> received \<Rightarrow> bool" where
  "kernel_ok n rcv \<longleftrightarrow> (case rcv of Received ms \<Rightarrow> ms \<noteq> [] \<and> length ms \<le> n | RecvError e \<Rightarrow> e \<noteq> 0)"

datatype event = Arrive "SDDSpacket list" | Handled "SDDSpacket list" | Sri | Tau

definition senders :: "received \<Rightarrow> u32 list" where
  "senders rcv = (case rcv of Received ms \<Rightarrow> map fst ms | RecvError e \<Rightarrow> [])"

inductive sys_step :: "'a platform \<Rightarrow> bool \<Rightarrow> 'a system \<Rightarrow> event \<Rightarrow> 'a system \<Rightarrow> bool"
  for P confirmHosts where
  reader_starts: "sy_rpc s = RStart \<Longrightarrow> reader_begin e_fcntl e_setopt rcvbuf (sy_reader s) = (errno, r)
    \<Longrightarrow> sys_step P confirmHosts s Tau (s\<lparr>sy_reader := r, sy_rpc := RFill errno\<rparr>)"
| reader_fills: "sy_rpc s = RFill errno \<Longrightarrow> reader_fill errno (sy_reader s) (sy_buf s) = Some (Inr (l, b))
    \<Longrightarrow> sys_step P confirmHosts s Tau (s\<lparr>sy_loop := l, sy_buf := b, sy_rpc := RTop\<rparr>)"
| reader_fill_fails: "sy_rpc s = RFill errno \<Longrightarrow> reader_fill errno (sy_reader s) (sy_buf s) = Some (Inl e)
    \<Longrightarrow> sys_step P confirmHosts s Tau (s\<lparr>sy_rpc := RFault\<rparr>)"
| reader_tests: "sy_rpc s = RTop \<Longrightarrow> \<not> r_shuttingDown (sy_reader s)
    \<Longrightarrow> sys_step P confirmHosts s Tau (s\<lparr>sy_rpc := RRecv\<rparr>)"
| reader_gets: "sy_rpc s = RRecv
    \<Longrightarrow> kernel_ok (unat (r_pkts_per_read (sy_reader s))) rcv
    \<Longrightarrow> reader_receive confirmHosts rcv (sy_reader s) (sy_loop s) (sy_mem s) (sy_buf s)
          = Inr (Some k, r, l, mem, b)
    \<Longrightarrow> sys_step P confirmHosts s (Arrive (received_packets (rl_iov (sy_loop s)) (sy_mem s) rcv))
          (s\<lparr>sy_reader := r, sy_loop := l, sy_mem := mem, sy_buf := b, sy_rpc := RRefill k (senders rcv)\<rparr>)"
| reader_idles: "sy_rpc s = RRecv
    \<Longrightarrow> kernel_ok (unat (r_pkts_per_read (sy_reader s))) rcv
    \<Longrightarrow> reader_receive confirmHosts rcv (sy_reader s) (sy_loop s) (sy_mem s) (sy_buf s)
          = Inr (None, r, l, mem, b)
    \<Longrightarrow> sys_step P confirmHosts s Tau
          (s\<lparr>sy_reader := r, sy_loop := l, sy_mem := mem, sy_buf := b, sy_rpc := RTop\<rparr>)"
| reader_gets_fails: "sy_rpc s = RRecv
    \<Longrightarrow> kernel_ok (unat (r_pkts_per_read (sy_reader s))) rcv
    \<Longrightarrow> reader_receive confirmHosts rcv (sy_reader s) (sy_loop s) (sy_mem s) (sy_buf s) = Inl e
    \<Longrightarrow> sys_step P confirmHosts s Tau (s\<lparr>sy_rpc := RFault\<rparr>)"
| reader_refills: "sy_rpc s = RRefill k addrs
    \<Longrightarrow> reader_refill confirmHosts addrs k (sy_reader s) (sy_loop s) (sy_buf s) = Some (Inr (r, l, b))
    \<Longrightarrow> sys_step P confirmHosts s Tau (s\<lparr>sy_reader := r, sy_loop := l, sy_buf := b, sy_rpc := RTop\<rparr>)"
| reader_refill_fails: "sy_rpc s = RRefill k addrs
    \<Longrightarrow> reader_refill confirmHosts addrs k (sy_reader s) (sy_loop s) (sy_buf s) = Some (Inl e)
    \<Longrightarrow> sys_step P confirmHosts s Tau (s\<lparr>sy_rpc := RFault\<rparr>)"
| reader_ends: "sy_rpc s = RTop \<Longrightarrow> r_shuttingDown (sy_reader s)
    \<Longrightarrow> reader_end (sy_reader s) (sy_loop s) (sy_buf s) = (r, l, b)
    \<Longrightarrow> sys_step P confirmHosts s Tau (s\<lparr>sy_reader := r, sy_loop := l, sy_buf := b, sy_rpc := RDone\<rparr>)"
| proc_starts: "sy_ppc s = PStart
    \<Longrightarrow> sys_step P confirmHosts s Tau (s\<lparr>sy_proc := run_begin (sy_proc s), sy_ppc := PTop\<rparr>)"
| proc_tests: "sy_ppc s = PTop \<Longrightarrow> \<not> m_shuttingDown (sy_proc s)
    \<Longrightarrow> sys_step P confirmHosts s Tau (s\<lparr>sy_ppc := PPop\<rparr>)"
| proc_pops: "sy_ppc s = PPop
    \<Longrightarrow> pop_full_buffers (sy_work s) (unat (m_pkts_per_read (sy_proc s))) (sy_buf s) = Some (work, b)
    \<Longrightarrow> sys_step P confirmHosts s Tau (s\<lparr>sy_work := work, sy_buf := b, sy_ppc := PWork\<rparr>)"
| proc_enters: "sy_ppc s = PWork \<Longrightarrow> \<not> m_shuttingDown (sy_proc s)
    \<Longrightarrow> sys_step P confirmHosts s Tau (s\<lparr>sy_ppc := PPass\<rparr>)"
| proc_handles: "sy_ppc s = PPass \<Longrightarrow> sy_work s = p # work
    \<Longrightarrow> process_packet P p (sy_mem s) (sy_proc s) = Inr (Recycle, mem, st)
    \<Longrightarrow> sys_step P confirmHosts s (Handled [sy_mem s p])
          (s\<lparr>sy_mem := mem, sy_proc := st, sy_work := work, sy_rec := sy_rec s @ [p]\<rparr>)"
| proc_returns: "sy_ppc s = PPass \<Longrightarrow> sy_work s = p # work
    \<Longrightarrow> process_packet P p (sy_mem s) (sy_proc s) = Inr (Refill, mem, st)
    \<Longrightarrow> sys_step P confirmHosts s Tau (s\<lparr>sy_mem := mem, sy_proc := st, sy_ppc := PRecycle\<rparr>)"
| proc_fails: "sy_ppc s = PPass \<Longrightarrow> sy_work s = p # work
    \<Longrightarrow> process_packet P p (sy_mem s) (sy_proc s) = Inl e
    \<Longrightarrow> sys_step P confirmHosts s Tau (s\<lparr>sy_ppc := PFault e\<rparr>)"
| proc_leaves: "sy_ppc s = PPass \<Longrightarrow> sy_work s = []
    \<Longrightarrow> sys_step P confirmHosts s Tau (s\<lparr>sy_ppc := PRecycle\<rparr>)"
| proc_skips: "sy_ppc s = PWork \<Longrightarrow> m_shuttingDown (sy_proc s)
    \<Longrightarrow> sys_step P confirmHosts s Tau (s\<lparr>sy_ppc := PRecycle\<rparr>)"
| proc_recycles: "sy_ppc s = PRecycle \<Longrightarrow> recycle_buffers (sy_rec s) (sy_buf s) = (rec, b)
    \<Longrightarrow> sys_step P confirmHosts s Tau (s\<lparr>sy_rec := rec, sy_buf := b, sy_ppc := PTop\<rparr>)"
| proc_ends: "sy_ppc s = PTop \<Longrightarrow> m_shuttingDown (sy_proc s)
    \<Longrightarrow> run_end P (sy_proc s) (sy_buf s) (sy_work s) (sy_rec s) = (st, b, work, rec)
    \<Longrightarrow> sys_step P confirmHosts s Tau
          (s\<lparr>sy_proc := st, sy_buf := b, sy_work := work, sy_rec := rec, sy_ppc := PDone\<rparr>)"
| sri_attached: "sys_step P confirmHosts s Sri (s\<lparr>sy_proc := setUpstreamSri up (sy_proc s)\<rparr>)"
| sri_detached: "sys_step P confirmHosts s Sri (s\<lparr>sy_proc := unsetUpstreamSri (sy_proc s)\<rparr>)"
| stops: "sy_stop s \<noteq> Stopped \<Longrightarrow> sys_step P confirmHosts s Tau (stop_step s)"

inductive_cases sys_stepE: "sys_step P c s ev s'"

inductive sys_run :: "'a platform \<Rightarrow> bool \<Rightarrow> 'a system \<Rightarrow> event list \<Rightarrow> 'a system \<Rightarrow> bool"
  for P confirmHosts s0 where
  run_start: "sys_run P confirmHosts s0 [] s0"
| run_step: "sys_run P confirmHosts s0 evs s \<Longrightarrow> sys_step P confirmHosts s ev s'
    \<Longrightarrow> sys_run P confirmHosts s0 (evs @ [ev]) s'"

lemma sys_run_trans:
  "sys_run P c s1 evs' s2 \<Longrightarrow> sys_run P c s0 evs s1 \<Longrightarrow> sys_run P c s0 (evs @ evs') s2"
  by (induction rule: sys_run.induct) (auto simp flip: append_assoc intro: sys_run.intros)

lemma sys_run_one: "sys_step P c s ev s' \<Longrightarrow> sys_run P c s [ev] s'"
  using run_step [OF run_start, of P c s ev s'] by simp

fun arrived :: "event list \<Rightarrow> SDDSpacket list" where
  "arrived [] = []"
| "arrived (Arrive ps # evs) = ps @ arrived evs"
| "arrived (_ # evs) = arrived evs"

fun handled :: "event list \<Rightarrow> SDDSpacket list" where
  "handled [] = []"
| "handled (Handled ps # evs) = ps @ handled evs"
| "handled (_ # evs) = handled evs"

lemma arrived_append [simp]: "arrived (a @ b) = arrived a @ arrived b"
  by (induction a rule: arrived.induct) auto

lemma handled_append [simp]: "handled (a @ b) = handled a @ handled b"
  by (induction a rule: handled.induct) auto

section \<open>Where the packets are\<close>

definition running :: "'a system \<Rightarrow> bool" where
  "running s \<longleftrightarrow> \<not> buf_shuttingDown (sy_buf s)"

definition places :: "'a system \<Rightarrow> ptr list" where
  "places s = rl_bufQue (sy_loop s) @ buf_empty (sy_buf s) @ buf_full (sy_buf s) @ sy_work s @ sy_rec s"

definition waiting :: "'a system \<Rightarrow> SDDSpacket list" where
  "waiting s = map (sy_mem s) (sy_work s @ buf_full (sy_buf s))"

fun reader_at :: "nat \<Rightarrow> reader_pc \<Rightarrow> read_loop \<Rightarrow> bool" where
  "reader_at n RTop l \<longleftrightarrow> reader_ok n l"
| "reader_at n RRecv l \<longleftrightarrow> reader_ok n l"
| "reader_at n (RRefill k addrs) l \<longleftrightarrow> reader_handed n k l \<and> rl_errno l = 0"
| "reader_at n RFault l \<longleftrightarrow> False"
| "reader_at n pc l \<longleftrightarrow> rl_bufQue l = []"

fun proc_at :: "u64 \<Rightarrow> proc_pc \<Rightarrow> 'a processor \<Rightarrow> ptr list \<Rightarrow> ptr list \<Rightarrow> bool" where
  "proc_at np PDone st work rec \<longleftrightarrow> work = [] \<and> rec = []"
| "proc_at np (PFault e) st work rec \<longleftrightarrow> proc_ok st \<and> m_pkts_per_read st = np \<and> e = DivideByZero"
| "proc_at np PPass st work rec \<longleftrightarrow> proc_ok st \<and> m_pkts_per_read st = np"
| "proc_at np PRecycle st work rec \<longleftrightarrow> proc_ok st \<and> m_pkts_per_read st = np"
| "proc_at np pc st work rec \<longleftrightarrow> proc_ok st \<and> m_pkts_per_read st = np \<and> rec = []"

definition sys_inv :: "nat \<Rightarrow> nat \<Rightarrow> nat \<Rightarrow> u64 \<Rightarrow> 'a system \<Rightarrow> bool" where
  "sys_inv base capacity n np s \<longleftrightarrow> mset (places s) = mset [base ..< base + capacity] \<and> (\<forall>p. wf_packet (sy_mem s p))
     \<and> unat (r_pkts_per_read (sy_reader s)) = n \<and> reader_at n (sy_rpc s) (sy_loop s)
     \<and> proc_at np (sy_ppc s) (sy_proc s) (sy_work s) (sy_rec s)
     \<and> sy_stop s \<in> {Running, ReaderTold, ProcTold}"

text \<open>A step from \<open>s\<close> to \<open>s'\<close> with event \<open>ev\<close> keeps the invariant and the order of the packets.\<close>

definition good_step :: "nat \<Rightarrow> nat \<Rightarrow> nat \<Rightarrow> u64 \<Rightarrow> 'a system \<Rightarrow> event \<Rightarrow> 'a system \<Rightarrow> bool" where
  "good_step base capacity n np s ev s' \<longleftrightarrow> sys_inv base capacity n np s'
     \<and> (sy_ppc s' \<noteq> PDone \<longrightarrow> handled [ev] @ waiting s' = waiting s @ arrived [ev])"

lemma places_distinct: "mset (places s) = mset [base ..< base + capacity] \<Longrightarrow> distinct (places s)"
  using mset_eq_imp_distinct_iff [of "places s" "[base ..< base + capacity]"] by simp

lemma sys_invD:
  assumes "sys_inv base capacity n np s"
  shows "mset (places s) = mset [base ..< base + capacity]" "distinct (places s)" "\<forall>p. wf_packet (sy_mem s p)"
    "unat (r_pkts_per_read (sy_reader s)) = n" "reader_at n (sy_rpc s) (sy_loop s)"
    "proc_at np (sy_ppc s) (sy_proc s) (sy_work s) (sy_rec s)" "sy_stop s \<in> {Running, ReaderTold, ProcTold}"
  using assms places_distinct by (auto simp: sys_inv_def)

text \<open>Steps of the reader leave the processor's part alone, and the other way round.\<close>

lemma reader_good:
  assumes inv: "sys_inv base capacity n np s"
    and s': "s' = s\<lparr>sy_reader := r, sy_loop := l, sy_mem := mem, sy_buf := b, sy_rpc := pc\<rparr>"
    and held: "mset (rl_bufQue l) + pooled_buffers b = mset (rl_bufQue (sy_loop s)) + pooled_buffers (sy_buf s)"
    and wf: "\<forall>p. wf_packet (mem p)" and n: "r_pkts_per_read r = r_pkts_per_read (sy_reader s)"
    and place: "reader_at n pc l" and full: "buf_full b = buf_full (sy_buf s) @ new"
    and old: "\<forall>q \<in> set (sy_work s @ buf_full (sy_buf s)). mem q = sy_mem s q"
    and arr: "map mem new = arrived [ev]" and ev: "handled [ev] = []"
  shows "good_step base capacity n np s ev s'"
proof -
  have "mset (places s') = mset (places s)"
    using held by (simp add: places_def s' pooled_buffers_def ac_simps)
  moreover have "waiting s' = waiting s @ arrived [ev]"
    using full old arr by (simp add: waiting_def s')
  ultimately show ?thesis
    using sys_invD [OF inv] wf n place ev by (simp add: good_step_def sys_inv_def s')
qed

lemma proc_good:
  assumes inv: "sys_inv base capacity n np s"
    and s': "s' = s\<lparr>sy_proc := st, sy_mem := mem, sy_buf := b, sy_work := work, sy_rec := rec, sy_ppc := pc\<rparr>"
    and held: "mset work + mset rec + pooled_buffers b = mset (sy_work s) + mset (sy_rec s) + pooled_buffers (sy_buf s)"
    and wf: "\<forall>p. wf_packet (mem p)" and place: "proc_at np pc st work rec"
    and order: "pc \<noteq> PDone \<longrightarrow> handled [ev] @ map mem (work @ buf_full b) = waiting s"
    and ev: "arrived [ev] = []"
  shows "good_step base capacity n np s ev s'"
proof -
  have "mset (places s') = mset (places s)"
    using held by (simp add: places_def s' pooled_buffers_def ac_simps)
  then show ?thesis
    using sys_invD [OF inv] wf place order ev by (simp add: good_step_def sys_inv_def s' waiting_def)
qed

section \<open>The steps of the reader\<close>

lemma reader_gets_good:
  assumes inv: "sys_inv base capacity n np s" and run: "running s" and pc: "sy_rpc s = RRecv"
    and kernel: "kernel_ok (unat (r_pkts_per_read (sy_reader s))) rcv"
    and rcv: "reader_receive c rcv (sy_reader s) (sy_loop s) (sy_mem s) (sy_buf s) = Inr (Some k, r, l, mem, b)"
  shows "good_step base capacity n np s (Arrive (received_packets (rl_iov (sy_loop s)) (sy_mem s) rcv))
    (s\<lparr>sy_reader := r, sy_loop := l, sy_mem := mem, sy_buf := b, sy_rpc := RRefill k addrs\<rparr>)"
proof -
  let ?q = "rl_bufQue (sy_loop s)"
  note i = sys_invD [OF inv]
  have ok: "reader_ok n (sy_loop s)" using i(5) by (simp add: pc)
  obtain ms where ms: "rcv = Received ms" "rl_errno (sy_loop s) = 0" "length ms \<le> n"
    using rcv kernel i(4) by (cases rcv) (auto simp: reader_receive_def kernel_ok_def Let_def split: if_splits)
  have happy: "k = length ms" "r = sy_reader s" "l = (sy_loop s)\<lparr>rl_bufQue := drop k ?q\<rparr>"
      "mem = store_datagrams ?q (map snd ms) (sy_mem s)"
      "b = (sy_buf s)\<lparr>buf_full := buf_full (sy_buf s) @ take k ?q\<rparr>"
    using reader_receive_happy [OF ok ms(2) _ ms(3), of "sy_buf s" c "sy_reader s" "sy_mem s"] rcv run ms(1)
    by (auto simp: running_def)
  have q: "length ?q = n" "distinct ?q" using ok by (simp_all add: reader_ok_def)
  show ?thesis
  proof (rule reader_good [OF inv refl])
    show "mset (rl_bufQue l) + pooled_buffers b = mset ?q + pooled_buffers (sy_buf s)"
      using mset_take_drop [of k ?q] by (simp add: happy(3,5) pooled_buffers_def ac_simps)
    show "\<forall>p. wf_packet (mem p)"
      unfolding happy(4) using i(3) by (intro allI store_datagrams_wf) blast
    show "reader_at n (RRefill k addrs) l"
      using reader_handed_after [OF ok ms(3)] ms(2) by (simp add: happy(1,3))
    show "buf_full b = buf_full (sy_buf s) @ take k ?q" by (simp add: happy(5))
    show "\<forall>p\<in>set (sy_work s @ buf_full (sy_buf s)). mem p = sy_mem s p"
      unfolding happy(4) using i(2) by (auto simp: places_def dest!: in_set_takeD intro!: store_datagrams_other)
    show "map mem (take k ?q) = arrived [Arrive (received_packets (rl_iov (sy_loop s)) (sy_mem s) rcv)]"
      using store_datagrams_batch [of ?q ms "sy_mem s"] q ms ok by (simp add: happy(1,4) reader_ok_def)
  qed (simp_all add: happy(2))
qed

lemma reader_idles_good:
  assumes inv: "sys_inv base capacity n np s" and pc: "sy_rpc s = RRecv"
    and kernel: "kernel_ok (unat (r_pkts_per_read (sy_reader s))) rcv"
    and rcv: "reader_receive c rcv (sy_reader s) (sy_loop s) (sy_mem s) (sy_buf s) = Inr (None, r, l, mem, b)"
  shows "good_step base capacity n np s Tau
    (s\<lparr>sy_reader := r, sy_loop := l, sy_mem := mem, sy_buf := b, sy_rpc := RTop\<rparr>)"
proof -
  note i = sys_invD [OF inv]
  have ok: "reader_ok n (sy_loop s)" using i(5) by (simp add: pc)
  let ?ds = "case rcv of Received ms \<Rightarrow> map snd ms | RecvError _ \<Rightarrow> []"
  have out: "b = sy_buf s" "r_pkts_per_read r = r_pkts_per_read (sy_reader s)" "rl_bufQue l = rl_bufQue (sy_loop s)"
      "rl_iov l = rl_iov (sy_loop s)" "mem = store_datagrams (rl_bufQue (sy_loop s)) ?ds (sy_mem s)"
    using rcv ok by (auto simp: reader_receive_def reader_ok_def Let_def push_full_buffers_def
        split: if_splits received.splits)
  show ?thesis
  proof (rule reader_good [OF inv refl, where new = "[]"])
    show "\<forall>p. wf_packet (mem p)" unfolding out(5) using i(3) by (intro allI store_datagrams_wf) blast
    show "reader_at n RTop l" using ok out by (simp add: reader_ok_def)
    show "\<forall>p\<in>set (sy_work s @ buf_full (sy_buf s)). mem p = sy_mem s p"
      unfolding out(5) using i(2)
      by (auto simp: places_def dest!: in_set_takeD intro!: store_datagrams_other)
  qed (simp_all add: out)
qed

lemma reader_fills_good:
  assumes inv: "sys_inv base capacity n np s" and run: "running s" and pc: "sy_rpc s = RFill errno"
    and fill: "reader_fill errno (sy_reader s) (sy_buf s) = Some res"
  shows "\<exists>l b. res = Inr (l, b)
    \<and> good_step base capacity n np s Tau (s\<lparr>sy_loop := l, sy_buf := b, sy_rpc := RTop\<rparr>)"
proof -
  note i = sys_invD [OF inv]
  have none: "rl_bufQue (sy_loop s) = []" using i(5) by (simp add: pc)
  obtain q b where pop: "pop_empty_buffers [] n (sy_buf s) = Some (q, b)"
    using fill i(4) by (auto simp: reader_fill_def Let_def split: option.splits)
  from spb.pop_empty_shape [OF pop] run have q: "mset q + pooled_buffers b = pooled_buffers (sy_buf s)"
      "buf_full b = buf_full (sy_buf s)" "length q = n"
    by (auto simp: running_def)
  let ?l = "\<lparr>rl_errno = errno, rl_bufQue = q, rl_iov = q\<rparr>"
  have res: "res = Inr (?l, b)" using fill pop q(3) i(4) by (simp add: reader_fill_def Let_def)
  have "buf_empty (sy_buf s) = q @ buf_empty b"
    using pop run by (auto simp: buffer_ops running_def split: if_splits)
  then have "distinct q" using i(2) by (auto simp: places_def)
  moreover have eq: "s\<lparr>sy_loop := ?l, sy_buf := b, sy_rpc := RTop\<rparr>
      = s\<lparr>sy_reader := sy_reader s, sy_loop := ?l, sy_mem := sy_mem s, sy_buf := b, sy_rpc := RTop\<rparr>" by simp
  ultimately have "good_step base capacity n np s Tau (s\<lparr>sy_loop := ?l, sy_buf := b, sy_rpc := RTop\<rparr>)"
    using q none i(3) by (intro reader_good [OF inv eq, where new = "[]"]) (simp_all add: reader_ok_def)
  with res show ?thesis by blast
qed

lemma reader_refills_good:
  assumes inv: "sys_inv base capacity n np s" and run: "running s" and pc: "sy_rpc s = RRefill k addrs"
    and refill: "reader_refill c addrs k (sy_reader s) (sy_loop s) (sy_buf s) = Some res"
  shows "\<exists>r l b. res = Inr (r, l, b)
    \<and> good_step base capacity n np s Tau (s\<lparr>sy_reader := r, sy_loop := l, sy_buf := b, sy_rpc := RTop\<rparr>)"
proof -
  note i = sys_invD [OF inv]
  have handed: "reader_handed n k (sy_loop s)" using i(5) by (simp add: pc)
  have b: "\<not> buf_shuttingDown (sy_buf s)" using run by (simp add: running_def)
  show ?thesis
  proof (rule reader_refill_happy [OF handed b i(4) [symmetric] refill])
    fix r l new b
    assume f: "res = Inr (r, l, b)" "rl_bufQue l = new @ rl_bufQue (sy_loop s)" "rl_iov l = rl_bufQue l"
      "length (rl_bufQue l) = n" "mset new + pooled_buffers b = pooled_buffers (sy_buf s)"
      "buf_full b = buf_full (sy_buf s)" "r_pkts_per_read r = r_pkts_per_read (sy_reader s)"
      "buf_empty (sy_buf s) = new @ buf_empty b"
    have "distinct (rl_bufQue l)" using i(2) by (auto simp: f(2,8) places_def)
    moreover have eq: "s\<lparr>sy_reader := r, sy_loop := l, sy_buf := b, sy_rpc := RTop\<rparr>
      = s\<lparr>sy_reader := r, sy_loop := l, sy_mem := sy_mem s, sy_buf := b, sy_rpc := RTop\<rparr>" by simp
    ultimately have "good_step base capacity n np s Tau (s\<lparr>sy_reader := r, sy_loop := l, sy_buf := b, sy_rpc := RTop\<rparr>)"
      using f i(3) by (intro reader_good [OF inv eq, where new = "[]"]) (simp_all add: reader_ok_def ac_simps)
    with f(1) show ?thesis by blast
  qed
qed

lemma reader_ends_good:
  assumes inv: "sys_inv base capacity n np s" and run: "running s"
    and "end": "reader_end (sy_reader s) (sy_loop s) (sy_buf s) = (r, l, b)"
  shows "good_step base capacity n np s Tau (s\<lparr>sy_reader := r, sy_loop := l, sy_buf := b, sy_rpc := RDone\<rparr>)"
proof -
  obtain q b' where rec: "recycle_buffers (rl_bufQue (sy_loop s)) (sy_buf s) = (q, b')"
    by (cases "recycle_buffers (rl_bufQue (sy_loop s)) (sy_buf s)")
  from spb.recycle_shape [OF rec] run have q: "q = []"
      "pooled_buffers b' = pooled_buffers (sy_buf s) + mset (rl_bufQue (sy_loop s))"
      "buf_full b' = buf_full (sy_buf s)"
    by (simp_all add: running_def)
  have out: "b = b'" "rl_bufQue l = []" "r_pkts_per_read r = r_pkts_per_read (sy_reader s)"
    using "end" rec q(1) by (auto simp: reader_end_def)
  have eq: "s\<lparr>sy_reader := r, sy_loop := l, sy_buf := b, sy_rpc := RDone\<rparr>
      = s\<lparr>sy_reader := r, sy_loop := l, sy_mem := sy_mem s, sy_buf := b, sy_rpc := RDone\<rparr>" by simp
  show ?thesis
    using q out sys_invD(3) [OF inv] by (intro reader_good [OF inv eq, where new = "[]"]) simp_all
qed

section \<open>The steps of the processor\<close>

lemma proc_pops_good:
  assumes inv: "sys_inv base capacity n np s" and run: "running s" and pc: "sy_ppc s = PPop"
    and pop: "pop_full_buffers (sy_work s) m (sy_buf s) = Some (work, b)"
  shows "good_step base capacity n np s Tau (s\<lparr>sy_work := work, sy_buf := b, sy_ppc := PWork\<rparr>)"
proof -
  note i = sys_invD [OF inv]
  have b: "\<not> buf_shuttingDown (sy_buf s)" using run by (simp add: running_def)
  have eq: "s\<lparr>sy_work := work, sy_buf := b, sy_ppc := PWork\<rparr> = s\<lparr>sy_proc := sy_proc s, sy_mem := sy_mem s,
      sy_buf := b, sy_work := work, sy_rec := sy_rec s, sy_ppc := PWork\<rparr>" by simp
  have "waiting s = map (sy_mem s) (work @ buf_full b)"
    using spb.pop_full_order [OF pop b] by (simp add: waiting_def)
  then show ?thesis
    using spb.pop_full_conserves [OF pop b] i(3,6) pc
    by (intro proc_good [OF inv eq]) (simp_all add: ac_simps)
qed

lemma wf_same_headers:
  assumes "same_headers mem mem'" "wf_packet (mem p)"
  shows "wf_packet (mem' p)"
proof -
  have "pkt_aad ((mem' p)\<lparr>pkt_d := []\<rparr>) = pkt_aad ((mem p)\<lparr>pkt_d := []\<rparr>)"
    "length (pkt_d (mem' p)) = length (pkt_d (mem p))"
    using assms(1) by (simp_all add: same_headers_def)
  with assms(2) show ?thesis by (simp add: wf_packet_def)
qed

lemma proc_packet_good:
  assumes inv: "sys_inv base capacity n np s" and pc: "sy_ppc s = PPass" and work: "sy_work s = p # work"
    and packet: "process_packet P p (sy_mem s) (sy_proc s) = Inr (out, mem, st)"
  shows "out = Recycle \<Longrightarrow> good_step base capacity n np s (Handled [sy_mem s p])
      (s\<lparr>sy_mem := mem, sy_proc := st, sy_work := work, sy_rec := sy_rec s @ [p]\<rparr>)"
    and "out = Refill \<Longrightarrow> good_step base capacity n np s Tau
      (s\<lparr>sy_mem := mem, sy_proc := st, sy_ppc := PRecycle\<rparr>)"
proof -
  note i = sys_invD [OF inv]
  have ok: "proc_ok (sy_proc s)" "m_pkts_per_read (sy_proc s) = np" using i(6) by (simp_all add: pc)
  from process_packet_turn [OF ok(1), of "sy_mem s" p P] packet have
    t: "turn_ok (sy_proc s) st" "touches p (sy_mem s) mem" "out = Refill \<longrightarrow> mem = sy_mem s" by auto
  have st: "proc_ok st" "m_pkts_per_read st = np" using t(1) ok(2) by (simp_all add: turn_ok_def same_config_def)
  have wf: "\<forall>q. wf_packet (mem q)" using i(3) wf_same_headers [OF touches_headers [OF t(2)]] by blast
  have others: "\<forall>q\<in>set (work @ buf_full (sy_buf s)). mem q = sy_mem s q"
    using i(2) by (auto simp: places_def work intro!: touches_other [OF t(2)])
  show "good_step base capacity n np s (Handled [sy_mem s p])
      (s\<lparr>sy_mem := mem, sy_proc := st, sy_work := work, sy_rec := sy_rec s @ [p]\<rparr>)"
  proof (rule proc_good [OF inv])
    show "s\<lparr>sy_mem := mem, sy_proc := st, sy_work := work, sy_rec := sy_rec s @ [p]\<rparr>
      = s\<lparr>sy_proc := st, sy_mem := mem, sy_buf := sy_buf s, sy_work := work, sy_rec := sy_rec s @ [p],
          sy_ppc := PPass\<rparr>" using pc by simp
    show "PPass \<noteq> PDone \<longrightarrow> handled [Handled [sy_mem s p]] @ map mem (work @ buf_full (sy_buf s)) = waiting s"
      using others by (simp add: waiting_def work)
  qed (use wf st in \<open>simp_all add: work ac_simps\<close>)
  show "good_step base capacity n np s Tau (s\<lparr>sy_mem := mem, sy_proc := st, sy_ppc := PRecycle\<rparr>)"
    if "out = Refill"
  proof (rule proc_good [OF inv])
    show "s\<lparr>sy_mem := mem, sy_proc := st, sy_ppc := PRecycle\<rparr>
      = s\<lparr>sy_proc := st, sy_mem := mem, sy_buf := sy_buf s, sy_work := sy_work s, sy_rec := sy_rec s,
          sy_ppc := PRecycle\<rparr>" by simp
    show "PRecycle \<noteq> PDone \<longrightarrow> handled [Tau] @ map mem (sy_work s @ buf_full (sy_buf s)) = waiting s"
      using t(3) that by (simp add: waiting_def)
  qed (use wf st in simp_all)
qed

lemma proc_recycles_good:
  assumes inv: "sys_inv base capacity n np s" and run: "running s" and pc: "sy_ppc s = PRecycle"
    and rec: "recycle_buffers (sy_rec s) (sy_buf s) = (rec, b)"
  shows "good_step base capacity n np s Tau (s\<lparr>sy_rec := rec, sy_buf := b, sy_ppc := PTop\<rparr>)"
proof -
  note i = sys_invD [OF inv]
  have b: "\<not> buf_shuttingDown (sy_buf s)" using run by (simp add: running_def)
  have eq: "s\<lparr>sy_rec := rec, sy_buf := b, sy_ppc := PTop\<rparr> = s\<lparr>sy_proc := sy_proc s, sy_mem := sy_mem s,
      sy_buf := b, sy_work := sy_work s, sy_rec := rec, sy_ppc := PTop\<rparr>" by simp
  show ?thesis
    using spb.recycle_shape [OF rec b] i(3,6) pc
    by (intro proc_good [OF inv eq]) (simp_all add: waiting_def ac_simps)
qed

lemma proc_ends_good:
  assumes inv: "sys_inv base capacity n np s" and run: "running s"
    and "end": "run_end P (sy_proc s) (sy_buf s) (sy_work s) (sy_rec s) = (st, b, work, rec)"
  shows "good_step base capacity n np s Tau
    (s\<lparr>sy_proc := st, sy_buf := b, sy_work := work, sy_rec := rec, sy_ppc := PDone\<rparr>)"
proof -
  note i = sys_invD [OF inv]
  obtain w b1 where one: "recycle_buffers (sy_work s) (sy_buf s) = (w, b1)"
    by (cases "recycle_buffers (sy_work s) (sy_buf s)")
  obtain r b2 where two: "recycle_buffers (sy_rec s) b1 = (r, b2)" by (cases "recycle_buffers (sy_rec s) b1")
  have b: "\<not> buf_shuttingDown (sy_buf s)" using run by (simp add: running_def)
  note shape1 = spb.recycle_shape [OF one b]
  note shape2 = spb.recycle_shape [OF two] 
  have out: "b = b2" "work = []" "rec = []"
      "pooled_buffers b2 = pooled_buffers (sy_buf s) + mset (sy_work s) + mset (sy_rec s)"
    using "end" one two shape1 shape2 by (auto simp: run_end_def Let_def)
  have eq: "s\<lparr>sy_proc := st, sy_buf := b, sy_work := work, sy_rec := rec, sy_ppc := PDone\<rparr> =
      s\<lparr>sy_proc := st, sy_mem := sy_mem s, sy_buf := b, sy_work := work, sy_rec := rec, sy_ppc := PDone\<rparr>" by simp
  show ?thesis
    using out i(3) by (intro proc_good [OF inv eq]) (simp_all add: ac_simps)
qed

section \<open>Every run\<close>

text \<open>The flag of the buffer is never taken down.\<close>

lemma ops_keep_flag:
  "reader_fill errno r b = Some (Inr (l, b')) \<Longrightarrow> buf_shuttingDown b' = buf_shuttingDown b"
  "reader_receive c rcv r l mem b = Inr (k, r', l', mem', b') \<Longrightarrow> buf_shuttingDown b' = buf_shuttingDown b"
  "reader_refill c addrs m r l b = Some (Inr (r', l', b')) \<Longrightarrow> buf_shuttingDown b' = buf_shuttingDown b"
  "reader_end r l b = (r', l', b') \<Longrightarrow> buf_shuttingDown b' = buf_shuttingDown b"
  "pop_full_buffers q m b = Some (q', b') \<Longrightarrow> buf_shuttingDown b' = buf_shuttingDown b"
  "recycle_buffers q b = (q', b') \<Longrightarrow> buf_shuttingDown b' = buf_shuttingDown b"
  "run_end P st b work rec = (st', b', work', rec') \<Longrightarrow> buf_shuttingDown b' = buf_shuttingDown b"
  by (auto simp: reader_fill_def reader_receive_def reader_refill_def reader_end_def run_end_def buffer_ops
      split: if_splits option.splits received.splits)

lemma step_keeps_flag: "sys_step P c s ev s' \<Longrightarrow> \<not> running s \<Longrightarrow> \<not> running s'"
  unfolding running_def
  by (induction rule: sys_step.induct)
    (auto simp: ops_keep_flag stop_step_def shutDown_flag_def shutDown_full_def shutDown_empty_def
      split: stop_pc.splits)

lemma proc_ok_control [simp]:
  "proc_ok (setUpstreamSri up st) = proc_ok st" "proc_ok (shutDown st) = proc_ok st"
  "proc_ok (run_begin st) = proc_ok st" "proc_ok st \<Longrightarrow> proc_ok (unsetUpstreamSri st)"
  by (simp_all add: proc_ok_def coherent_def setUpstreamSri_def shutDown_def run_begin_def
      unsetUpstreamSri_def ENDIAN_DEFAULT_def)

lemma pkts_control [simp]:
  "m_pkts_per_read (setUpstreamSri up st) = m_pkts_per_read st"
  "m_pkts_per_read (shutDown st) = m_pkts_per_read st"
  "m_pkts_per_read (run_begin st) = m_pkts_per_read st"
  "m_pkts_per_read (unsetUpstreamSri st) = m_pkts_per_read st"
  by (simp_all add: setUpstreamSri_def shutDown_def run_begin_def unsetUpstreamSri_def)

text \<open>Steps that only change the state of one thread.\<close>

lemma control_good:
  assumes inv: "sys_inv base capacity n np s"
    and s': "s' = s\<lparr>sy_reader := r, sy_rpc := rpc, sy_proc := st, sy_ppc := ppc, sy_stop := stop\<rparr>"
    and "r_pkts_per_read r = r_pkts_per_read (sy_reader s)" "reader_at n rpc (sy_loop s)"
      "proc_at np ppc st (sy_work s) (sy_rec s)"
    and "stop \<in> {Running, ReaderTold, ProcTold}" and "ev = Tau \<or> ev = Sri"
  shows "good_step base capacity n np s ev s'"
  using sys_invD [OF inv] assms(3-7) by (auto simp: good_step_def sys_inv_def s' places_def waiting_def)

lemma proc_at_control:
  assumes "proc_at np pc st work rec"
  shows "proc_at np pc (setUpstreamSri up st) work rec" "proc_at np pc (unsetUpstreamSri st) work rec"
    "proc_at np pc (shutDown st) work rec"
  using assms by (cases pc; simp)+

lemma step_good:
  assumes "sys_step P c s ev s'" "sys_inv base capacity n np s" "running s'"
  shows "good_step base capacity n np s ev s'"
proof -
  note inv = assms(2)
  note i = sys_invD [OF inv]
  have run: "running s" using step_keeps_flag assms(1,3) by blast
  show ?thesis
    using assms(1)
  proof (cases rule: sys_step.cases)
    case (reader_starts e_fcntl e_setopt rcvbuf errno r)
    then show ?thesis
      using i by (intro control_good [OF inv, where r = r and rpc = "RFill errno" and st = "sy_proc s" and ppc = "sy_ppc s" and stop = "sy_stop s"])
        (auto simp: reader_begin_def Let_def)
  next
    case (reader_fills errno l b)
    then show ?thesis using reader_fills_good [OF inv run, of errno "Inr (l, b)"] by auto
  next
    case (reader_fill_fails errno e)
    then show ?thesis using reader_fills_good [OF inv run, of errno "Inl e"] by auto
  next
    case reader_tests
    then show ?thesis
      using i by (intro control_good [OF inv, where r = "sy_reader s" and rpc = RRecv and st = "sy_proc s" and ppc = "sy_ppc s" and stop = "sy_stop s"]) auto
  next
    case (reader_gets rcv k r l mem b)
    then show ?thesis using reader_gets_good [OF inv run] by simp
  next
    case (reader_idles rcv r l mem b)
    then show ?thesis using reader_idles_good [OF inv] by simp
  next
    case (reader_gets_fails rcv e)
    have "reader_ok n (sy_loop s)" using i(5) reader_gets_fails by simp
    then have False
      using reader_gets_fails i(4)
      by (auto simp: reader_receive_def kernel_ok_def reader_ok_def Let_def buffer_ops
          split: received.splits if_splits)
    then show ?thesis ..
  next
    case (reader_refills k addrs r l b)
    then show ?thesis using reader_refills_good [OF inv run, of k addrs c "Inr (r, l, b)"] by auto
  next
    case (reader_refill_fails k addrs e)
    then show ?thesis using reader_refills_good [OF inv run, of k addrs c "Inl e"] by auto
  next
    case (reader_ends r l b)
    then show ?thesis using reader_ends_good [OF inv run] by simp
  next
    case proc_starts
    then show ?thesis
      using i by (intro control_good [OF inv, where r = "sy_reader s" and rpc = "sy_rpc s" and st = "run_begin (sy_proc s)" and ppc = PTop and stop = "sy_stop s"])
        auto
  next
    case proc_tests
    then show ?thesis
      using i by (intro control_good [OF inv, where r = "sy_reader s" and rpc = "sy_rpc s" and st = "sy_proc s" and ppc = PPop and stop = "sy_stop s"]) auto
  next
    case (proc_pops work b)
    then show ?thesis using proc_pops_good [OF inv run] by simp
  next
    case proc_enters
    then show ?thesis
      using i by (intro control_good [OF inv, where r = "sy_reader s" and rpc = "sy_rpc s" and st = "sy_proc s" and ppc = PPass and stop = "sy_stop s"]) auto
  next
    case (proc_handles p work mem st)
    then show ?thesis using proc_packet_good(1) [OF inv] by simp
  next
    case (proc_returns p work mem st)
    then show ?thesis using proc_packet_good(2) [OF inv] by simp
  next
    case (proc_fails p work e)
    have "proc_ok (sy_proc s)" using i(6) by (simp add: proc_fails)
    then have "e = DivideByZero"
      using process_packet_turn [of "sy_proc s" "sy_mem s" p P] proc_fails by simp
    then show ?thesis
      using i proc_fails by (intro control_good [OF inv, where r = "sy_reader s" and rpc = "sy_rpc s" and st = "sy_proc s" and ppc = "PFault e" and stop = "sy_stop s"]) auto
  next
    case proc_leaves
    then show ?thesis
      using i by (intro control_good [OF inv, where r = "sy_reader s" and rpc = "sy_rpc s" and st = "sy_proc s" and ppc = PRecycle and stop = "sy_stop s"]) auto
  next
    case proc_skips
    then show ?thesis
      using i by (intro control_good [OF inv, where r = "sy_reader s" and rpc = "sy_rpc s" and st = "sy_proc s" and ppc = PRecycle and stop = "sy_stop s"]) auto
  next
    case (proc_recycles rec b)
    then show ?thesis using proc_recycles_good [OF inv run] by simp
  next
    case (proc_ends st b work rec)
    then show ?thesis using proc_ends_good [OF inv run] by simp
  next
    case (sri_attached up)
    then show ?thesis
      using i proc_at_control
      by (intro control_good [OF inv, where r = "sy_reader s" and rpc = "sy_rpc s" and st = "setUpstreamSri up (sy_proc s)" and ppc = "sy_ppc s" and stop = "sy_stop s"])
        auto
  next
    case sri_detached
    then show ?thesis
      using i proc_at_control
      by (intro control_good [OF inv, where r = "sy_reader s" and rpc = "sy_rpc s" and st = "unsetUpstreamSri (sy_proc s)" and ppc = "sy_ppc s" and stop = "sy_stop s"])
        auto
  next
    case stops
    then have "sy_stop s = Running \<and> s' = s\<lparr>sy_reader := reader_shutDown (sy_reader s), sy_stop := ReaderTold\<rparr>
        \<or> sy_stop s = ReaderTold \<and> s' = s\<lparr>sy_proc := shutDown (sy_proc s), sy_stop := ProcTold\<rparr>"
      using assms(3) run i(7)
      by (cases "sy_stop s") (auto simp: stop_step_def running_def shutDown_flag_def shutDown_full_def shutDown_empty_def)
    then show ?thesis
    proof
      assume "sy_stop s = Running \<and> s' = s\<lparr>sy_reader := reader_shutDown (sy_reader s), sy_stop := ReaderTold\<rparr>"
      then show ?thesis
        using i stops(1) by (intro control_good [OF inv, where r = "reader_shutDown (sy_reader s)" and rpc = "sy_rpc s" and st = "sy_proc s" and ppc = "sy_ppc s" and stop = ReaderTold])
          (auto simp: reader_shutDown_def)
    next
      assume "sy_stop s = ReaderTold \<and> s' = s\<lparr>sy_proc := shutDown (sy_proc s), sy_stop := ProcTold\<rparr>"
      then show ?thesis
        using i stops(1) proc_at_control
        by (intro control_good [OF inv, where r = "sy_reader s" and rpc = "sy_rpc s" and st = "shutDown (sy_proc s)" and ppc = "sy_ppc s" and stop = ProcTold]) auto
    qed
  qed
qed

text \<open>What \<open>_start\<close> hands over: a processor in order, readable packets, two settings.\<close>

definition start_ok :: "nat \<Rightarrow> u64 \<Rightarrow> store \<Rightarrow> reader \<Rightarrow> 'a processor \<Rightarrow> bool" where
  "start_ok n np mem r st \<longleftrightarrow> (\<forall>p. wf_packet (mem p)) \<and> unat (r_pkts_per_read r) = n
     \<and> proc_ok st \<and> m_pkts_per_read st = np"

lemma started_inv:
  assumes "start_ok n np mem r st"
  shows "sys_inv base capacity n np (started base capacity mem r st)" "waiting (started base capacity mem r st) = []"
  using assms
  by (simp_all add: sys_inv_def start_ok_def started_def places_def waiting_def initialize_def
      new_packet_buffer_def)

text \<open>A run whose end has not lost its packets has not lost them before.\<close>

lemma step_not_done: "sys_step P c s ev s' \<Longrightarrow> sy_ppc s' \<noteq> PDone \<Longrightarrow> sy_ppc s \<noteq> PDone"
  by (cases rule: sys_step.cases) (auto simp: stop_step_def split: stop_pc.splits)

lemma run_keeps:
  assumes "sys_run P c s0 evs s" "sys_inv base capacity n np s0" "running s"
  shows "sys_inv base capacity n np s
    \<and> (sy_ppc s \<noteq> PDone \<longrightarrow> waiting s0 @ arrived evs = handled evs @ waiting s)"
  using assms
proof (induction rule: sys_run.induct)
  case run_start
  then show ?case by simp
next
  case (run_step evs s ev s')
  have run: "running s" using step_keeps_flag run_step.hyps(2) run_step.prems(2) by blast
  note ih = run_step.IH [OF run_step.prems(1) run]
  have good: "good_step base capacity n np s ev s'"
    using step_good [OF run_step.hyps(2) _ run_step.prems(2)] ih by blast
  then show ?case using ih step_not_done [OF run_step.hyps(2)] by (auto simp: good_step_def)
qed

lemma run_good:
  assumes "sys_run P c s0 evs s" "sys_inv base capacity n np s0" "waiting s0 = []" "running s"
  shows "sys_inv base capacity n np s \<and> (sy_ppc s \<noteq> PDone \<longrightarrow> arrived evs = handled evs @ waiting s)"
  using run_keeps [OF assms(1,2,4)] assms(3) by simp

section \<open>Deadlock\<close>

definition reader_blocked :: "bool \<Rightarrow> 'a system \<Rightarrow> bool" where
  "reader_blocked c s \<longleftrightarrow> (case sy_rpc s of
       RFill errno \<Rightarrow> reader_fill errno (sy_reader s) (sy_buf s) = None
     | RRefill k addrs \<Rightarrow> reader_refill c addrs k (sy_reader s) (sy_loop s) (sy_buf s) = None
     | _ \<Rightarrow> False)"

definition proc_blocked :: "'a system \<Rightarrow> bool" where
  "proc_blocked s \<longleftrightarrow> sy_ppc s = PPop
     \<and> pop_full_buffers (sy_work s) (unat (m_pkts_per_read (sy_proc s))) (sy_buf s) = None"

lemma reader_blocked_few:
  assumes "reader_blocked c s" "unat (r_pkts_per_read (sy_reader s)) = n" "reader_at n (sy_rpc s) (sy_loop s)"
  shows "length (rl_bufQue (sy_loop s)) + length (buf_empty (sy_buf s)) < n"
  using assms
  by (auto simp: reader_blocked_def reader_fill_def reader_refill_def pop_empty_blocks_iff Let_def
      split: reader_pc.splits option.splits)

lemma places_length: "sys_inv base capacity n np s \<Longrightarrow> length (places s) = capacity"
  using sys_invD(1) [of base capacity n np s] by (metis length_upt add_diff_cancel_left' size_mset)

lemma no_deadlock:
  assumes inv: "sys_inv base capacity n np s" and enough: "n + unat np \<le> capacity + 1"
  shows "\<not> (reader_blocked c s \<and> proc_blocked s)"
proof
  assume blocked: "reader_blocked c s \<and> proc_blocked s"
  note i = sys_invD [OF inv]
  have "length (rl_bufQue (sy_loop s)) + length (buf_empty (sy_buf s)) < n"
    using reader_blocked_few blocked i(4,5) by blast
  moreover have "length (sy_work s) + length (buf_full (sy_buf s)) < unat np" "sy_rec s = []"
    using blocked i(6) by (auto simp: proc_blocked_def pop_full_blocks_iff)
  ultimately have "length (places s) + 2 \<le> n + unat np" by (simp add: places_def)
  with places_length [OF inv] enough show False by simp
qed

text \<open>
  With fewer packets the two threads can wait for each other. Such a run: both threads start, and
  the socket delivers single packets until no empty buffer is left. \<open>idle\<close> describes its states.
\<close>

definition idle :: "nat \<Rightarrow> nat \<Rightarrow> nat \<Rightarrow> u64 \<Rightarrow> nat \<Rightarrow> 'a system \<Rightarrow> bool" where
  "idle base capacity n np m s \<longleftrightarrow> sys_inv base capacity n np s \<and> running s
     \<and> sy_rpc s = RRecv \<and> rl_errno (sy_loop s) = 0 \<and> \<not> r_shuttingDown (sy_reader s)
     \<and> sy_ppc s = PPop \<and> sy_work s = [] \<and> length (buf_empty (sy_buf s)) = m"

definition datagram :: "u8 list \<Rightarrow> received" where
  "datagram d = Received [(1, d)]"

lemma idle_gets:
  assumes idle: "idle base capacity n np m s" and n: "0 < n" and d: "length d = 1080"
  shows "\<exists>s'. sys_step P c s (Arrive [packet_of_bytes d]) s' \<and> sys_inv base capacity n np s' \<and> running s'
    \<and> sy_rpc s' = RRefill 1 [1] \<and> \<not> r_shuttingDown (sy_reader s')
    \<and> sy_ppc s' = PPop \<and> sy_work s' = [] \<and> length (buf_empty (sy_buf s')) = m \<and> sy_proc s' = sy_proc s"
proof -
  have inv: "sys_inv base capacity n np s" and run: "running s" and pc: "sy_rpc s = RRecv"
    and errno: "rl_errno (sy_loop s) = 0" using idle by (simp_all add: idle_def)
  note i = sys_invD [OF inv]
  have ok: "reader_ok n (sy_loop s)" using i(5) by (simp add: pc)
  have run': "\<not> buf_shuttingDown (sy_buf s)" using run by (simp add: running_def)
  let ?q = "rl_bufQue (sy_loop s)"
  let ?l = "(sy_loop s)\<lparr>rl_bufQue := drop 1 ?q\<rparr>"
  let ?mem = "store_datagrams ?q [d] (sy_mem s)"
  let ?b = "(sy_buf s)\<lparr>buf_full := buf_full (sy_buf s) @ take 1 ?q\<rparr>"
  let ?s = "s\<lparr>sy_reader := sy_reader s, sy_loop := ?l, sy_mem := ?mem, sy_buf := ?b, sy_rpc := RRefill 1 (senders (datagram d))\<rparr>"
  have kernel: "kernel_ok (unat (r_pkts_per_read (sy_reader s))) (datagram d)"
    using n i(4) by (simp add: kernel_ok_def datagram_def)
  have rcv: "reader_receive c (datagram d) (sy_reader s) (sy_loop s) (sy_mem s) (sy_buf s)
      = Inr (Some 1, sy_reader s, ?l, ?mem, ?b)"
    using reader_receive_happy [OF ok errno run', of "[(1, d)]" c "sy_reader s" "sy_mem s"] n
    by (simp add: datagram_def)
  have step: "sys_step P c s (Arrive [packet_of_bytes d]) ?s"
  proof -
    have "received_packets (rl_iov (sy_loop s)) (sy_mem s) (datagram d) = [packet_of_bytes d]"
      using received_full [of "[(1, d)]" "rl_iov (sy_loop s)" "sy_mem s"] ok n d i(3) by (simp add: datagram_def reader_ok_def)
    with reader_gets [where P = P, OF pc kernel rcv] show ?thesis by simp
  qed
  have run2: "running ?s" using run' by (simp add: running_def)
  have "sys_inv base capacity n np ?s"
    using step_good [OF step inv run2] by (simp add: good_step_def)
  then show ?thesis
    using step run2 idle by (intro exI [of _ ?s] conjI) (simp_all add: idle_def senders_def datagram_def)
qed

lemma idle_refills:
  assumes inv: "sys_inv base capacity n np s" and run: "running s" and pc: "sy_rpc s = RRefill 1 [1]"
    and r: "\<not> r_shuttingDown (sy_reader s)" and n: "0 < n"
    and p: "sy_ppc s = PPop" "sy_work s = []"
    and m: "length (buf_empty (sy_buf s)) = Suc m"
  shows "\<exists>s1 s2. sys_step P c s Tau s1 \<and> sys_step P c s1 Tau s2 \<and> idle base capacity n np m s2"
proof -
  note i = sys_invD [OF inv]
  have handed: "reader_handed n 1 (sy_loop s)" "rl_errno (sy_loop s) = 0" using i(5) by (simp_all add: pc)
  have run': "\<not> buf_shuttingDown (sy_buf s)" using run by (simp add: running_def)
  have len: "length (rl_bufQue (sy_loop s)) = n - 1" using handed(1) by (simp add: reader_handed_def)
  have "pop_empty_buffers (rl_bufQue (sy_loop s)) n (sy_buf s) \<noteq> None"
    using m len n by (auto simp: pop_empty_blocks_iff)
  then obtain res where res: "reader_refill c [1] 1 (sy_reader s) (sy_loop s) (sy_buf s) = Some res"
    using i(4) by (auto simp: reader_refill_def)
  show ?thesis
  proof (rule reader_refill_happy [OF handed(1) run' i(4) [symmetric] res])
    fix r' l' new b'
    assume f: "res = Inr (r', l', b')" "rl_bufQue l' = new @ rl_bufQue (sy_loop s)"
      "length (rl_bufQue l') = n" "rl_errno l' = rl_errno (sy_loop s)" "\<not> buf_shuttingDown b'"
      "r_shuttingDown r' = r_shuttingDown (sy_reader s)" "buf_empty (sy_buf s) = new @ buf_empty b'"
    let ?s1 = "s\<lparr>sy_reader := r', sy_loop := l', sy_buf := b', sy_rpc := RTop\<rparr>"
    let ?s2 = "?s1\<lparr>sy_rpc := RRecv\<rparr>"
    have one: "sys_step P c s Tau ?s1" using reader_refills [OF pc, of c r' l' b' P] res f(1) by simp
    have two: "sys_step P c ?s1 Tau ?s2" by (rule reader_tests) (simp_all add: f(6) r)
    have run2: "running ?s1" "running ?s2" using f(5) by (simp_all add: running_def)
    have "sys_inv base capacity n np ?s1"
      using step_good [OF one inv run2(1)] by (simp add: good_step_def)
    then have "sys_inv base capacity n np ?s2"
      using step_good [OF two _ run2(2)] by (simp add: good_step_def)
    moreover have "length new = 1" using f(2,3) len n by simp
    then have "length (buf_empty b') = m" using m f(7) by simp
    ultimately have "idle base capacity n np m ?s2"
      using run2 f p r handed(2) by (simp add: idle_def)
    with one two show ?thesis by blast
  qed
qed

lemma idle_run:
  assumes "sys_run P c s0 evs s" "idle base capacity n np (m + k) s" "0 < n"
  shows "\<exists>evs' s'. sys_run P c s0 evs' s' \<and> idle base capacity n np m s'"
  using assms(1,2)
proof (induction k arbitrary: evs s)
  case (Suc k)
  have "idle base capacity n np (Suc (m + k)) s" using Suc.prems(2) by simp
  from idle_gets [OF this assms(3) length_replicate, of P c 0] obtain s1 where one:
    "sys_step P c s (Arrive [packet_of_bytes (replicate 1080 0)]) s1"
    "sys_inv base capacity n np s1" "running s1" "sy_rpc s1 = RRefill 1 [1]" "\<not> r_shuttingDown (sy_reader s1)"
    "sy_ppc s1 = PPop" "sy_work s1 = []" "length (buf_empty (sy_buf s1)) = Suc (m + k)" by blast
  from idle_refills [OF one(2-5) assms(3) one(6-8), of P c] obtain s2 s3 where
    two: "sys_step P c s1 Tau s2" "sys_step P c s2 Tau s3" "idle base capacity n np (m + k) s3" by blast
  from Suc.IH [OF run_step [OF run_step [OF run_step [OF Suc.prems(1) one(1)] two(1)] two(2)] two(3)] show ?case .
qed auto

lemma idle_blocks:
  assumes idle: "idle base capacity n np 0 s" and n: "0 < n" and few: "capacity + 2 \<le> n + unat np"
  shows "\<exists>ev s'. sys_step P c s ev s' \<and> running s' \<and> reader_blocked c s' \<and> proc_blocked s'"
proof -
  from idle_gets [OF idle n length_replicate, of P c 0] obtain s1 where one:
    "sys_step P c s (Arrive [packet_of_bytes (replicate 1080 0)]) s1"
    "sys_inv base capacity n np s1" "running s1" "sy_rpc s1 = RRefill 1 [1]"
    "sy_ppc s1 = PPop" "sy_work s1 = []" "length (buf_empty (sy_buf s1)) = 0" by blast
  note i = sys_invD [OF one(2)]
  have run: "\<not> buf_shuttingDown (sy_buf s1)" using one(3) by (simp add: running_def)
  have handed: "reader_handed n 1 (sy_loop s1)" using i(5) by (simp add: one(4))
  then have len: "length (rl_bufQue (sy_loop s1)) = n - 1" by (simp add: reader_handed_def)
  have proc: "sy_rec s1 = []" "m_pkts_per_read (sy_proc s1) = np" using i(6) by (simp_all add: one(5))
  have "n - 1 + length (buf_full (sy_buf s1)) = capacity"
    using places_length [OF one(2)] len one(6,7) proc(1) by (simp add: places_def)
  then have "length (buf_full (sy_buf s1)) < unat np" using few n by simp
  then have "proc_blocked s1"
    using one(5,6) proc(2) run by (simp add: proc_blocked_def pop_full_blocks_iff)
  moreover have "pop_empty_buffers (rl_bufQue (sy_loop s1)) n (sy_buf s1) = None"
    using one(7) len n run by (auto simp: pop_empty_blocks_iff)
  then have "reader_blocked c s1"
    by (simp add: reader_blocked_def reader_refill_def one(4) i(4))
  ultimately show ?thesis using one(1,3) by blast
qed

text \<open>Both threads start: the run to the first idle state.\<close>

lemma start_run:
  assumes ok: "start_ok n np mem r st" and n: "n \<le> capacity"
  shows "\<exists>s. sys_run P c (started base capacity mem r st) (replicate 5 Tau) s \<and> idle base capacity n np (capacity - n) s
    \<and> \<not> m_shuttingDown (sy_proc s)"
proof -
  let ?s0 = "started base capacity mem r st"
  obtain errno r1 where first: "reader_begin 0 0 0 r = (errno, r1)" by (cases "reader_begin 0 0 0 r")
  then have r1: "errno = 0" "r_pkts_per_read r1 = r_pkts_per_read r" "\<not> r_shuttingDown r1"
    by (auto simp: reader_begin_def Let_def)
  let ?s1 = "?s0\<lparr>sy_reader := r1, sy_rpc := RFill errno\<rparr>"
  have one: "sys_step P c ?s0 Tau ?s1"
    by (rule reader_starts [where e_fcntl = 0 and e_setopt = 0 and rcvbuf = 0])
      (use first in \<open>simp_all add: started_def\<close>)
  let ?s2 = "?s1\<lparr>sy_proc := run_begin (sy_proc ?s1), sy_ppc := PTop\<rparr>"
  have two: "sys_step P c ?s1 Tau ?s2" by (rule proc_starts) (simp add: started_def)
  let ?s3 = "?s2\<lparr>sy_ppc := PPop\<rparr>"
  have three: "sys_step P c ?s2 Tau ?s3" by (rule proc_tests) (simp_all add: run_begin_def)
  let ?l = "\<lparr>rl_errno = 0, rl_bufQue = [base ..< base + n], rl_iov = [base ..< base + n]\<rparr>"
  let ?b = "(sy_buf ?s0)\<lparr>buf_empty := [base + n ..< base + capacity]\<rparr>"
  let ?s4 = "?s3\<lparr>sy_loop := ?l, sy_buf := ?b, sy_rpc := RTop\<rparr>"
  have fill: "reader_fill errno (sy_reader ?s3) (sy_buf ?s3) = Some (Inr (?l, ?b))"
    using ok n r1 by (auto simp: reader_fill_def buffer_ops started_def initialize_def new_packet_buffer_def
        start_ok_def drop_upt take_upt)
  have four: "sys_step P c ?s3 Tau ?s4" by (rule reader_fills [OF _ fill]) simp
  let ?s5 = "?s4\<lparr>sy_rpc := RRecv\<rparr>"
  have five: "sys_step P c ?s4 Tau ?s5" by (rule reader_tests) (simp_all add: r1)
  have run: "sys_run P c ?s0 ((((([] @ [Tau]) @ [Tau]) @ [Tau]) @ [Tau]) @ [Tau]) ?s5"
    by (rule run_step [OF run_step [OF run_step [OF run_step [OF run_step [OF run_start one] two] three] four] five])
  have run5: "running ?s5" by (simp add: running_def started_def initialize_def new_packet_buffer_def)
  have "sys_inv base capacity n np ?s5"
    using run_good [OF run started_inv [OF ok] run5] by blast
  moreover have "idle base capacity n np (capacity - n) ?s5 \<longleftrightarrow> sys_inv base capacity n np ?s5"
    using run5 r1 by (simp add: idle_def started_def)
  moreover have "\<not> m_shuttingDown (sy_proc ?s5)" by (simp add: run_begin_def)
  ultimately show ?thesis using run by (auto simp: numeral_eq_Suc)
qed

lemma deadlock_run:
  assumes "start_ok n np mem r st" "0 < n" "n \<le> capacity" "capacity + 2 \<le> n + unat np"
  shows "\<exists>evs s. sys_run P c (started base capacity mem r st) evs s \<and> running s \<and> reader_blocked c s \<and> proc_blocked s"
proof -
  from start_run [OF assms(1,3), of P c base] obtain s1 where one:
    "sys_run P c (started base capacity mem r st) (replicate 5 Tau) s1" "idle base capacity n np (0 + (capacity - n)) s1" by auto
  from idle_run [OF one assms(2)] obtain evs2 s2 where two:
    "sys_run P c (started base capacity mem r st) evs2 s2" "idle base capacity n np 0 s2" by blast
  from idle_blocks [OF two(2) assms(2,4), of P c] obtain ev s3 where
    "sys_step P c s2 ev s3" "running s3" "reader_blocked c s3" "proc_blocked s3" by blast
  with run_step [OF two(1)] show ?thesis by blast
qed

section \<open>Stopping\<close>

text \<open>A stop that comes before the processing thread's first line is undone by it.\<close>

definition stop_lost :: "'a system \<Rightarrow> bool" where
  "stop_lost s \<longleftrightarrow> sy_stop s = Stopped \<and> \<not> running s \<and> sy_work s = [] \<and> sy_rec s = []
     \<and> (case sy_ppc s of PStart \<Rightarrow> True | PDone \<Rightarrow> False | PFault e \<Rightarrow> False
        | _ \<Rightarrow> \<not> m_shuttingDown (sy_proc s))"

lemma stop_lost_step:
  assumes "sys_step P c s ev s'" "stop_lost s"
  shows "stop_lost s'"
proof -
  have flag: "buf_shuttingDown (sy_buf s)" "\<not> running s'"
    using assms step_keeps_flag by (auto simp: stop_lost_def running_def)
  show ?thesis
    using assms flag
    by (cases rule: sys_step.cases)
      (auto simp: stop_lost_def run_begin_def stopping_never_blocks setUpstreamSri_def unsetUpstreamSri_def
        split: proc_pc.splits)
qed

lemma stop_lost_run: "sys_run P c s evs s' \<Longrightarrow> stop_lost s \<Longrightarrow> stop_lost s'"
  by (induction rule: sys_run.induct) (auto intro: stop_lost_step)

definition stopped_early :: "'a system \<Rightarrow> 'a system" where
  "stopped_early s = stop_step (stop_step (stop_step (stop_step (stop_step s))))"

lemmas stop_defs = stopped_early_def stop_step_def started_def shutDown_flag_def shutDown_full_def
  shutDown_empty_def

lemma stopped_early_lost: "stop_lost (stopped_early (started base capacity mem r st))"
  by (simp add: stop_lost_def stop_defs running_def)

lemma stopped_early_run:
  "sys_run P c (started base capacity mem r st) [Tau, Tau, Tau, Tau, Tau] (stopped_early (started base capacity mem r st))"
proof -
  let ?s = "started base capacity mem r st"
  have more: "sys_run P c ?s (evs @ [Tau]) (stop_step s)"
    if "sy_stop s \<noteq> Stopped" "sys_run P c ?s evs s" for evs s
    by (rule run_step [OF that(2) stops [OF that(1)]])
  have "sys_run P c ?s ((((([] @ [Tau]) @ [Tau]) @ [Tau]) @ [Tau]) @ [Tau]) (stopped_early ?s)"
    unfolding stopped_early_def
    by (intro more run_start) (simp_all add: stop_defs)
  then show ?thesis by simp
qed

text \<open>The processor is well-formed in every state, whatever the stop has done to the buffer.\<close>

lemma run_end_ok: "run_end P st b work rec = (st', b', work', rec') \<Longrightarrow> proc_ok st \<Longrightarrow> proc_ok st'"
  by (auto simp: run_end_def Let_def proc_ok_def close_streams_eq append_calls_def coherent_def split: prod.splits if_splits)

lemma step_proc_ok:
  assumes "sys_step P c s ev s'" "proc_ok (sy_proc s)"
  shows "proc_ok (sy_proc s')"
  using assms
proof (cases rule: sys_step.cases)
  case (proc_handles p work mem st)
  then show ?thesis using process_packet_turn [OF assms(2), of "sy_mem s" p P] by (simp add: turn_ok_def)
next
  case (proc_returns p work mem st)
  then show ?thesis using process_packet_turn [OF assms(2), of "sy_mem s" p P] by (simp add: turn_ok_def)
next
  case (proc_ends st b work rec)
  then show ?thesis using run_end_ok [OF _ assms(2)] by simp
next
  case stops
  then show ?thesis using assms(2) by (auto simp: stop_step_def split: stop_pc.splits)
qed (use assms(2) in simp_all)

lemma run_proc_ok: "sys_run P c s0 evs s \<Longrightarrow> proc_ok (sy_proc s0) \<Longrightarrow> proc_ok (sy_proc s)"
  by (induction rule: sys_run.induct) (auto intro: step_proc_ok)

text \<open>A thread that has been told to stop behind its first line, and finds the flag of the buffer up when it
  tests it: a bound on the steps it has left.\<close>

definition proc_left :: "'a system \<Rightarrow> nat" where
  "proc_left s = (case sy_ppc s of PTop \<Rightarrow> 1 | PRecycle \<Rightarrow> 2 | PWork \<Rightarrow> 3 | PPop \<Rightarrow> 4
     | PPass \<Rightarrow> length (sy_work s) + 3 | _ \<Rightarrow> 0)"

definition proc_ended :: "'a system \<Rightarrow> bool" where
  "proc_ended s \<longleftrightarrow> sy_ppc s = PDone \<or> (\<exists>e. sy_ppc s = PFault e)"

definition stop_sent :: "'a system \<Rightarrow> bool" where
  "stop_sent s \<longleftrightarrow> m_shuttingDown (sy_proc s) \<and> \<not> running s \<and> sy_ppc s \<noteq> PStart \<and> proc_ok (sy_proc s)"

lemma run_end_keeps_stop:
  "run_end P st b work rec = (st', b', work', rec') \<Longrightarrow> m_shuttingDown st' = m_shuttingDown st"
  by (auto simp: run_end_def Let_def close_streams_def close_stream_def split: prod.splits)
    (cases "floatStream st"; cases "shortStream st"; cases "octetStream st"; simp)+

lemma stop_sent_step:
  assumes "sys_step P c s ev s'" "stop_sent s"
  shows "stop_sent s' \<and> (proc_left s' < proc_left s \<or> sy_ppc s' = sy_ppc s \<and> sy_work s' = sy_work s)"
proof -
  have s: "m_shuttingDown (sy_proc s)" "buf_shuttingDown (sy_buf s)" "sy_ppc s \<noteq> PStart" "proc_ok (sy_proc s)"
    using assms(2) by (simp_all add: stop_sent_def running_def)
  have kept: "\<not> running s'" "proc_ok (sy_proc s')"
    using step_keeps_flag [OF assms(1)] step_proc_ok [OF assms(1) s(4)] s(2) by (simp_all add: running_def)
  have packet: "m_shuttingDown st" if "process_packet P p (sy_mem s) (sy_proc s) = Inr (out, mem, st)" for p out mem st
    using process_packet_turn [OF s(4), of "sy_mem s" p P] that s(1) by (simp add: turn_ok_def same_config_def)
  show ?thesis
    using assms(1)
  proof (cases rule: sys_step.cases)
    case (proc_ends st b work rec)
    then show ?thesis using kept s run_end_keeps_stop [OF proc_ends(5)] by (simp add: stop_sent_def proc_left_def)
  next
    case stops
    then show ?thesis using kept s by (auto simp: stop_sent_def stop_step_def shutDown_def split: stop_pc.splits)
  qed (use kept s packet in \<open>simp_all add: stop_sent_def proc_left_def setUpstreamSri_def unsetUpstreamSri_def\<close>)
qed

lemma stop_sent_enabled:
  assumes "stop_sent s"
  shows "proc_ended s \<or> (\<exists>ev s'. sys_step P c s ev s' \<and> proc_left s' < proc_left s)"
proof -
  have s: "m_shuttingDown (sy_proc s)" "buf_shuttingDown (sy_buf s)" "sy_ppc s \<noteq> PStart"
    using assms by (simp_all add: stop_sent_def running_def)
  have "\<exists>ev s'. sys_step P c s ev s' \<and> (sy_ppc s' \<noteq> sy_ppc s \<or> sy_work s' \<noteq> sy_work s)" if "\<not> proc_ended s"
  proof (cases "sy_ppc s")
    case PTop
    obtain st b work rec where "run_end P (sy_proc s) (sy_buf s) (sy_work s) (sy_rec s) = (st, b, work, rec)"
      by (cases "run_end P (sy_proc s) (sy_buf s) (sy_work s) (sy_rec s)") auto
    from proc_ends [OF PTop s(1) this, of c] show ?thesis using PTop by force
  next
    case PPop
    from proc_pops [OF this stopping_never_blocks(2) [OF s(2)], of P c] show ?thesis using PPop by force
  next
    case PWork
    from proc_skips [OF this s(1), of P c] show ?thesis using PWork by force
  next
    case PRecycle
    obtain rec b where "recycle_buffers (sy_rec s) (sy_buf s) = (rec, b)"
      by (cases "recycle_buffers (sy_rec s) (sy_buf s)")
    from proc_recycles [OF PRecycle this, of P c] show ?thesis using PRecycle by force
  next
    case PPass
    show ?thesis
    proof (cases "sy_work s")
      case Nil
      from proc_leaves [OF PPass this, of P c] show ?thesis using PPass by force
    next
      case (Cons p work)
      show ?thesis
      proof (cases "process_packet P p (sy_mem s) (sy_proc s)")
        case (Inl e)
        from proc_fails [OF PPass Cons this, of c] show ?thesis using PPass by force
      next
        case (Inr r)
        then obtain out mem st where "process_packet P p (sy_mem s) (sy_proc s) = Inr (out, mem, st)" by (cases r) auto
        then show ?thesis
          using proc_handles [OF PPass Cons, of P mem st c] proc_returns [OF PPass Cons, of P mem st c] PPass Cons
          by (cases out) force+
      qed
    qed
  qed (use s that in \<open>simp_all add: proc_ended_def\<close>)
  then show ?thesis using stop_sent_step [OF _ assms] by blast
qed

lemma proc_left_bound: "proc_left s \<le> length (sy_work s) + 4"
  by (simp add: proc_left_def split: proc_pc.splits)

section \<open>Properties\<close>

lemma sample_start: "start_ok 1 500 (\<lambda>_. blank_packet) new_reader sample_processor"
  using sample_ok by (simp add: start_ok_def blank_packet_def wf_packet_of_bytes new_reader_def
      sample_defs DEFAULT_PKTS_PER_READ_def)

text \<open>A run in which one packet has arrived.\<close>

lemma one_arrives:
  assumes "start_ok n np mem r st" "0 < n" "n \<le> capacity" "length d = 1080"
  shows "\<exists>s. sys_run P c (started base capacity mem r st) (replicate 5 Tau @ [Arrive [packet_of_bytes d]]) s
    \<and> sys_inv base capacity n np s \<and> running s \<and> sy_ppc s = PPop \<and> sy_work s = []
    \<and> \<not> m_shuttingDown (sy_proc s)"
proof -
  obtain s where run: "sys_run P c (started base capacity mem r st) (replicate 5 Tau) s"
    "idle base capacity n np (capacity - n) s" "\<not> m_shuttingDown (sy_proc s)"
    using start_run [OF assms(1,3), of P c base] by auto
  obtain s' where "sys_step P c s (Arrive [packet_of_bytes d]) s'" "sys_inv base capacity n np s'" "running s'"
    "sy_ppc s' = PPop" "sy_work s' = []" "sy_proc s' = sy_proc s"
    using idle_gets [OF run(2) assms(2,4), of P c]
    by blast
  with sys_run.run_step [OF run(1)] run(3) show ?thesis by metis
qed

lemma sample_run:
  "\<exists>evs s. sys_run sample_platform False (started 0 4 (\<lambda>_. blank_packet) new_reader sample_processor)
      (evs @ [Arrive [blank_packet]]) s \<and> running s \<and> sy_ppc s = PPop"
  using one_arrives [OF sample_start, of 4 "replicate 1080 0" sample_platform False 0]
  by (auto simp flip: blank_packet_def)

text \<open>C4: End to end, over every interleaving of the socket reader, the processing thread, changes
  of the upstream SRI and the beginning of a stop: as long as the buffer is running, the packets
  that arrived are those processed so far followed by those still waiting, in the order of their
  arrival and with the contents that arrived.\<close>

theorem pipeline_delivers_in_order:
  assumes "start_ok n np mem r st" "sys_run P c (started base capacity mem r st) evs s"
    "\<not> buf_shuttingDown (sy_buf s)" "sy_ppc s \<noteq> PDone"
  shows "arrived evs = handled evs @ map (sy_mem s) (sy_work s @ buf_full (sy_buf s))"
  using run_good [OF assms(2) started_inv [OF assms(1)]] assms(3,4) by (simp add: running_def waiting_def)

lemma pipeline_delivers_in_order_witness:
  "\<exists>evs s. sys_run sample_platform False (started 0 4 (\<lambda>_. blank_packet) new_reader sample_processor)
      (evs @ [Arrive [blank_packet]]) s
    \<and> arrived evs @ [blank_packet] = handled evs @ map (sy_mem s) (sy_work s @ buf_full (sy_buf s))"
proof -
  obtain evs s where run: "sys_run sample_platform False (started 0 4 (\<lambda>_. blank_packet) new_reader sample_processor)
      (evs @ [Arrive [blank_packet]]) s" "running s" "sy_ppc s = PPop" using sample_run by blast
  have "\<not> buf_shuttingDown (sy_buf s)" "sy_ppc s \<noteq> PDone" using run by (simp_all add: running_def)
  from pipeline_delivers_in_order [OF sample_start run(1) this] run(1) show ?thesis by auto
qed

text \<open>C5: In every state that a run of a started pipeline reaches while the buffer is not shutting down,
  each packet of the buffer is in exactly one place: with the reader, in the empty or the full deque, or
  in the work or the recycle queue of the processor. So until a stop raises the flag of the buffer the two
  threads never work on the same packet, although the buffer hands out pointers; the reader does not
  index its queue out of range, and the only fault of the processor is its division by zero. (Once the flag
  is up the pops return empty handed and the reader can index past its queue.)\<close>

theorem packets_have_one_owner:
  assumes "start_ok n np mem r st" "sys_run P c (started base capacity mem r st) evs s"
    "\<not> buf_shuttingDown (sy_buf s)"
  shows "distinct (rl_bufQue (sy_loop s) @ buf_empty (sy_buf s) @ buf_full (sy_buf s) @ sy_work s @ sy_rec s)
    \<and> set (rl_bufQue (sy_loop s) @ buf_empty (sy_buf s) @ buf_full (sy_buf s) @ sy_work s @ sy_rec s) = {base ..< base + capacity}
    \<and> sy_rpc s \<noteq> RFault \<and> (\<forall>e. sy_ppc s = PFault e \<longrightarrow> e = DivideByZero)"
proof -
  have inv: "sys_inv base capacity n np s"
    using run_good [OF assms(2) started_inv [OF assms(1)]] assms(3) by (simp add: running_def)
  note i = sys_invD [OF inv]
  have "set (places s) = {base ..< base + capacity}" using i(1) by (metis atLeastLessThan_upt mset_eq_setD)
  moreover have "sy_rpc s \<noteq> RFault" using i(5) by auto
  moreover have "\<forall>e. sy_ppc s = PFault e \<longrightarrow> e = DivideByZero" using i(6) by auto
  ultimately show ?thesis using i(2) by (simp add: places_def)
qed

lemma packets_have_one_owner_witness:
  "\<exists>evs s. sys_run sample_platform False (started 0 4 (\<lambda>_. blank_packet) new_reader sample_processor)
      (evs @ [Arrive [blank_packet]]) s \<and> sy_rpc s \<noteq> RFault"
proof -
  obtain evs s where run: "sys_run sample_platform False (started 0 4 (\<lambda>_. blank_packet) new_reader sample_processor)
      (evs @ [Arrive [blank_packet]]) s" "running s" using sample_run by blast
  have "\<not> buf_shuttingDown (sy_buf s)" using run by (simp add: running_def)
  from packets_have_one_owner [OF sample_start run(1) this] run(1) show ?thesis by blast
qed

lemma deadlock_iff:
  assumes "start_ok n np mem r st" "0 < n" "n \<le> capacity"
  shows "(\<exists>evs s. sys_run P c (started base capacity mem r st) evs s \<and> \<not> buf_shuttingDown (sy_buf s)
      \<and> reader_blocked c s \<and> proc_blocked s) \<longleftrightarrow> capacity + 2 \<le> n + unat np"
proof
  assume "\<exists>evs s. sys_run P c (started base capacity mem r st) evs s \<and> \<not> buf_shuttingDown (sy_buf s)
      \<and> reader_blocked c s \<and> proc_blocked s"
  then obtain evs s where s: "sys_run P c (started base capacity mem r st) evs s" "running s"
    "reader_blocked c s" "proc_blocked s" by (auto simp: running_def)
  have "sys_inv base capacity n np s" using run_good [OF s(1) started_inv [OF assms(1)] s(2)] by blast
  from no_deadlock [OF this, of c] s(3,4) show "capacity + 2 \<le> n + unat np" by linarith
next
  assume "capacity + 2 \<le> n + unat np"
  from deadlock_run [OF assms this, of P c]
  show "\<exists>evs s. sys_run P c (started base capacity mem r st) evs s \<and> \<not> buf_shuttingDown (sy_buf s)
      \<and> reader_blocked c s \<and> proc_blocked s" by (auto simp: running_def)
qed

text \<open>C13: The two threads can come to wait for each other, the reader for empty and the processor for
  full packets, exactly when the buffer has fewer packets than the sum of the packets per socket
  read and per push minus one. The defaults (20000, 500, 1000) are far from that, but nothing
  checks the properties a user sets.\<close>

theorem deadlock_iff_too_few_packets:
  assumes "start_ok n np mem r st" "0 < n" "n \<le> capacity"
  shows "(\<exists>evs s. sys_run P c (started base capacity mem r st) evs s \<and> \<not> buf_shuttingDown (sy_buf s)
      \<and> reader_blocked c s \<and> proc_blocked s) \<longleftrightarrow> capacity + 2 \<le> n + unat np"
  using assms by (rule deadlock_iff)

lemma deadlock_iff_too_few_packets_witness:
  "\<exists>evs s. sys_run sample_platform False (started 0 4 (\<lambda>_. blank_packet) new_reader sample_processor) evs s
      \<and> \<not> buf_shuttingDown (sy_buf s) \<and> reader_blocked False s \<and> proc_blocked s"
  using deadlock_iff_too_few_packets [OF sample_start, of 4 sample_platform False 0] by simp

text \<open>C16: A stop that overtakes the start is lost: when \<open>destroyBuffersAndJoinThreads\<close> has set all flags
  before the processing thread executes its first line, that line takes its flag down again, and
  in no continuation does the thread end, so the join never returns.\<close>

theorem early_stop_is_lost:
  assumes "sys_run P c (stopped_early (started base capacity mem r st)) evs s"
  shows "sy_ppc s \<noteq> PDone \<and> (sy_ppc s \<noteq> PStart \<longrightarrow> \<not> m_shuttingDown (sy_proc s))"
  using stop_lost_run [OF assms stopped_early_lost] by (auto simp: stop_lost_def split: proc_pc.splits)

lemma early_stop_is_lost_witness:
  "\<exists>s. sys_run sample_platform False
      (stopped_early (started 0 4 (\<lambda>_. blank_packet) new_reader sample_processor)) [Tau] s
    \<and> sy_ppc s = PTop \<and> \<not> m_shuttingDown (sy_proc s)"
proof -
  let ?s = "stopped_early (started 0 4 (\<lambda>_. blank_packet) new_reader sample_processor)"
  let ?t = "?s\<lparr>sy_proc := run_begin (sy_proc ?s), sy_ppc := PTop\<rparr>"
  have "sys_run sample_platform False ?s ([] @ [Tau]) ?t"
    by (rule run_step [OF run_start proc_starts]) (simp add: stop_defs)
  from this early_stop_is_lost [OF this] show ?thesis by auto
qed

section \<open>Joining\<close>

text \<open>A thread that has ended, which is what a join waits for, is not marked as running.\<close>

definition ended_quiet :: "'a system \<Rightarrow> bool" where
  "ended_quiet s \<longleftrightarrow> (sy_rpc s = RDone \<longrightarrow> \<not> r_running (sy_reader s))
     \<and> (sy_ppc s = PDone \<longrightarrow> \<not> m_running (sy_proc s) \<and> m_first_packet (sy_proc s))"

lemma step_ended_quiet: "sys_step P c s ev s' \<Longrightarrow> ended_quiet s \<Longrightarrow> ended_quiet s'"
  by (erule sys_stepE)
    (auto simp: ended_quiet_def reader_end_def run_end_def run_begin_def stop_step_def Let_def
      reader_shutDown_def shutDown_def setUpstreamSri_def unsetUpstreamSri_def
      split: stop_pc.splits prod.splits)

text \<open>A buffer that has been shut down takes nothing in any more.\<close>

definition drained :: "stop_pc \<Rightarrow> packet_buffer \<Rightarrow> bool" where
  "drained pc b \<longleftrightarrow> (pc \<in> {FlagUp, FullCleared, Stopped} \<longrightarrow> buf_shuttingDown b)
     \<and> (pc \<in> {FullCleared, Stopped} \<longrightarrow> buf_full b = []) \<and> (pc = Stopped \<longrightarrow> buf_empty b = [])"

lemma ops_keep_drained:
  "reader_fill errno r b = Some (Inr (l, b')) \<Longrightarrow> drained pc b \<Longrightarrow> drained pc b'"
  "reader_receive c rcv r l mem b = Inr (k, r', l', mem', b') \<Longrightarrow> drained pc b \<Longrightarrow> drained pc b'"
  "reader_refill c addrs m r l b = Some (Inr (r', l', b')) \<Longrightarrow> drained pc b \<Longrightarrow> drained pc b'"
  "reader_end r l b = (r', l', b') \<Longrightarrow> drained pc b \<Longrightarrow> drained pc b'"
  "pop_full_buffers q m b = Some (q', b') \<Longrightarrow> drained pc b \<Longrightarrow> drained pc b'"
  "recycle_buffers q b = (q', b') \<Longrightarrow> drained pc b \<Longrightarrow> drained pc b'"
  "run_end P st b work rec = (st', b', work', rec') \<Longrightarrow> drained pc b \<Longrightarrow> drained pc b'"
  by (auto simp: drained_def reader_fill_def reader_receive_def reader_refill_def reader_end_def run_end_def
      buffer_ops split: if_splits option.splits received.splits)

lemma step_drained:
  assumes "sys_step P c s ev s'" "drained (sy_stop s) (sy_buf s)"
  shows "drained (sy_stop s') (sy_buf s')"
  using assms(1)
proof (cases rule: sys_step.cases)
  case stops
  then show ?thesis
    using assms(2) by (cases "sy_stop s") (simp_all add: stop_step_def drained_def shutDown_flag_def
        shutDown_full_def shutDown_empty_def)
qed (use assms(2) in \<open>auto dest: ops_keep_drained\<close>)

definition joined_ok :: "'a system \<Rightarrow> bool" where
  "joined_ok s \<longleftrightarrow> ended_quiet s \<and> drained (sy_stop s) (sy_buf s)"

lemma run_joined_ok: "sys_run P c s0 evs s \<Longrightarrow> joined_ok s0 \<Longrightarrow> joined_ok s"
  by (induction rule: sys_run.induct) (auto simp: joined_ok_def intro: step_ended_quiet step_drained)

lemma started_joined_ok: "joined_ok (started base capacity mem r st)"
  by (simp add: joined_ok_def ended_quiet_def drained_def started_def)

text \<open>After the stop has done its part, the reader is touched by its own thread alone.\<close>

lemma step_reader_done:
  "sys_step P c s ev s' \<Longrightarrow> sy_rpc s = RDone \<Longrightarrow> sy_stop s = Stopped
    \<Longrightarrow> sy_rpc s' = RDone \<and> sy_stop s' = Stopped \<and> sy_reader s' = sy_reader s"
  by (erule sys_stepE) auto

lemma run_reader_done:
  "sys_run P c s evs s' \<Longrightarrow> sy_rpc s = RDone \<Longrightarrow> sy_stop s = Stopped
    \<Longrightarrow> sy_rpc s' = RDone \<and> sy_stop s' = Stopped \<and> sy_reader s' = sy_reader s"
proof (induction rule: sys_run.induct)
  case (run_step evs s' ev s'')
  then show ?case using step_reader_done [OF run_step.hyps(2)] by simp
qed simp

lemma step_stopped: "sys_step P c s ev s' \<Longrightarrow> sy_stop s = Stopped \<Longrightarrow> sy_stop s' = Stopped"
  by (erule sys_stepE) auto

lemma run_stopped: "sys_run P c s evs s' \<Longrightarrow> sy_stop s = Stopped \<Longrightarrow> sy_stop s' = Stopped"
  by (induction rule: sys_run.induct) (auto intro: step_stopped)

text \<open>What the component relies on when it joins the threads: after the stop, in a state \<open>s'\<close> that
  follows, a thread that has ended is not marked as running, the end of the processor leaves the
  ended reader alone and makes the next packet a first one, the buffer is empty and stays shut, and the
  processor is well-formed.\<close>

lemma joins_of_pipeline:
  assumes "sys_run P c (started base capacity mem r st) evs s" "sy_stop s = Stopped" "sys_run P c s evs' s'"
  shows "sy_rpc s' = RDone \<Longrightarrow> \<not> r_running (sy_reader s')"
    and "sy_ppc s' = PDone \<Longrightarrow> \<not> m_running (sy_proc s') \<and> m_first_packet (sy_proc s')"
    and "sy_rpc s = RDone \<Longrightarrow> sy_reader s' = sy_reader s"
    and "sy_buf s' = \<lparr>buf_shuttingDown = True, buf_empty = [], buf_full = []\<rparr>"
    and "proc_ok (sy_proc s) \<Longrightarrow> proc_ok (sy_proc s')"
proof -
  have ok: "joined_ok s'" using run_joined_ok assms started_joined_ok by blast
  then show "sy_rpc s' = RDone \<Longrightarrow> \<not> r_running (sy_reader s')" "sy_ppc s' = PDone \<Longrightarrow> \<not> m_running (sy_proc s') \<and> m_first_packet (sy_proc s')"
    by (simp_all add: joined_ok_def ended_quiet_def)
  show "sy_rpc s = RDone \<Longrightarrow> sy_reader s' = sy_reader s" using run_reader_done assms(2,3) by blast
  have "drained Stopped (sy_buf s')" using ok run_stopped [OF assms(3,2)] by (simp add: joined_ok_def)
  then show "sy_buf s' = \<lparr>buf_shuttingDown = True, buf_empty = [], buf_full = []\<rparr>"
    by (cases "sy_buf s'") (simp add: drained_def)
  show "proc_ok (sy_proc s) \<Longrightarrow> proc_ok (sy_proc s')" by (rule run_proc_ok [OF assms(3)])
qed

end
