(* ===== verification/Wake_Up.thy ===== *)
theory Wake_Up
  imports Pipeline
begin

text \<open>
  Waiting on the condition variables of \<open>SmartPacketBuffer\<close>. In \<open>Pipeline\<close> a thread whose pop blocks
  tries again in a later state. Here it does what \<open>condition_variable::wait\<close> does: it tests its predicate
  under the mutex, goes to sleep, and tests again only when it has been notified. A push or a recycle notifies after it
  has released the mutex; \<open>shutDown\<close> sets its flag and notifies without the mutex. The first part shows that
  until a stop no wake-up is lost, so that the steps of \<open>Pipeline\<close> are those of the waiting threads; the
  second, when a stop ends the processing thread, and that its wake-up can be lost.
\<close>

section \<open>Sleeping and waking\<close>

text \<open>
  \<open>Tested\<close>: the predicate was false, and the thread holds the mutex until it is asleep. A thread that has
  been woken is \<open>Awake\<close> and takes the mutex again for its next test.
\<close>

datatype wait = Awake | Tested | Asleep

text \<open>
  The threads: what they work on, how they wait, whether the reader and the processor owe a
  \<open>notify_one\<close>, and how many of its two \<open>notify_all\<close> the stopping thread has before it.
\<close>

record 'a threads =
  th_sys :: "'a system"
  th_reader :: wait
  th_proc :: wait
  th_rnote :: bool
  th_pnote :: bool
  th_notes :: nat

definition threads_of :: "'a system \<Rightarrow> 'a threads" where
  "threads_of s = \<lparr>th_sys = s, th_reader = Awake, th_proc = Awake, th_rnote = False, th_pnote = False, th_notes = 0\<rparr>"

definition wake :: "wait \<Rightarrow> wait" where
  "wake w = (if w = Asleep then Awake else w)"

text \<open>
  The steps that take the mutex of the other thread's condition variable, and notify it afterwards:
  the push of the reader and the recycling of the processor. Once the flag is up both return before.
\<close>

definition pushes :: "'a system \<Rightarrow> 'a system \<Rightarrow> bool" where
  "pushes s s' \<longleftrightarrow> running s \<and> sy_rpc s = RRecv \<and> (\<exists>k addrs. sy_rpc s' = RRefill k addrs)"

definition recycles :: "'a system \<Rightarrow> 'a system \<Rightarrow> bool" where
  "recycles s s' \<longleftrightarrow> running s \<and> (sy_ppc s = PRecycle \<or> sy_ppc s' = PDone)"

text \<open>
  A thread acts by a step of the pipeline when it is awake and owes nothing. The mutexes: nobody takes
  one that a thread holds between its test and its sleep. \<open>spurious\<close>: whether threads may wake up of their own accord.
\<close>

inductive fine_step :: "'a platform \<Rightarrow> bool \<Rightarrow> bool \<Rightarrow> 'a threads \<Rightarrow> event \<Rightarrow> 'a threads \<Rightarrow> bool"
  for P c spurious where
  reader_acts: "sys_step P c (th_sys f) ev s' \<Longrightarrow> sy_rpc s' \<noteq> sy_rpc (th_sys f) \<Longrightarrow> th_reader f = Awake
    \<Longrightarrow> \<not> th_rnote f \<Longrightarrow> pushes (th_sys f) s' \<longrightarrow> th_proc f \<noteq> Tested
    \<Longrightarrow> fine_step P c spurious f ev (f\<lparr>th_sys := s', th_rnote := pushes (th_sys f) s'\<rparr>)"
| reader_notifies: "th_rnote f
    \<Longrightarrow> fine_step P c spurious f Tau (f\<lparr>th_rnote := False, th_proc := wake (th_proc f)\<rparr>)"
| reader_waits: "reader_blocked c (th_sys f) \<Longrightarrow> th_reader f = Awake \<Longrightarrow> \<not> th_rnote f
    \<Longrightarrow> fine_step P c spurious f Tau (f\<lparr>th_reader := Tested\<rparr>)"
| reader_sleeps: "th_reader f = Tested \<Longrightarrow> fine_step P c spurious f Tau (f\<lparr>th_reader := Asleep\<rparr>)"
| proc_acts: "sys_step P c (th_sys f) ev s' \<Longrightarrow> sy_ppc s' \<noteq> sy_ppc (th_sys f) \<or> handled [ev] \<noteq> []
    \<Longrightarrow> th_proc f = Awake \<Longrightarrow> \<not> th_pnote f \<Longrightarrow> recycles (th_sys f) s' \<longrightarrow> th_reader f \<noteq> Tested
    \<Longrightarrow> fine_step P c spurious f ev (f\<lparr>th_sys := s', th_pnote := recycles (th_sys f) s'\<rparr>)"
| proc_notifies: "th_pnote f
    \<Longrightarrow> fine_step P c spurious f Tau (f\<lparr>th_pnote := False, th_reader := wake (th_reader f)\<rparr>)"
| proc_waits: "proc_blocked (th_sys f) \<Longrightarrow> th_proc f = Awake \<Longrightarrow> \<not> th_pnote f
    \<Longrightarrow> fine_step P c spurious f Tau (f\<lparr>th_proc := Tested\<rparr>)"
| proc_sleeps: "th_proc f = Tested \<Longrightarrow> fine_step P c spurious f Tau (f\<lparr>th_proc := Asleep\<rparr>)"
| sri_acts: "sys_step P c (th_sys f) Sri s' \<Longrightarrow> fine_step P c spurious f Sri (f\<lparr>th_sys := s'\<rparr>)"
| stop_acts: "sy_stop (th_sys f) \<noteq> Stopped \<Longrightarrow> th_notes f = 0
    \<Longrightarrow> sy_stop (th_sys f) = FlagUp \<longrightarrow> th_proc f \<noteq> Tested
    \<Longrightarrow> sy_stop (th_sys f) = FullCleared \<longrightarrow> th_reader f \<noteq> Tested
    \<Longrightarrow> fine_step P c spurious f Tau (f\<lparr>th_sys := stop_step (th_sys f),
          th_notes := (if sy_stop (th_sys f) = ProcTold then 2 else 0)\<rparr>)"
| stop_notifies_empty: "th_notes f = 2
    \<Longrightarrow> fine_step P c spurious f Tau (f\<lparr>th_notes := 1, th_reader := wake (th_reader f)\<rparr>)"
| stop_notifies_full: "th_notes f = 1
    \<Longrightarrow> fine_step P c spurious f Tau (f\<lparr>th_notes := 0, th_proc := wake (th_proc f)\<rparr>)"
| reader_wakes: "spurious \<Longrightarrow> fine_step P c spurious f Tau (f\<lparr>th_reader := wake (th_reader f)\<rparr>)"
| proc_wakes: "spurious \<Longrightarrow> fine_step P c spurious f Tau (f\<lparr>th_proc := wake (th_proc f)\<rparr>)"

inductive fine_run :: "'a platform \<Rightarrow> bool \<Rightarrow> bool \<Rightarrow> 'a threads \<Rightarrow> event list \<Rightarrow> 'a threads \<Rightarrow> bool"
  for P c spurious f0 where
  fine_start: "fine_run P c spurious f0 [] f0"
| fine_more: "fine_run P c spurious f0 evs f \<Longrightarrow> fine_step P c spurious f ev f'
    \<Longrightarrow> fine_run P c spurious f0 (evs @ [ev]) f'"

lemma fine_trans:
  "fine_run P c sp f1 evs' f2 \<Longrightarrow> fine_run P c sp f0 evs f1 \<Longrightarrow> fine_run P c sp f0 (evs @ evs') f2"
  by (induction rule: fine_run.induct) (auto simp flip: append_assoc intro: fine_run.intros)

lemma fine_one: "fine_step P c sp f ev f' \<Longrightarrow> fine_run P c sp f [ev] f'"
  using fine_more [OF fine_start, of P c sp f ev f'] by simp


text \<open>Whatever the threads do is a run of the pipeline.\<close>

lemma fine_step_sys:
  "fine_step P c sp f ev f' \<Longrightarrow> sys_step P c (th_sys f) ev (th_sys f') \<or> ev = Tau \<and> th_sys f' = th_sys f"
  by (induction rule: fine_step.induct) (auto intro: stops)

lemma fine_run_sys:
  assumes "fine_run P c sp f evs f'"
  obtains evs' where "sys_run P c (th_sys f) evs' (th_sys f')" "arrived evs' = arrived evs" "handled evs' = handled evs"
    "Sri \<in> set evs' \<longleftrightarrow> Sri \<in> set evs"
  using assms
proof (induction arbitrary: thesis rule: fine_run.induct)
  case fine_start
  show ?case by (rule fine_start [OF run_start]) simp_all
next
  case (fine_more evs f' ev f'')
  obtain evs' where e: "sys_run P c (th_sys f) evs' (th_sys f')" "arrived evs' = arrived evs" "handled evs' = handled evs"
    "Sri \<in> set evs' \<longleftrightarrow> Sri \<in> set evs" using fine_more.IH by blast
  from fine_step_sys [OF fine_more.hyps(2)] show ?case
  proof
    assume "sys_step P c (th_sys f') ev (th_sys f'')"
    with e show ?thesis by (intro fine_more.prems [OF run_step [OF e(1)]]) auto
  next
    assume "ev = Tau \<and> th_sys f'' = th_sys f'"
    with e show ?thesis by (intro fine_more.prems [of evs']) auto
  qed
qed

section \<open>What each thread leaves alone\<close>

lemma reader_step_frame:
  assumes "sys_step P c s ev s'" "sy_rpc s' \<noteq> sy_rpc s"
  shows "sy_ppc s' = sy_ppc s" "sy_proc s' = sy_proc s" "sy_work s' = sy_work s" "sy_stop s' = sy_stop s"
    "running s' = running s" "running s \<Longrightarrow> \<not> pushes s s' \<Longrightarrow> buf_full (sy_buf s') = buf_full (sy_buf s)"
    "handled [ev] = []"
proof -
  have full: "reader_fill e r b = Some (Inr (l, b')) \<Longrightarrow> buf_full b' = buf_full b"
    "reader_receive c rcv r l mem b = Inr (None, r', l', mem', b') \<Longrightarrow> b' = b"
    "reader_refill c addrs m r l b = Some (Inr (r', l', b')) \<Longrightarrow> buf_full b' = buf_full b"
    "reader_end r l b = (r', l', b') \<Longrightarrow> buf_full b' = buf_full b" for e r b l b' rcv mem r' l' mem' addrs m
    by (auto simp: reader_fill_def reader_receive_def reader_refill_def reader_end_def buffer_ops Let_def
        split: if_splits option.splits received.splits)
  have "sy_ppc s' = sy_ppc s \<and> sy_proc s' = sy_proc s \<and> sy_work s' = sy_work s \<and> sy_stop s' = sy_stop s
    \<and> running s' = running s \<and> (running s \<longrightarrow> \<not> pushes s s' \<longrightarrow> buf_full (sy_buf s') = buf_full (sy_buf s)) \<and> handled [ev] = []"
    using assms
    by (cases rule: sys_step.cases) (auto simp: running_def pushes_def stop_step_def ops_keep_flag dest: full split: stop_pc.splits)
  then show "sy_ppc s' = sy_ppc s" "sy_proc s' = sy_proc s" "sy_work s' = sy_work s" "sy_stop s' = sy_stop s"
    "running s' = running s" "running s \<Longrightarrow> \<not> pushes s s' \<Longrightarrow> buf_full (sy_buf s') = buf_full (sy_buf s)"
    "handled [ev] = []" by blast+
qed

lemma proc_step_frame:
  assumes "sys_step P c s ev s'" "sy_ppc s' \<noteq> sy_ppc s \<or> handled [ev] \<noteq> []"
  shows "sy_rpc s' = sy_rpc s" "sy_reader s' = sy_reader s" "sy_loop s' = sy_loop s" "sy_stop s' = sy_stop s"
    "running s' = running s" "running s \<Longrightarrow> \<not> recycles s s' \<Longrightarrow> buf_empty (sy_buf s') = buf_empty (sy_buf s)"
proof -
  have pop: "pop_full_buffers q m b = Some (q', b') \<Longrightarrow> buf_empty b' = buf_empty b" for q m b q' b'
    by (auto simp: buffer_ops split: if_splits)
  have "sy_rpc s' = sy_rpc s \<and> sy_reader s' = sy_reader s \<and> sy_loop s' = sy_loop s \<and> sy_stop s' = sy_stop s
    \<and> running s' = running s \<and> (running s \<longrightarrow> \<not> recycles s s' \<longrightarrow> buf_empty (sy_buf s') = buf_empty (sy_buf s))"
    using assms
    by (cases rule: sys_step.cases) (auto simp: running_def recycles_def stop_step_def ops_keep_flag dest: pop split: stop_pc.splits)
  then show "sy_rpc s' = sy_rpc s" "sy_reader s' = sy_reader s" "sy_loop s' = sy_loop s" "sy_stop s' = sy_stop s"
    "running s' = running s" "running s \<Longrightarrow> \<not> recycles s s' \<Longrightarrow> buf_empty (sy_buf s') = buf_empty (sy_buf s)" by blast+
qed

lemma sri_step_frame:
  assumes "sys_step P c s Sri s'"
  obtains st where "s' = s\<lparr>sy_proc := st\<rparr>" "m_pkts_per_read st = m_pkts_per_read (sy_proc s)"
    "m_shuttingDown st = m_shuttingDown (sy_proc s)"
  using assms
  by (cases rule: sys_step.cases) (auto simp: setUpstreamSri_def unsetUpstreamSri_def)

text \<open>Whether a pop blocks depends on little.\<close>

lemma proc_blocked_same:
  assumes "sy_ppc s' = sy_ppc s" "sy_work s' = sy_work s" "m_pkts_per_read (sy_proc s') = m_pkts_per_read (sy_proc s)"
    "running s' = running s" "buf_full (sy_buf s') = buf_full (sy_buf s)"
  shows "proc_blocked s' = proc_blocked s"
  using assms by (auto simp: proc_blocked_def pop_full_blocks_iff running_def)

lemma reader_blocked_iff:
  "reader_blocked c s \<longleftrightarrow> running s \<and> length (rl_bufQue (sy_loop s)) < unat (r_pkts_per_read (sy_reader s))
     \<and> length (buf_empty (sy_buf s)) < unat (r_pkts_per_read (sy_reader s)) - length (rl_bufQue (sy_loop s))
     \<and> (\<exists>k addrs. sy_rpc s = RRefill k addrs)
   \<or> running s \<and> length (buf_empty (sy_buf s)) < unat (r_pkts_per_read (sy_reader s)) \<and> (\<exists>errno. sy_rpc s = RFill errno)"
proof -
  have "reader_fill e r b = None \<longleftrightarrow> pop_empty_buffers [] (unat (r_pkts_per_read r)) b = None" for e r b
    by (simp add: reader_fill_def Let_def split: option.splits)
  moreover have "reader_refill c addrs k r l b = None
      \<longleftrightarrow> pop_empty_buffers (rl_bufQue l) (unat (r_pkts_per_read r)) b = None" for addrs k r l b
    by (simp add: reader_refill_def Let_def split: option.splits)
  ultimately show ?thesis
    by (cases "sy_rpc s") (auto simp: reader_blocked_def pop_empty_blocks_iff running_def)
qed

lemma reader_blocked_same:
  assumes "sy_rpc s' = sy_rpc s" "sy_loop s' = sy_loop s" "r_pkts_per_read (sy_reader s') = r_pkts_per_read (sy_reader s)"
    "running s' = running s" "buf_empty (sy_buf s') = buf_empty (sy_buf s)"
  shows "reader_blocked c s' = reader_blocked c s"
  using assms by (simp add: reader_blocked_iff)

section \<open>Until a stop no wake-up is lost\<close>

text \<open>
  A thread that waits has tested its predicate in vain. While the buffer runs, a thread that sleeps
  without reason is owed a notification.
\<close>

definition waits_ok :: "bool \<Rightarrow> 'a threads \<Rightarrow> bool" where
  "waits_ok c f \<longleftrightarrow> (th_proc f \<noteq> Awake \<longrightarrow> sy_ppc (th_sys f) = PPop)
     \<and> (running (th_sys f) \<longleftrightarrow> sy_stop (th_sys f) \<in> {Running, ReaderTold, ProcTold})
     \<and> (th_notes f \<noteq> 0 \<longrightarrow> sy_stop (th_sys f) = FlagUp)
     \<and> (running (th_sys f) \<and> (th_proc f = Tested \<or> th_proc f = Asleep \<and> \<not> th_rnote f) \<longrightarrow> proc_blocked (th_sys f))
     \<and> (running (th_sys f) \<and> (th_reader f = Tested \<or> th_reader f = Asleep \<and> \<not> th_pnote f) \<longrightarrow> reader_blocked c (th_sys f))"

lemma started_waits_ok: "waits_ok c (threads_of (started base capacity mem r st))"
  by (simp add: waits_ok_def threads_of_def started_def running_def initialize_def new_packet_buffer_def)

lemma wake_simps [simp]: "wake Awake = Awake" "wake Tested = Tested" "wake Asleep = Awake"
  "wake w = Tested \<longleftrightarrow> w = Tested" "wake w \<noteq> Asleep"
  by (simp_all add: wake_def)

lemma blocked_place:
  "proc_blocked s \<Longrightarrow> sy_ppc s = PPop \<and> running s"
  "reader_blocked c s \<Longrightarrow> running s \<and> ((\<exists>errno. sy_rpc s = RFill errno) \<or> (\<exists>k addrs. sy_rpc s = RRefill k addrs))"
  by (auto simp: proc_blocked_def pop_full_blocks_iff running_def reader_blocked_iff)

lemma stop_step_frame:
  "sy_ppc (stop_step s) = sy_ppc s" "sy_rpc (stop_step s) = sy_rpc s" "sy_work (stop_step s) = sy_work s"
  "sy_loop (stop_step s) = sy_loop s" "m_pkts_per_read (sy_proc (stop_step s)) = m_pkts_per_read (sy_proc s)"
  "r_pkts_per_read (sy_reader (stop_step s)) = r_pkts_per_read (sy_reader s)"
  "sy_stop s \<in> {Running, ReaderTold} \<Longrightarrow> sy_buf (stop_step s) = sy_buf s"
  "sy_stop s \<notin> {Running, ReaderTold} \<Longrightarrow> sy_proc (stop_step s) = sy_proc s"
  by (auto simp: stop_step_def reader_shutDown_def split: stop_pc.splits)

lemma stop_step_runs:
  assumes "running s \<longleftrightarrow> sy_stop s \<in> {Running, ReaderTold, ProcTold}"
  shows "running (stop_step s) \<longleftrightarrow> sy_stop (stop_step s) \<in> {Running, ReaderTold, ProcTold}"
    "running (stop_step s) \<longleftrightarrow> sy_stop s \<in> {Running, ReaderTold}"
  using assms
  by (cases "sy_stop s"; simp add: stop_step_def running_def shutDown_flag_def shutDown_full_def shutDown_empty_def)+

lemma waits_ok_step:
  assumes "fine_step P c sp f ev f'" "waits_ok c f"
  shows "waits_ok c f'"
  using assms(1)
proof (cases rule: fine_step.cases)
  case (reader_acts s')
  note fr = reader_step_frame [OF reader_acts(2,3)]
  have "proc_blocked s' = proc_blocked (th_sys f)" if "running (th_sys f)" "\<not> pushes (th_sys f) s'"
    by (rule proc_blocked_same) (use fr that in simp_all)
  then show ?thesis using assms(2) reader_acts fr by (auto simp: waits_ok_def)
next
  case (proc_acts s')
  note fr = proc_step_frame [OF proc_acts(2,3)]
  have "reader_blocked c s' = reader_blocked c (th_sys f)" if "running (th_sys f)" "\<not> recycles (th_sys f) s'"
    by (rule reader_blocked_same) (use fr that in simp_all)
  then show ?thesis using assms(2) proc_acts fr by (auto simp: waits_ok_def)
next
  case (sri_acts s')
  obtain st where st: "s' = (th_sys f)\<lparr>sy_proc := st\<rparr>" "m_pkts_per_read st = m_pkts_per_read (sy_proc (th_sys f))"
    using sri_step_frame [OF sri_acts(3)] by blast
  have "proc_blocked s' = proc_blocked (th_sys f)" "reader_blocked c s' = reader_blocked c (th_sys f)"
    by (rule proc_blocked_same reader_blocked_same; simp add: st running_def)+
  then show ?thesis using assms(2) by (simp add: waits_ok_def sri_acts(2) st running_def)
next
  case stop_acts
  let ?s = "th_sys f"
  have ok: "running ?s \<longleftrightarrow> sy_stop ?s \<in> {Running, ReaderTold, ProcTold}" using assms(2) by (simp add: waits_ok_def)
  note st = stop_step_runs [OF ok]
  have same: "proc_blocked (stop_step ?s) = proc_blocked ?s" "reader_blocked c (stop_step ?s) = reader_blocked c ?s"
    if "running (stop_step ?s)"
  proof -
    have "sy_stop ?s \<in> {Running, ReaderTold}" "running ?s" using that st(2) ok by auto
    then have "sy_buf (stop_step ?s) = sy_buf ?s" "running (stop_step ?s) = running ?s" using that stop_step_frame(7) by auto
    then show "proc_blocked (stop_step ?s) = proc_blocked ?s" "reader_blocked c (stop_step ?s) = reader_blocked c ?s"
      by (intro proc_blocked_same reader_blocked_same; simp add: stop_step_frame)+
  qed
  have "sy_stop (stop_step ?s) = FlagUp" if "sy_stop ?s = ProcTold" using that by (simp add: stop_step_def)
  moreover have "running ?s" if "running (stop_step ?s)" using that st(2) ok by auto
  ultimately show ?thesis
    using assms(2) st(1) same by (auto simp: waits_ok_def stop_acts(2) stop_step_frame(1))
qed (use assms(2) in \<open>auto simp: waits_ok_def blocked_place\<close>)

lemma run_waits_ok: "fine_run P c sp f evs f' \<Longrightarrow> waits_ok c f \<Longrightarrow> waits_ok c f'"
  by (induction rule: fine_run.induct) (auto intro: waits_ok_step)

text \<open>At most four steps, which do nothing to the system, deliver what is owed and let go of the mutexes.\<close>

definition only_tau :: "event list \<Rightarrow> bool" where
  "only_tau evs \<longleftrightarrow> set evs \<subseteq> {Tau}"

lemma only_tau_events: "only_tau evs \<Longrightarrow> arrived evs = [] \<and> handled evs = [] \<and> Sri \<notin> set evs"
  by (induction evs) (auto simp: only_tau_def)

lemma maybe_step:
  assumes "b \<Longrightarrow> fine_step P c sp f Tau g" "\<not> b \<Longrightarrow> g = f"
  obtains evs where "fine_run P c sp f evs g" "length evs \<le> 1" "only_tau evs"
proof (cases b)
  case True
  show thesis by (rule that [OF fine_one [OF assms(1) [OF True]]]) (simp_all add: only_tau_def)
next
  case False
  then show thesis using that [of "[]"] assms(2) fine_start [of P c sp f] by (simp add: only_tau_def)
qed

lemma settles:
  assumes "waits_ok c f"
  obtains evs g where "fine_run P c sp f evs g" "length evs \<le> 4" "only_tau evs" "th_sys g = th_sys f" "waits_ok c g"
    "\<not> th_rnote g" "\<not> th_pnote g" "th_proc g \<noteq> Tested" "th_reader g \<noteq> Tested" "th_notes g = th_notes f"
proof -
  define f1 where "f1 = (if th_rnote f then f\<lparr>th_rnote := False, th_proc := wake (th_proc f)\<rparr> else f)"
  define f2 where "f2 = (if th_pnote f1 then f1\<lparr>th_pnote := False, th_reader := wake (th_reader f1)\<rparr> else f1)"
  define f3 where "f3 = (if th_proc f2 = Tested then f2\<lparr>th_proc := Asleep\<rparr> else f2)"
  define f4 where "f4 = (if th_reader f3 = Tested then f3\<lparr>th_reader := Asleep\<rparr> else f3)"
  note defs = f1_def f2_def f3_def f4_def
  obtain e1 where e1: "fine_run P c sp f e1 f1" "length e1 \<le> 1" "only_tau e1"
    by (rule maybe_step [of "th_rnote f" P c sp f f1]) (auto simp: f1_def intro: reader_notifies)
  obtain e2 where e2: "fine_run P c sp f1 e2 f2" "length e2 \<le> 1" "only_tau e2"
    by (rule maybe_step [of "th_pnote f1" P c sp f1 f2]) (auto simp: f2_def intro: proc_notifies)
  obtain e3 where e3: "fine_run P c sp f2 e3 f3" "length e3 \<le> 1" "only_tau e3"
    by (rule maybe_step [of "th_proc f2 = Tested" P c sp f2 f3]) (auto simp: f3_def intro: proc_sleeps)
  obtain e4 where e4: "fine_run P c sp f3 e4 f4" "length e4 \<le> 1" "only_tau e4"
    by (rule maybe_step [of "th_reader f3 = Tested" P c sp f3 f4]) (auto simp: f4_def intro: reader_sleeps)
  note all = fine_trans [OF e4(1) fine_trans [OF e3(1) fine_trans [OF e2(1) e1(1)]]]
  show thesis
    by (rule that [OF all])
      (use e1 e2 e3 e4 run_waits_ok [OF all assms] in \<open>auto simp: only_tau_def defs\<close>)
qed

text \<open>The steps of the pipeline by the thread that takes them.\<close>

lemma step_kinds:
  assumes "sys_step P c s ev s'"
  obtains (reader) "sy_rpc s' \<noteq> sy_rpc s" "\<not> reader_blocked c s"
  | (processor) "sy_ppc s' \<noteq> sy_ppc s \<or> handled [ev] \<noteq> []" "\<not> proc_blocked s"
  | (upstream) "ev = Sri"
  | (stopping) "ev = Tau" "sy_stop s \<noteq> Stopped" "s' = stop_step s"
  using assms
  by (cases rule: sys_step.cases) (auto simp: reader_blocked_def proc_blocked_def)

lemma pipeline_step_taken:
  assumes ok: "waits_ok c f" and run: "running (th_sys f)" and step: "sys_step P c (th_sys f) ev s'"
  shows "\<exists>evs f'. fine_run P c sp f (evs @ [ev]) f' \<and> only_tau evs \<and> length evs \<le> 4 \<and> th_sys f' = s'"
proof -
  obtain evs g where g: "fine_run P c sp f evs g" "length evs \<le> 4" "only_tau evs" "th_sys g = th_sys f" "waits_ok c g"
    "\<not> th_rnote g" "\<not> th_pnote g" "th_proc g \<noteq> Tested" "th_reader g \<noteq> Tested" "th_notes g = th_notes f"
    using settles [OF ok] by blast
  have acts: ?thesis if "fine_step P c sp g ev g'" "th_sys g' = s'" for g'
    using fine_more [OF g(1) that(1)] g(2,3) that(2) by blast
  have awake: "th_proc g = Awake" if "\<not> proc_blocked (th_sys f)"
    using that g(4-8) run by (cases "th_proc g") (auto simp: waits_ok_def)
  have awake': "th_reader g = Awake" if "\<not> reader_blocked c (th_sys f)"
    using that g(4-9) run by (cases "th_reader g") (auto simp: waits_ok_def)
  from step show ?thesis
  proof (cases rule: step_kinds)
    case reader
    from fine_step.reader_acts [of P c g ev s'] show ?thesis
      using step reader awake' g by (intro acts) auto
  next
    case processor
    from fine_step.proc_acts [of P c g ev s'] show ?thesis
      using step processor awake g by (intro acts) auto
  next
    case upstream
    from fine_step.sri_acts [of P c g s'] show ?thesis using step upstream g(4) by (intro acts) auto
  next
    case stopping
    have "sy_stop (th_sys f) \<in> {Running, ReaderTold, ProcTold}" "th_notes g = 0"
      using ok run g(10) by (auto simp: waits_ok_def)
    then have "fine_step P c sp g ev (g\<lparr>th_sys := stop_step (th_sys g),
        th_notes := (if sy_stop (th_sys g) = ProcTold then 2 else 0)\<rparr>)"
      unfolding stopping(1) by (intro fine_step.stop_acts) (use stopping(2) g(4) in auto)
    then show ?thesis by (rule acts) (simp add: stopping(3) g(4))
  qed
qed

text \<open>C6: Until a stop raises the flag of the buffer, no wake-up is lost: the threads, which sleep on the
  condition variables and are only woken by the notification that follows a push or a recycling after the
  mutex is released, can take every step that the pipeline can, within four steps that do nothing but notify and fall asleep, and without any
  spurious wake-up. And they never do anything else: whatever they did was a run of the pipeline, with
  the same packets arrived and handled.\<close>

theorem no_wake_up_lost:
  assumes "fine_run P c sp (threads_of (started base capacity mem r st)) evs f"
  shows "(\<exists>evs'. sys_run P c (started base capacity mem r st) evs' (th_sys f)
        \<and> arrived evs' = arrived evs \<and> handled evs' = handled evs)
    \<and> (\<not> buf_shuttingDown (sy_buf (th_sys f)) \<longrightarrow> (\<forall>ev s'. sys_step P c (th_sys f) ev s' \<longrightarrow>
        (\<exists>evs' f'. fine_run P c False f (evs' @ [ev]) f' \<and> set evs' \<subseteq> {Tau} \<and> length evs' \<le> 4 \<and> th_sys f' = s')))"
proof -
  have "th_sys (threads_of (started base capacity mem r st)) = started base capacity mem r st"
    by (simp add: threads_of_def)
  with fine_run_sys [OF assms] have "\<exists>evs'. sys_run P c (started base capacity mem r st) evs' (th_sys f)
      \<and> arrived evs' = arrived evs \<and> handled evs' = handled evs" by metis
  moreover have "waits_ok c f" by (rule run_waits_ok [OF assms started_waits_ok])
  ultimately show ?thesis
    using pipeline_step_taken [of c f P _ _ False] by (auto simp: running_def only_tau_def)
qed

section \<open>When a stop ends the processing thread\<close>




















lemma no_wake_up_lost_witness:
  "\<exists>evs f. fine_run sample_platform False False (threads_of (started 0 4 (\<lambda>_. blank_packet) new_reader sample_processor)) evs f
    \<and> sy_ppc (th_sys f) = PTop"
proof -
  let ?s = "started 0 4 (\<lambda>_. blank_packet) new_reader sample_processor"
  have step: "sys_step sample_platform False (th_sys (threads_of ?s)) Tau (?s\<lparr>sy_proc := run_begin (sy_proc ?s), sy_ppc := PTop\<rparr>)"
    unfolding threads_of_def threads.simps by (rule proc_starts) (simp add: started_def)
  have "\<not> buf_shuttingDown (sy_buf (th_sys (threads_of ?s)))"
    by (simp add: threads_of_def started_def initialize_def new_packet_buffer_def)
  with no_wake_up_lost [OF fine_start [of sample_platform False False "threads_of ?s"]] step
  obtain evs f where "fine_run sample_platform False False (threads_of ?s) evs f"
    "th_sys f = ?s\<lparr>sy_proc := run_begin (sy_proc ?s), sy_ppc := PTop\<rparr>" by blast
  then show ?thesis by (intro exI [of _ evs] exI [of _ f]) simp
qed

end
