(* ===== verification/Processor_Stream.thy ===== *)
theory Processor_Stream
  imports Processor_Progress
begin

text \<open>
  What the processor does with a stream of packets: the sample values it hands to BulkIO, the
  sequence numbers it expects, the time slips it counts, and a refinement: on an undisturbed
  stream the whole packet loop is one write per packet, in order, of the packet's samples.
\<close>

section \<open>Sample values\<close>

text \<open>The samples of a packet's data as the numbers the sender wrote, in either byte order.\<close>

fun be_shorts :: "u8 list \<Rightarrow> u16 list" where
  "be_shorts (a # b # r) = be_load [a, b] # be_shorts r"
| "be_shorts xs = []"

fun be_floats :: "u8 list \<Rightarrow> u32 list" where
  "be_floats (a # b # c # d # r) = be_load [a, b, c, d] # be_floats r"
| "be_floats xs = []"

lemma as_shorts_swab: "as_shorts (swab d) = be_shorts d"
  by (induction d rule: swab.induct) (auto simp: be_load_def)

lemma as_floats_bswap: "as_floats (bswap32_words d) = be_floats d"
  by (induction d rule: bswap32_words.induct) (auto simp: be_load_def)

lemma atol_endianness:
  "atol BIG_ENDIAN_STR = 4321" "atol LITTLE_ENDIAN_STR = 1234"
  by (simp_all add: atol_def endian_defs c_isspace_def c_isdigit_def of_char_def)

lemma swap_data_valid:
  assumes "m_endianness st = BIG_ENDIAN_STR \<or> m_endianness st = LITTLE_ENDIAN_STR"
  shows "swap_data f st p mem = (if m_endianness st = BIG_ENDIAN_STR
     then mem(p := (mem p)\<lparr>pkt_d := f (pkt_d (mem p))\<rparr>) else mem)"
  using assms atol_endianness by (auto simp: swap_data_def BYTE_ORDER_def endian_defs)

text \<open>The write a packet's data should cause: the specification of the switch.\<close>

definition spec_write :: "string \<Rightarrow> u16 \<Rightarrow> u8 list \<Rightarrow> PrecisionUTCTime \<Rightarrow> 'a call list" where
  "spec_write e bps d T = (if bps = 8 then [WriteOctet d T]
     else if bps = 16 then [WriteShort (if e = BIG_ENDIAN_STR then be_shorts d else as_shorts d) T]
     else if bps = 32 then [WriteFloat (if e = BIG_ENDIAN_STR then be_floats d else as_floats d) T]
     else [])"

lemma write_calls_spec:
  assumes "m_endianness st = BIG_ENDIAN_STR \<or> m_endianness st = LITTLE_ENDIAN_STR"
  shows "write_calls st (pkt_d (swapped_store st p mem p))
     = spec_write (m_endianness st) (m_bps st) (pkt_d (mem p)) (m_bulkio_time_stamp st)"
  by (simp add: write_calls_def spec_write_def swapped_store_def swap_data_valid [OF assms]
      as_shorts_swab as_floats_bswap Let_def)

section \<open>Sequence numbers\<close>

text \<open>The \<open>n\<close>-th data packet carries the number \<open>n + n div 31\<close>: every 32nd number is left out.\<close>

lemma next_seq_numbers: "next_seq (of_nat (n + n div 31)) = of_nat (Suc n + Suc n div 31)"
proof -
  define q r where "q = n div 31" and "r = n mod 31"
  have n: "n = 31 * q + r" "r < 31" by (simp_all add: q_def r_def)
  then have m: "n + n div 31 = 32 * q + r" by simp
  define m where "m = 32 * q + r + 1"
  have mod: "unat (of_nat m :: u16) mod 32 = r + 1"
  proof -
    have "m mod 65536 mod 32 = m mod 32" by (rule mod_mod_cancel) simp
    also have "m mod 32 = r + 1"
      using n(2) by (simp add: m_def)
    finally show ?thesis by (simp add: unsigned_of_nat take_bit_eq_mod)
  qed
  have plus: "of_nat (n + n div 31) + 1 = (of_nat m :: u16)" by (simp add: m m_def)
  have test: "(of_nat m :: u16) \<noteq> 0 \<and> (of_nat m :: u16) mod 32 = 31 \<longleftrightarrow> r = 30"
  proof -
    have "(of_nat m :: u16) mod 32 = 31 \<longleftrightarrow> unat (of_nat m :: u16) mod 32 = 31"
      by (simp add: word_unat_eq_iff unat_mod)
    moreover have "(of_nat m :: u16) \<noteq> 0" if "r + 1 = 31" using mod that by auto
    ultimately show ?thesis using mod by auto
  qed
  show ?thesis
  proof (cases "r = 30")
    case True
    then have "Suc n = 31 * (q + 1)" using n by simp
    then have "Suc n + Suc n div 31 = m + 1" using True by (simp add: m_def)
    moreover have "next_seq (of_nat (n + n div 31)) = of_nat m + 1"
      unfolding next_seq_def plus Let_def using True test by simp
    ultimately show ?thesis by simp
  next
    case False
    then have "Suc n div 31 = q" using n by simp
    then have "Suc n + Suc n div 31 = m" using n by (simp add: m_def)
    moreover have "next_seq (of_nat (n + n div 31)) = of_nat m"
      unfolding next_seq_def plus Let_def using False test by simp
    ultimately show ?thesis by simp
  qed
qed

lemma next_seq_iterate: "(next_seq ^^ n) 0 = of_nat (n + n div 31)"
proof (induction n)
  case (Suc n)
  then show ?case using next_seq_numbers [of n] by simp
qed simp

lemma next_seq_not_checksum: "next_seq n mod 32 \<noteq> 31"
proof -
  have mod32: "w mod 32 = 31 \<longleftrightarrow> unat w mod 32 = 31" for w :: u16
    by (simp add: word_unat_eq_iff unat_mod)
  have "(w + 1) mod 32 \<noteq> 31" if w: "w mod 32 = 31" for w :: u16
  proof -
    have "unat (w + 1) mod 32 = (unat w + 1) mod 65536 mod 32" by (simp add: unat_word_ariths)
    also have "\<dots> = (unat w + 1) mod 32" by (rule mod_mod_cancel) simp
    also have "\<dots> = (unat w mod 32 + 1) mod 32" by (simp add: mod_simps)
    also have "\<dots> = 0" using w by (simp add: mod32)
    finally show ?thesis by (simp add: mod32)
  qed
  note skip = this [of "n + 1"]
  show ?thesis
  proof (cases "n + 1 \<noteq> 0 \<and> (n + 1) mod 32 = 31")
    case True
    then have "next_seq n = n + 1 + 1" by (simp only: next_seq_def Let_def if_True simp_thms)
    with skip True show ?thesis by (simp only: simp_thms)
  next
    case False
    then have "next_seq n = n + 1" unfolding next_seq_def Let_def by (rule if_not_P)
    moreover have "(n + 1) mod 32 \<noteq> 31"
    proof (cases "n + 1 = 0")
      case True
      show ?thesis unfolding True by simp
    qed (use False in blast)
    ultimately show ?thesis by (simp only: simp_thms)
  qed
qed

section \<open>Time slips\<close>

text \<open>A check adds at most one slip; the case of a device that does not conform is the only
  change of that flag.\<close>

lemma check_time_step_slips:
  "check_time_step dt pkt st = Inr (slip, st') \<Longrightarrow> m_num_time_slips st' = m_num_time_slips st
     \<and> m_accum_error_tolerance st' = m_accum_error_tolerance st
     \<and> (m_non_conforming_device st \<or> \<not> pkt_cx pkt \<longrightarrow>
          m_non_conforming_device st' = m_non_conforming_device st)
     \<and> (slip \<longrightarrow> step_out_of_range dt st)"
  by (auto simp: check_time_step_def looks_non_conforming_def updateExpectedXdelta_eq expect_steps_def
      Let_def split: if_splits)

lemma checkForTimeSlip_slips:
  assumes "checkForTimeSlip pkt st = Inr st'"
  shows "m_num_time_slips st' = m_num_time_slips st \<or> m_num_time_slips st' = m_num_time_slips st + 1"
    "m_non_conforming_device st \<or> \<not> pkt_cx pkt \<Longrightarrow>
       m_non_conforming_device st' = m_non_conforming_device st"
    "m_num_time_slips st' \<noteq> m_num_time_slips st \<Longrightarrow> ttv_on pkt \<and> m_last_sdds_time st \<noteq> time_zero"
proof -
  let ?dt = "dsub (seconds (get_SDDSTime pkt)) (seconds (m_last_sdds_time st))"
  let ?st = "st\<lparr>m_last_sdds_time := get_SDDSTime pkt\<rparr>"
  consider (none) "\<not> ttv_on pkt \<or> m_last_sdds_time st = time_zero \<or> dless ?dt (Fin 0)"
      "m_num_time_slips st' = m_num_time_slips st" "m_non_conforming_device st' = m_non_conforming_device st"
    | (check) slip s where "ttv_on pkt" "m_last_sdds_time st \<noteq> time_zero"
      "check_time_step ?dt pkt ?st = Inr (slip, s)"
      "st' = (let (slip, s) = accumulate_error ?dt slip s
              in if slip then s\<lparr>m_num_time_slips := m_num_time_slips s + 1\<rparr> else s)"
    using assms unfolding checkForTimeSlip_def Let_def
    by (cases "check_time_step ?dt pkt ?st")
      (auto simp: ttv_on_def split: if_splits prod.splits)
  then have "(m_num_time_slips st' = m_num_time_slips st \<or> m_num_time_slips st' = m_num_time_slips st + 1)
    \<and> (m_non_conforming_device st \<or> \<not> pkt_cx pkt \<longrightarrow>
       m_non_conforming_device st' = m_non_conforming_device st)
    \<and> (m_num_time_slips st' \<noteq> m_num_time_slips st \<longrightarrow> ttv_on pkt \<and> m_last_sdds_time st \<noteq> time_zero)"
  proof cases
    case check
    from check_time_step_slips [OF check(3)] check show ?thesis
      by (auto simp: accumulate_error_def Let_def split: if_splits)
  qed auto
  then show "m_num_time_slips st' = m_num_time_slips st \<or> m_num_time_slips st' = m_num_time_slips st + 1"
    "m_non_conforming_device st \<or> \<not> pkt_cx pkt \<Longrightarrow>
       m_non_conforming_device st' = m_non_conforming_device st"
    "m_num_time_slips st' \<noteq> m_num_time_slips st \<Longrightarrow> ttv_on pkt \<and> m_last_sdds_time st \<noteq> time_zero"
    by blast+
qed

text \<open>The test of a step leaves what the accumulation and the counter work on.\<close>

lemma check_time_step_keeps:
  "check_time_step dt pkt st = Inr (slip, st') \<Longrightarrow> m_num_time_slips st' = m_num_time_slips st
     \<and> m_time_error_accum st' = m_time_error_accum st \<and> m_accum_error_tolerance st' = m_accum_error_tolerance st
     \<and> m_last_sdds_time st' = m_last_sdds_time st"
  by (auto simp: check_time_step_def updateExpectedXdelta_eq expect_steps_def Let_def split: if_splits)

section \<open>An undisturbed stream\<close>

text \<open>
  \<open>streaming st\<close>: the processor is inside a stream, its output streams are open and no new
  upstream SRI waits. \<open>fits st pkt\<close>: the packet has the flags the settings ask for and brings
  no change of the SRI.
\<close>

definition streaming :: "'a processor \<Rightarrow> bool" where
  "streaming st \<longleftrightarrow> proc_ok st \<and> \<not> m_first_packet st \<and> octetStream st
     \<and> \<not> (m_upstream_sri_set st \<and> m_new_upstream_sri st)"

definition fits :: "'a processor \<Rightarrow> SDDSpacket \<Rightarrow> bool" where
  "fits st pkt \<longleftrightarrow> (m_wait_for_ttv st \<longrightarrow> ttv_on pkt)
     \<and> (m_push_on_ttv st \<longrightarrow> m_current_ttv_flag st = ttv_on pkt)
     \<and> (m_use_upstream_sri st \<or> sri_settled pkt (m_non_conforming_device st) (m_sri st)
          \<and> (m_non_conforming_device st \<or> \<not> pkt_cx pkt))"

fun in_sequence :: "u16 \<Rightarrow> SDDSpacket list \<Rightarrow> bool" where
  "in_sequence n [] = True"
| "in_sequence n (p # ps) \<longleftrightarrow> get_seq p = n \<and> in_sequence (next_seq n) ps"

text \<open>The time stamp of a packet, up to the start of the year it is counted from.\<close>

definition stamped :: "SDDSpacket \<Rightarrow> PrecisionUTCTime \<Rightarrow> bool" where
  "stamped pkt T \<longleftrightarrow> tcstatus_of T = ttv_status (ttv_on pkt)
     \<and> tfsec T = frac_seconds (get_SDDSTime pkt)
     \<and> (\<exists>soy. twsec T = dadd (whole_seconds (get_SDDSTime pkt)) (dbl_of_int soy))"

lemma stamp_packet_stamped: "stamped pkt (m_bulkio_time_stamp (stamp_packet P pkt st))"
  by (auto simp: stamped_def stamp_packet_def getBulkIOTimeStamp_def ttv_on_def Let_def split: prod.split)

lemma stamp_packet_only:
  "m_pkts_per_read (stamp_packet P pkt st) = m_pkts_per_read st"
  "m_wait_for_ttv (stamp_packet P pkt st) = m_wait_for_ttv st"
  "m_push_on_ttv (stamp_packet P pkt st) = m_push_on_ttv st"
  "m_use_upstream_sri (stamp_packet P pkt st) = m_use_upstream_sri st"
  "m_non_conforming_device (stamp_packet P pkt st) = m_non_conforming_device st"
  "m_sri (stamp_packet P pkt st) = m_sri st"
  "m_upstream_sri_set (stamp_packet P pkt st) = m_upstream_sri_set st"
  "m_new_upstream_sri (stamp_packet P pkt st) = m_new_upstream_sri st"
  "m_expected_seq_number (stamp_packet P pkt st) = m_expected_seq_number st"
  "m_pkts_dropped (stamp_packet P pkt st) = m_pkts_dropped st"
  by (simp_all add: stamp_packet_def split: prod.split)

text \<open>What stays the same from packet to packet.\<close>

definition same_stream :: "'a processor \<Rightarrow> 'a processor \<Rightarrow> bool" where
  "same_stream st st' \<longleftrightarrow> streaming st' \<and> (\<forall>pkt. fits st pkt \<longrightarrow> fits st' pkt)
     \<and> m_bps st' = m_bps st \<and> m_endianness st' = m_endianness st
     \<and> m_pkts_dropped st' = m_pkts_dropped st"

lemma process_packet_streaming:
  assumes str: "streaming st" and fit: "fits st (mem p)" and seq: "get_seq (mem p) = m_expected_seq_number st"
  obtains st' T where "process_packet P p mem st = Inr (Recycle, swapped_store st p mem, st')"
    "m_calls st' = m_calls st @ spec_write (m_endianness st) (m_bps st) (pkt_d (mem p)) T"
    "stamped (mem p) T" "same_stream st st'"
    "m_expected_seq_number st' = next_seq (m_expected_seq_number st)"
proof -
  from str have ok: "proc_ok st" "coherent st" "bps_ok (m_bps st)" "octetStream st" "\<not> m_first_packet st"
    by (simp_all add: streaming_def proc_ok_def)
  have ttv: "(get_ttv (mem p) \<noteq> 0) = ttv_on (mem p)" by (simp add: ttv_on_def)
  have "ready_packet P (mem p) st = (False, st)"
    using ready_packet_sri_quiet [where pkt = "mem p" and st = st and P = P] str fit
    by (auto simp: streaming_def fits_def sri_quiet_def ensure_open_def)
  note push = sri_and_push_eq [where mem = mem and p = p, OF ok(2,3) this]
  have body: "process_packet P p mem st = push_packet P p mem st"
    using fit ok(5) seq push unfolding process_packet_def ttv Let_def fits_def
    by (auto simp: orderIsValid_eq)
  let ?s = "stamp_packet P (mem p) st" and ?mem = "swapped_store st p mem"
  obtain s where s: "checkForTimeSlip (mem p) ?s = Inr s" "only_timing ?s s"
    "push_packet P p mem st = Inr (Recycle, ?mem,
       count_packet (append_calls (write_calls s (pkt_d (?mem p))) s))"
    using push_packet_eq [OF ok(2,4,3)] by blast
  let ?T = "m_bulkio_time_stamp ?s"
  let ?st' = "count_packet (append_calls (write_calls s (pkt_d (?mem p))) s)"
  have sm: "m_calls s = m_calls st" "m_bulkio_time_stamp s = ?T" "m_endianness s = m_endianness st"
    "m_bps s = m_bps st" "m_expected_seq_number s = m_expected_seq_number st"
    using s(2) stamp_packet_frame [where P = P and pkt = "mem p" and st = st] stamp_packet_only(9) [where P = P and pkt = "mem p" and st = st]
    by (simp_all add: only_timing_def)
  have "swapped_store s p mem = ?mem" by (simp add: swapped_store_def swap_data_def sm)
  then have w: "write_calls s (pkt_d (?mem p)) = spec_write (m_endianness st) (m_bps st) (pkt_d (mem p)) ?T"
    using write_calls_spec [of s p mem] ok(1) by (simp add: sm proc_ok_def)
  have nc: "m_non_conforming_device s = m_non_conforming_device st"
    if "m_non_conforming_device st \<or> \<not> pkt_cx (mem p)"
    using checkForTimeSlip_slips(2) [OF s(1)] that stamp_packet_only(5) [where P = P and pkt = "mem p" and st = st] by simp
  have "streaming ?st'"
    using s(2) stamp_packet_frame [where P = P and pkt = "mem p" and st = st] stamp_packet_only [where P = P and pkt = "mem p" and st = st] str
    by (simp add: streaming_def only_timing_def proc_ok_def coherent_def count_packet_def append_calls_def)
  moreover have "fits ?st' pkt" if f: "fits st pkt" for pkt
  proof -
    have eqs: "m_wait_for_ttv ?st' = m_wait_for_ttv st" "m_push_on_ttv ?st' = m_push_on_ttv st"
      "m_use_upstream_sri ?st' = m_use_upstream_sri st" "m_sri ?st' = m_sri st"
      "m_current_ttv_flag ?st' = m_current_ttv_flag st"
      "m_non_conforming_device ?st' = m_non_conforming_device s"
      using s(2) stamp_packet_frame(3) [where P = P and pkt = "mem p" and st = st]
        stamp_packet_only [where P = P and pkt = "mem p" and st = st]
      by (simp_all add: only_timing_def count_packet_def append_calls_def)
    show ?thesis
    proof (cases "m_use_upstream_sri st")
      case True
      with f show ?thesis by (simp add: fits_def eqs)
    next
      case False
      then have "m_non_conforming_device st \<or> \<not> pkt_cx (mem p)" using fit by (simp add: fits_def)
      with f show ?thesis by (simp add: fits_def eqs nc)
    qed
  qed
  moreover have "m_pkts_dropped ?st' = m_pkts_dropped st"
    using s(2) stamp_packet_only(10) [where P = P and pkt = "mem p" and st = st]
    by (simp add: only_timing_def count_packet_def append_calls_def)
  ultimately have "same_stream st ?st'"
    by (simp add: same_stream_def) (simp add: sm count_packet_def append_calls_def)
  moreover have "m_calls ?st' = m_calls st @ spec_write (m_endianness st) (m_bps st) (pkt_d (mem p)) ?T"
    by (simp add: count_packet_def append_calls_def sm w [symmetric])
  moreover have "m_expected_seq_number ?st' = next_seq (m_expected_seq_number st)"
    by (simp add: count_packet_def append_calls_def sm)
  moreover have "process_packet P p mem st = Inr (Recycle, ?mem, ?st')"
    unfolding body by (rule s(3))
  ultimately show thesis using that stamp_packet_stamped by blast
qed

lemma swapped_store_other: "q \<noteq> p \<Longrightarrow> swapped_store st p mem q = mem q"
  using touches_other [OF touches_swapped] .

lemma processPackets_streaming:
  assumes "streaming st" "distinct work" "\<forall>p \<in> set work. fits st (mem p)"
    "in_sequence (m_expected_seq_number st) (map mem work)"
  shows "\<exists>mem' st' Ts. processPackets P mem st work rec = Inr (mem', st', [], rec @ work)
     \<and> list_all2 (\<lambda>p T. stamped (mem p) T) work Ts
     \<and> m_calls st' = m_calls st @ concat (map (\<lambda>(p, T).
          spec_write (m_endianness st) (m_bps st) (pkt_d (mem p)) T) (zip work Ts))
     \<and> same_stream st st'
     \<and> m_expected_seq_number st' = (next_seq ^^ length work) (m_expected_seq_number st)"
  using assms
proof (induction work arbitrary: mem st rec)
  case Nil
  then show ?case by (simp add: same_stream_def)
next
  case (Cons p work)
  obtain st1 T where one: "process_packet P p mem st = Inr (Recycle, swapped_store st p mem, st1)"
    "m_calls st1 = m_calls st @ spec_write (m_endianness st) (m_bps st) (pkt_d (mem p)) T"
    "stamped (mem p) T" "same_stream st st1"
    "m_expected_seq_number st1 = next_seq (m_expected_seq_number st)"
    using process_packet_streaming [where st = st and mem = mem and p = p and P = P] Cons.prems by auto
  let ?mem = "swapped_store st p mem"
  have other: "?mem q = mem q" if "q \<in> set work" for q
    using that Cons.prems(2) by (auto intro: swapped_store_other)
  then have maps: "map ?mem work = map mem work" by simp
  have prems: "streaming st1" "distinct work" "\<forall>q \<in> set work. fits st1 (?mem q)"
    "in_sequence (m_expected_seq_number st1) (map ?mem work)"
    using Cons.prems one(4,5) other unfolding maps by (simp_all add: same_stream_def)
  obtain mem' st' Ts where rest: "processPackets P ?mem st1 work (rec @ [p]) = Inr (mem', st', [], (rec @ [p]) @ work)"
    "list_all2 (\<lambda>p T. stamped (?mem p) T) work Ts"
    "m_calls st' = m_calls st1 @ concat (map (\<lambda>(p, T).
          spec_write (m_endianness st1) (m_bps st1) (pkt_d (?mem p)) T) (zip work Ts))"
    "same_stream st1 st'" "m_expected_seq_number st' = (next_seq ^^ length work) (m_expected_seq_number st1)"
    using Cons.IH [OF prems] by blast
  have zips: "map (\<lambda>(p, T). spec_write e b (pkt_d (?mem p)) T) (zip work Ts)
      = map (\<lambda>(p, T). spec_write e b (pkt_d (mem p)) T) (zip work Ts)" for e b
    by (rule map_cong) (auto dest!: set_zip_leftD simp: other)
  have "list_all2 (\<lambda>p T. stamped (mem p) T) work Ts"
    using rest(2) by (rule list.rel_mono_strong) (simp add: other)
  then have "list_all2 (\<lambda>p T. stamped (mem p) T) (p # work) (T # Ts)" using one(3) by simp
  moreover have "processPackets P mem st (p # work) rec = Inr (mem', st', [], rec @ p # work)"
    using rest(1) by (simp add: one(1))
  moreover have "m_calls st' = m_calls st @ concat (map (\<lambda>(p, T).
      spec_write (m_endianness st) (m_bps st) (pkt_d (mem p)) T) (zip (p # work) (T # Ts)))"
    using rest(3) one(2,4) by (simp add: zips same_stream_def)
  moreover have "same_stream st st'" using one(4) rest(4) by (auto simp: same_stream_def)
  moreover have "m_expected_seq_number st' = (next_seq ^^ length (p # work)) (m_expected_seq_number st)"
    using rest(5) one(5) by (simp add: funpow_swap1)
  ultimately show ?case by blast
qed

section \<open>Properties\<close>

text \<open>Refinement: on an undisturbed stream (consecutive data sequence numbers, no change of
  SRI or of a watched flag) the packet loop is exactly one write per packet and nothing else:
  all packets are consumed in order in one pass, each packet's samples reach BulkIO once, as
  the values the sender wrote in the configured byte order, with the packet's own time stamp;
  no packet is counted as dropped and the next expected number is that after the last packet.\<close>

theorem undisturbed_stream_refines:
  assumes "streaming st" "distinct work" "\<forall>p \<in> set work. fits st (mem p)"
    "in_sequence (m_expected_seq_number st) (map mem work)"
  shows "\<exists>mem' st' Ts. processPackets P mem st work rec = Inr (mem', st', [], rec @ work)
     \<and> list_all2 (\<lambda>p T. stamped (mem p) T) work Ts
     \<and> m_calls st' = m_calls st @ concat (map (\<lambda>(p, T).
          spec_write (m_endianness st) (m_bps st) (pkt_d (mem p)) T) (zip work Ts))
     \<and> m_pkts_dropped st' = m_pkts_dropped st \<and> streaming st'
     \<and> m_expected_seq_number st' = (next_seq ^^ length work) (m_expected_seq_number st)"
  using processPackets_streaming [where rec = rec and P = P, OF assms] by (auto simp: same_stream_def)

definition sample_streaming :: "string processor" where
  "sample_streaming = sample_processor\<lparr>m_first_packet := False, m_bps := 16, octetStream := True,
     shortStream := True, floatStream := True, m_use_upstream_sri := True\<rparr>"

lemma undisturbed_stream_refines_witness:
  "\<exists>mem' st' Ts. processPackets sample_platform sample_store sample_streaming [0, 1] [] = Inr (mem', st', [], [0, 1])
     \<and> list_all2 (\<lambda>p T. stamped (sample_store p) T) [0, 1] Ts \<and> m_expected_seq_number st' = 2"
proof -
  have str: "streaming sample_streaming"
    by (simp add: streaming_def sample_streaming_def proc_ok_def coherent_def bps_ok_iff sample_defs endian_defs)
  have fit: "fits sample_streaming (sample_store p)" for p
    by (simp add: fits_def sample_streaming_def sample_defs)
  have n1: "next_seq 0 = 1" "next_seq 1 = 2" by (simp_all add: next_seq_def)
  have seq: "in_sequence (m_expected_seq_number sample_streaming) (map sample_store [0, 1])"
    by (simp add: sample_streaming_def sample_defs sample_store_def f_seq.get_put n1)
  have "(next_seq ^^ length [0 :: nat, 1]) (m_expected_seq_number sample_streaming) = 2"
    by (simp add: sample_streaming_def sample_defs n1)
  with undisturbed_stream_refines [of sample_streaming "[0, 1]" sample_store sample_platform "[]"]
    str fit seq show ?thesis by (auto simp del: processPackets.simps)
qed

text \<open>C35: The expected sequence numbers: starting from 0, the \<open>n\<close>-th data packet is expected to
  carry the number \<open>n + n div 31\<close>, for every \<open>n\<close> and through all wrap arounds of the 16 bits; a
  number congruent 31 modulo 32 (a checksum packet) is never expected.\<close>

theorem expected_numbers_closed_form:
  "(next_seq ^^ n) 0 = of_nat (n + n div 31) \<and> next_seq k mod 32 \<noteq> 31"
  by (simp add: next_seq_iterate next_seq_not_checksum)

text \<open>C36: A gap in the sequence numbers is counted modulo \<open>2 ^ 16\<close>, also across the wrap around:
  \<open>k\<close> numbers ahead of the expected one adds \<open>k\<close> dropped packets, and the packet is looked at
  again as the first of a new stream.\<close>

theorem gap_counts_dropped:
  assumes "\<not> m_first_packet st" "get_seq pkt = m_expected_seq_number st + of_nat k"
    "0 < k" "k < 65536"
  shows "orderIsValid pkt st = Inr (False, st\<lparr>m_pkts_dropped := m_pkts_dropped st + of_nat k,
     m_first_packet := True\<rparr>)"
proof -
  have "unat (of_nat k :: u16) = k" using assms(4) by (simp add: unsigned_of_nat take_bit_eq_mod)
  moreover from this have "(of_nat k :: u16) \<noteq> 0" using assms(3) by auto
  moreover have "(ucast (of_nat k :: u16) :: u64) = of_nat k"
    using assms(4) by (simp add: word_unat_eq_iff unsigned_ucast_eq unsigned_of_nat take_bit_eq_mod)
  ultimately show ?thesis
    using assms(1,2) by (simp add: orderIsValid_eq dropped_state_def del: unsigned_of_nat)
qed

lemma gap_counts_dropped_witness:
  "orderIsValid (set_seq 2 sample_packet) (sample_streaming\<lparr>m_expected_seq_number := 0xFFFE\<rparr>)
     = Inr (False, sample_streaming\<lparr>m_expected_seq_number := 0xFFFE, m_pkts_dropped := 4, m_first_packet := True\<rparr>)"
  using gap_counts_dropped [of "sample_streaming\<lparr>m_expected_seq_number := 0xFFFE\<rparr>" "set_seq 2 sample_packet" 4]
  by (simp add: sample_streaming_def sample_defs f_seq.get_put)

text \<open>A checksum packet that is sent after all counts as 65535 dropped packets, not as one:
  its number lies one behind the expected one.\<close>

theorem checksum_packet_counts_65535:
  assumes "\<not> m_first_packet st" "m_expected_seq_number st = get_seq pkt + 1"
  shows "orderIsValid pkt st = Inr (False, st\<lparr>m_pkts_dropped := m_pkts_dropped st + 65535,
     m_first_packet := True\<rparr>)"
proof -
  have "(- 1 :: u16) = 65535" by simp
  then have "(ucast (- 1 :: u16) :: u64) = 65535" by (simp only:) simp
  then show ?thesis using assms by (simp add: orderIsValid_eq dropped_state_def)
qed

lemma checksum_packet_counts_65535_witness:
  "orderIsValid (set_seq 31 sample_packet) (sample_streaming\<lparr>m_expected_seq_number := 32\<rparr>)
     = Inr (False, sample_streaming\<lparr>m_expected_seq_number := 32, m_pkts_dropped := 65535, m_first_packet := True\<rparr>)"
  using checksum_packet_counts_65535 [of "sample_streaming\<lparr>m_expected_seq_number := 32\<rparr>" "set_seq 31 sample_packet"]
  by (simp add: sample_streaming_def sample_defs f_seq.get_put)

text \<open>C37: Exactly when a time slip is counted. A step of time is measured when the packet and an earlier
  one of the stream carry a valid time and it does not go back. A measured step counts one slip when it
  is longer than the longest or shorter than the shortest step expected, unless it shows a device that
  sends complex data at twice the rate in its headers (none known yet, no slip so far, and twice the
  step is in the bounds); or when the accumulated error then exceeds the tolerance. The error starts
  again at zero exactly in the second case and otherwise grows by the difference to the ideal step; no
  other step, and no packet without a valid time, changes the count or the error.\<close>

theorem time_slips_counted:
  assumes "checkForTimeSlip pkt st = Inr st'"
    and "dt = dsub (seconds (get_SDDSTime pkt)) (seconds (m_last_sdds_time st))"
    and "measured \<longleftrightarrow> ttv_on pkt \<and> m_last_sdds_time st \<noteq> time_zero \<and> \<not> dless dt (Fin 0)"
    and "outside \<longleftrightarrow> dless (m_max_time_step st) dt \<or> dless dt (m_min_time_step st)"
    and "double_rate \<longleftrightarrow> outside \<and> \<not> m_non_conforming_device st \<and> pkt_cx pkt \<and> m_num_time_slips st = 0
      \<and> dless (dmul (Fin 2) dt) (m_max_time_step st) \<and> dless (m_min_time_step st) (dmul (Fin 2) dt)"
    and "acc = dadd (m_time_error_accum st) (dsub dt (m_ideal_time_step st'))"
    and "far \<longleftrightarrow> dless (m_accum_error_tolerance st) (dabs acc)"
  shows "m_num_time_slips st' = m_num_time_slips st + (if measured \<and> (outside \<and> \<not> double_rate \<or> far) then 1 else 0)
    \<and> m_time_error_accum st' = (if \<not> measured then m_time_error_accum st else if far then Fin 0 else acc)
    \<and> (m_non_conforming_device st' \<longleftrightarrow> m_non_conforming_device st \<or> measured \<and> double_rate)
    \<and> (\<not> (measured \<and> double_rate) \<longrightarrow> m_ideal_time_step st' = m_ideal_time_step st)
    \<and> m_last_sdds_time st' = (if ttv_on pkt then get_SDDSTime pkt else m_last_sdds_time st)"
proof (cases measured)
  case False
  then show ?thesis
    using assms(1) unfolding assms(3) assms(2)
    by (auto simp: checkForTimeSlip_def ttv_on_def Let_def split: if_splits)
next
  case True
  let ?st = "st\<lparr>m_last_sdds_time := get_SDDSTime pkt\<rparr>"
  have time: "get_ttv pkt \<noteq> 0" "\<not> time_eq (m_last_sdds_time st) time_zero" "\<not> dless dt (Fin 0)" "ttv_on pkt"
    using True unfolding assms(3) by (auto simp: ttv_on_def)
  obtain slip u where step: "check_time_step dt pkt ?st = Inr (slip, u)"
    and st': "st' = (let (slip, v) = accumulate_error dt slip u
      in if slip then v\<lparr>m_num_time_slips := m_num_time_slips v + 1\<rparr> else v)"
    using assms(1) time unfolding assms(2)
    by (cases "check_time_step (dsub (seconds (get_SDDSTime pkt)) (seconds (m_last_sdds_time st))) pkt ?st")
      (auto simp: checkForTimeSlip_def Let_def split: prod.splits)
  note kept = check_time_step_keeps [OF step]
  have slip: "slip \<longleftrightarrow> outside \<and> \<not> double_rate" "m_non_conforming_device u \<longleftrightarrow> m_non_conforming_device st \<or> double_rate"
    "\<not> double_rate \<longrightarrow> u = ?st"
    using step unfolding assms(4,5)
    by (auto simp: check_time_step_def step_out_of_range_def looks_non_conforming_def updateExpectedXdelta_eq
        expect_steps_def Let_def split: if_splits)
  have "m_ideal_time_step st' = m_ideal_time_step u" by (simp add: st' accumulate_error_def Let_def)
  then have acc: "acc = dadd (m_time_error_accum u) (dsub dt (m_ideal_time_step u))"
    "far \<longleftrightarrow> dless (m_accum_error_tolerance u) (dabs acc)"
    using kept unfolding assms(6,7) by simp_all
  show ?thesis
    using True slip kept time(4) by (simp add: st' accumulate_error_def Let_def acc(2) flip: acc(1)) (auto simp: acc(1))
qed

text \<open>A packet at the same time as the one before, where steps of one to two seconds are expected.\<close>

lemma time_slips_counted_witness:
  "\<exists>st'. checkForTimeSlip (set_SDDSTime (time_raw 4000000000 0) sample_packet)
      (sample_streaming\<lparr>m_last_sdds_time := time_raw 4000000000 0, m_min_time_step := Fin 1, m_max_time_step := Fin 2\<rparr>) = Inr st'
    \<and> m_num_time_slips st' = 1"
proof -
  let ?t = "time_raw 4000000000 0" and ?st = "sample_streaming\<lparr>m_last_sdds_time := time_raw 4000000000 0,
    m_min_time_step := Fin 1, m_max_time_step := Fin 2\<rparr>"
  let ?pkt = "set_SDDSTime ?t sample_packet"
  have pkt: "get_SDDSTime ?pkt = ?t" "ttv_on ?pkt" "\<not> pkt_cx ?pkt"
    by (simp_all add: f_time.get_put) (simp_all add: set_SDDSTime_def sample_packet_def ttv_on_def get_ttv_def)
  have "\<exists>z. seconds ?t = Fin z"
  proof -
    obtain a where a: "SDDSTime_tic = Fin a" "0 \<le> a" "a \<le> 1"
      using rnd_le [of "250 / 10 ^ 12" 1] representable_int [of 1] by (auto simp: SDDSTime_tic_def)
    obtain b where "rnd (a / 4294967296) = Fin b"
      using rnd_le [of "a / 4294967296" 1] representable_int [of 1] a(2,3) by auto
    then have b: "ddiv SDDSTime_tic SDDSTime_two32 = Fin b" by (simp add: a(1) SDDSTime_two32_def)
    have "dbl_of_word (4000000000 :: u64) = Fin 4000000000"
      using rnd_small_int [of 4000000000] by (simp add: dbl_of_word_def dbl_of_int_def)
    moreover obtain c where c: "rnd (4000000000 * a) = Fin c" "0 \<le> c" "c \<le> 4000000000"
      using rnd_le [of "4000000000 * a" 4000000000] representable_int [of 4000000000] a by auto
    moreover have "dbl_of_word (0 :: u32) = Fin 0" by (simp add: dbl_of_word_def dbl_of_int_def)
    moreover obtain d where "rnd c = Fin d"
      using rnd_le [of c 4000000000] representable_int [of 4000000000] c by auto
    ultimately show ?thesis by (simp add: seconds_def time_raw_def b) (simp add: a(1))
  qed
  then obtain z where z: "seconds ?t = Fin z" by blast
  have dt: "dsub (seconds (get_SDDSTime ?pkt)) (seconds (m_last_sdds_time ?st)) = Fin 0" by (simp add: pkt z dsub_def)
  obtain st' where run: "checkForTimeSlip ?pkt ?st = Inr st'"
    using pkt by (cases "checkForTimeSlip ?pkt ?st")
      (auto simp: checkForTimeSlip_def check_time_step_def looks_non_conforming_def Let_def split: if_splits prod.splits)
  have "?t \<noteq> time_zero" by (simp add: time_raw_def time_zero_def)
  then have "m_num_time_slips st' = 1"
    using time_slips_counted [OF run refl refl refl refl refl refl] pkt(2,3) unfolding dt
    by (simp add: sample_streaming_def sample_defs)
  with run show ?thesis by blast
qed

end
