(* ===== verification/Pipeline_Stream.thy ===== *)
theory Pipeline_Stream
  imports Pipeline Processor_Stream
begin

text \<open>
  What the running pipeline hands to BulkIO. A turn of the processor that is not interrupted is the
  operation \<open>run_turn\<close> of its theory; what the processor promises of one pass holds of every run
  of the pipeline; and on an undisturbed stream the calls the processor makes are one write for each
  packet it has handled, in the order of their arrival.
\<close>

section \<open>A turn as a sequence of steps\<close>

lemma pass_steps:
  assumes "processPackets P mem st work rec = Inr (mem', st', work', rec')"
    "sy_ppc s = PPass" "sy_mem s = mem" "sy_proc s = st" "sy_work s = work" "sy_rec s = rec"
    "proc_ok st" "distinct work"
  shows "\<exists>evs. sys_run P c s evs
      (s\<lparr>sy_mem := mem', sy_proc := st', sy_work := work', sy_rec := rec', sy_ppc := PRecycle\<rparr>)
    \<and> handled evs @ map mem work' = map mem work \<and> arrived evs = []"
  using assms
proof (induction P mem st work rec arbitrary: s rule: processPackets.induct)
  case (1 P mem st rec)
  have "s\<lparr>sy_mem := mem', sy_proc := st', sy_work := work', sy_rec := rec', sy_ppc := PRecycle\<rparr>
      = s\<lparr>sy_ppc := PRecycle\<rparr>" using 1 by (cases s) auto
  note same = this
  show ?case
    unfolding same using sys_run_one [OF proc_leaves [OF 1(2), of P c]] 1 by (intro exI [of _ "[Tau]"]) auto
next
  case (2 P mem st p work rec)
  obtain out mem1 st1 where one: "process_packet P p mem st = Inr (out, mem1, st1)"
    using 2(2) by (cases "process_packet P p mem st") auto
  note step = one [folded 2(4,5)]
  have turn: "turn_ok st st1" "touches p mem mem1" "out = Refill \<longrightarrow> mem1 = mem"
    using process_packet_turn [OF 2(8), of mem p P] one by simp_all
  show ?case
  proof (cases out)
    case Refill
    from sys_run_one [OF proc_returns [OF 2(3,6) step [unfolded Refill], of c]] 2(2,4-7) one Refill turn(3)
    show ?thesis by (intro exI [of _ "[Tau]"]) auto
  next
    case Recycle
    let ?s = "s\<lparr>sy_mem := mem1, sy_proc := st1, sy_work := work, sy_rec := sy_rec s @ [p]\<rparr>"
    note first = sys_run_one [OF proc_handles [OF 2(3,6) step [unfolded Recycle], of c]]
    have rest: "processPackets P mem1 st1 work (rec @ [p]) = Inr (mem', st', work', rec')"
      using 2(2) one Recycle by simp
    have "proc_ok st1" using turn(1) by (simp add: turn_ok_def)
    with 2(3,6,7,9) obtain evs where evs: "sys_run P c ?s evs (?s\<lparr>sy_mem := mem', sy_proc := st', sy_work := work',
        sy_rec := rec', sy_ppc := PRecycle\<rparr>)"
      "handled evs @ map mem1 work' = map mem1 work" "arrived evs = []"
      using 2(1) [OF outcome.distinct(1) rest, of ?s] by auto
    have "set work' \<subseteq> set work"
      using processPackets_run [OF \<open>proc_ok st1\<close>, of work mem1 "rec @ [p]" P] rest by auto
    then have same: "map mem1 work = map mem work" "map mem1 work' = map mem work'"
      using 2(9) by (auto intro!: touches_other [OF turn(2)])
    have "handled ([Handled [mem p]] @ evs) @ map mem work' = map mem (p # work)"
      using evs(2) same by simp
    moreover have "sys_run P c s ([Handled [mem p]] @ evs)
        (s\<lparr>sy_mem := mem', sy_proc := st', sy_work := work', sy_rec := rec', sy_ppc := PRecycle\<rparr>)"
      using sys_run_trans [OF evs(1) first] 2(4) by simp
    moreover have "arrived ([Handled [mem p]] @ evs) = []" using evs(3) by simp
    ultimately show ?thesis by blast
  qed
qed

lemma turn_steps:
  assumes pc: "sy_ppc s = PTop" and go: "\<not> m_shuttingDown (sy_proc s)" and ok: "proc_ok (sy_proc s)"
    and dist: "distinct (sy_work s @ buf_full (sy_buf s))"
    and turn: "run_turn P (sy_mem s) (sy_proc s) (sy_buf s) (sy_work s) (sy_rec s)
      = Some (Inr (mem, st, b, work, rec))"
  shows "\<exists>evs. sys_run P c s evs
      (s\<lparr>sy_mem := mem, sy_proc := st, sy_work := work, sy_rec := rec, sy_buf := b, sy_ppc := PTop\<rparr>)"
proof -
  obtain work1 b1 where pop:
    "pop_full_buffers (sy_work s) (unat (m_pkts_per_read (sy_proc s))) (sy_buf s) = Some (work1, b1)"
    using turn by (auto simp: run_turn_def split: option.splits)
  obtain rec1 where pass: "processPackets P (sy_mem s) (sy_proc s) work1 (sy_rec s) = Inr (mem, st, work, rec1)"
    and rec: "recycle_buffers rec1 b1 = (rec, b)"
    using turn go by (auto simp: run_turn_def pop bind_result_Inr case_prod_unfold Let_def)
  have "distinct work1"
    using dist pop by (auto simp: buffer_ops disjoint_iff split: if_splits dest!: in_set_takeD)
  let ?s3 = "s\<lparr>sy_work := work1, sy_buf := b1, sy_ppc := PPass\<rparr>"
  have one: "sys_run P c s [Tau] (s\<lparr>sy_ppc := PPop\<rparr>)" by (rule sys_run_one [OF proc_tests [OF pc go]])
  have "sys_run P c (s\<lparr>sy_ppc := PPop\<rparr>) [Tau] (s\<lparr>sy_work := work1, sy_buf := b1, sy_ppc := PWork\<rparr>)"
    using sys_run_one [OF proc_pops [of "s\<lparr>sy_ppc := PPop\<rparr>" work1 b1 P c]] pop by simp
  note two = sys_run_trans [OF this one]
  have "sys_run P c (s\<lparr>sy_work := work1, sy_buf := b1, sy_ppc := PWork\<rparr>) [Tau] ?s3"
    using sys_run_one [OF proc_enters [of "s\<lparr>sy_work := work1, sy_buf := b1, sy_ppc := PWork\<rparr>" P c]] go by simp
  note three = sys_run_trans [OF this two]
  obtain evs where "sys_run P c ?s3 evs
      (?s3\<lparr>sy_mem := mem, sy_proc := st, sy_work := work, sy_rec := rec1, sy_ppc := PRecycle\<rparr>)"
    using pass_steps [OF pass, of ?s3 c] \<open>distinct work1\<close> ok by auto
  note four = sys_run_trans [OF this three]
  let ?s4 = "?s3\<lparr>sy_mem := mem, sy_proc := st, sy_work := work, sy_rec := rec1, sy_ppc := PRecycle\<rparr>"
  have "sys_run P c ?s4 [Tau]
      (s\<lparr>sy_mem := mem, sy_proc := st, sy_work := work, sy_rec := rec, sy_buf := b, sy_ppc := PTop\<rparr>)"
    using sys_run_one [OF proc_recycles [of ?s4 rec b P c]] rec by simp
  from sys_run_trans [OF this four] show ?thesis by blast
qed

section \<open>What every run writes\<close>

text \<open>What a pass promises of the calls, without the settings a stop changes.\<close>

definition output_ok :: "'a processor \<Rightarrow> 'a processor \<Rightarrow> bool" where
  "output_ok st st' \<longleftrightarrow> proc_ok st' \<and> m_wait_for_ttv st' = m_wait_for_ttv st \<and> m_push_on_ttv st' = m_push_on_ttv st
     \<and> (\<exists>cs. m_calls st' = m_calls st @ cs \<and> (m_wait_for_ttv st \<longrightarrow> write_status TCS_VALID cs))
     \<and> (m_push_on_ttv st \<and> push_ok st \<longrightarrow> push_ok st')"

lemma output_ok_refl: "proc_ok st \<Longrightarrow> output_ok st st"
  by (auto simp: output_ok_def intro: exI [of _ "[]"])

lemma output_ok_turn: "turn_ok st st' \<Longrightarrow> output_ok st st'"
  by (auto simp: output_ok_def turn_ok_def same_config_def)

lemma output_ok_trans:
  assumes "output_ok a b" "output_ok b c"
  shows "output_ok a c"
proof -
  from assms obtain cs ds where
    "m_calls b = m_calls a @ cs" "m_wait_for_ttv a \<longrightarrow> write_status TCS_VALID cs"
    "m_calls c = m_calls b @ ds" "m_wait_for_ttv b \<longrightarrow> write_status TCS_VALID ds"
    unfolding output_ok_def by blast
  then have "m_calls c = m_calls a @ (cs @ ds) \<and> (m_wait_for_ttv a \<longrightarrow> write_status TCS_VALID (cs @ ds))"
    using assms(1) by (simp add: output_ok_def)
  with assms show ?thesis unfolding output_ok_def by metis
qed

text \<open>The operations of the other threads and the first lines of \<open>run\<close> write nothing.\<close>

lemma output_ok_quiet:
  assumes "proc_ok st" "proc_ok st'" "m_calls st' = m_calls st" "m_wait_for_ttv st' = m_wait_for_ttv st"
    "m_push_on_ttv st' = m_push_on_ttv st" "m_current_ttv_flag st' = m_current_ttv_flag st"
    "m_first_packet st' = m_first_packet st" "octetStream st' = octetStream st"
  shows "output_ok st st'"
  using assms by (auto simp: output_ok_def push_ok_def intro: exI [of _ "[]"])

lemma run_end_output:
  assumes "run_end P st b work rec = (st', b', work', rec')" "proc_ok st"
  shows "output_ok st st'"
proof -
  let ?s = "close_streams P st"
  have eq: "st' = ?s\<lparr>m_running := False, m_first_packet := True, m_non_conforming_device := False\<rparr>"
    using assms(1) by (auto simp: run_end_def Let_def split: prod.splits)
  have co: "coherent st" using assms(2) by (simp add: proc_ok_def)
  have calls: "m_calls st' = m_calls st @ close_calls st"
    by (simp add: eq close_streams_eq [OF co] append_calls_def close_calls_def)
  have pend: "pend m (close_calls st) = (if octetStream st then clean else m)" "write_status TCS_VALID (close_calls st)"
    "separated m (close_calls st)" for m
    by (auto simp: close_calls_def write_status_def pend_step_def fun_eq_iff all_ports)
  have "push_ok st'" if "push_ok st"
    using that pend by (cases "octetStream st") (simp_all add: push_ok_def calls)
  moreover have "m_wait_for_ttv st' = m_wait_for_ttv st" "m_push_on_ttv st' = m_push_on_ttv st"
    by (simp_all add: eq close_streams_eq [OF co] append_calls_def)
  ultimately show ?thesis
    using run_end_ok [OF assms] calls pend(2) by (auto simp: output_ok_def)
qed

lemma step_output:
  assumes "sys_step P c s ev s'" "proc_ok (sy_proc s)"
  shows "output_ok (sy_proc s) (sy_proc s')"
proof -
  have packet: "output_ok (sy_proc s) st" if "process_packet P p (sy_mem s) (sy_proc s) = Inr (out, mem, st)" for p out mem st
    using process_packet_turn [OF assms(2), of "sy_mem s" p P] that by (simp add: output_ok_turn)
  note kept = step_proc_ok [OF assms]
  note quiet = output_ok_quiet [OF assms(2)]
  show ?thesis
    using assms(1)
  proof (cases rule: sys_step.cases)
    case (proc_ends st b work rec)
    then show ?thesis using run_end_output [OF proc_ends(5) assms(2)] by simp
  next
    case proc_starts
    then show ?thesis using kept by (auto intro!: quiet simp: run_begin_def)
  next
    case (sri_attached up)
    then show ?thesis using kept by (auto intro!: quiet simp: setUpstreamSri_def)
  next
    case sri_detached
    then show ?thesis using kept by (auto intro!: quiet simp: unsetUpstreamSri_def)
  next
    case stops
    then show ?thesis
      using kept output_ok_refl [OF assms(2)]
      by (auto intro!: quiet simp: stop_step_def shutDown_def split: stop_pc.splits)
  qed (use packet output_ok_refl [OF assms(2)] in simp_all)
qed

lemma run_output:
  "sys_run P c s0 evs s \<Longrightarrow> proc_ok (sy_proc s0) \<Longrightarrow> output_ok (sy_proc s0) (sy_proc s)"
proof (induction rule: sys_run.induct)
  case run_start
  then show ?case by (rule output_ok_refl)
next
  case (run_step evs s ev s')
  then have "output_ok (sy_proc s0) (sy_proc s)" by blast
  moreover from this have "proc_ok (sy_proc s)" by (simp add: output_ok_def)
  ultimately show ?case using step_output [OF run_step.hyps(2)] output_ok_trans by blast
qed

section \<open>An undisturbed stream through the pipeline\<close>

lemma in_sequence_append:
  "in_sequence n (ps @ qs) \<longleftrightarrow> in_sequence n ps \<and> in_sequence ((next_seq ^^ length ps) n) qs"
  by (induction ps arbitrary: n) (auto simp: funpow_swap1)

text \<open>The calls for packets \<open>ps\<close> with time stamps \<open>Ts\<close>: one write of each packet's samples.\<close>

definition spec_writes :: "string \<Rightarrow> u16 \<Rightarrow> SDDSpacket list \<Rightarrow> PrecisionUTCTime list \<Rightarrow> 'a call list" where
  "spec_writes e bps ps Ts = concat (map (\<lambda>(pkt, T). spec_write e bps (pkt_d pkt) T) (zip ps Ts))"

definition stream_kept :: "'a processor \<Rightarrow> SDDSpacket list \<Rightarrow> 'a processor \<Rightarrow> bool" where
  "stream_kept st ps st' \<longleftrightarrow> same_stream st st'
     \<and> m_expected_seq_number st' = (next_seq ^^ length ps) (m_expected_seq_number st)
     \<and> (\<exists>Ts. list_all2 stamped ps Ts \<and> m_calls st' = m_calls st @ spec_writes (m_endianness st) (m_bps st) ps Ts)"

lemma stream_kept_Nil: "streaming st \<Longrightarrow> stream_kept st [] st"
  by (simp add: stream_kept_def same_stream_def spec_writes_def)

lemma stream_kept_packet:
  assumes kept: "stream_kept st0 ps st" and fit: "fits st0 (mem p)"
    and seq: "get_seq (mem p) = (next_seq ^^ length ps) (m_expected_seq_number st0)"
    and packet: "process_packet P p mem st = Inr (out, mem', st')"
  shows "out = Recycle \<and> stream_kept st0 (ps @ [mem p]) st'"
proof -
  obtain Ts where Ts: "list_all2 stamped ps Ts"
      "m_calls st = m_calls st0 @ spec_writes (m_endianness st0) (m_bps st0) ps Ts"
    and str: "streaming st" "fits st (mem p)" "get_seq (mem p) = m_expected_seq_number st"
    and same: "m_endianness st = m_endianness st0" "m_bps st = m_bps st0"
    using kept fit seq unfolding stream_kept_def same_stream_def by auto
  obtain T where T: "out = Recycle" "m_calls st' = m_calls st @ spec_write (m_endianness st) (m_bps st) (pkt_d (mem p)) T"
    "stamped (mem p) T" "same_stream st st'" "m_expected_seq_number st' = next_seq (m_expected_seq_number st)"
    using process_packet_streaming [where st = st and mem = mem and p = p and P = P, OF str] packet by auto
  have "length ps = length Ts" using Ts(1) by (rule list_all2_lengthD)
  then have "m_calls st' = m_calls st0 @ spec_writes (m_endianness st0) (m_bps st0) (ps @ [mem p]) (Ts @ [T])"
    using T(2) Ts(2) same by (simp add: spec_writes_def)
  moreover have "list_all2 stamped (ps @ [mem p]) (Ts @ [T])" using Ts(1) T(3) by (simp add: list_all2_appendI)
  moreover have "same_stream st0 st'" using kept T(4) by (auto simp: stream_kept_def same_stream_def)
  ultimately show ?thesis using T(1,5) kept by (auto simp: stream_kept_def)
qed

lemma stream_kept_same:
  assumes "stream_kept st0 ps st" "proc_ok st'" "m_calls st' = m_calls st"
    "m_first_packet st' = m_first_packet st" "octetStream st' = octetStream st"
    "m_upstream_sri_set st' = m_upstream_sri_set st" "m_new_upstream_sri st' = m_new_upstream_sri st"
    "\<And>pkt. fits st' pkt = fits st pkt" "m_bps st' = m_bps st" "m_endianness st' = m_endianness st"
    "m_pkts_dropped st' = m_pkts_dropped st" "m_expected_seq_number st' = m_expected_seq_number st"
  shows "stream_kept st0 ps st'"
  using assms by (simp add: stream_kept_def same_stream_def streaming_def)

lemma stream_kept_step:
  assumes step: "sys_step P c s ev s'" and kept: "stream_kept st0 ps (sy_proc s)" and ev: "ev \<noteq> Sri"
    and "end": "sy_ppc s' \<noteq> PDone"
    and head: "\<And>p work. sy_work s = p # work \<Longrightarrow> fits st0 (sy_mem s p)
      \<and> get_seq (sy_mem s p) = (next_seq ^^ length ps) (m_expected_seq_number st0)"
    and ok: "\<not> (\<exists>e. sy_ppc s = PFault e)"
  shows "stream_kept st0 (ps @ handled [ev]) (sy_proc s') \<and> \<not> (\<exists>e. sy_ppc s' = PFault e)"
proof -
  have p: "proc_ok (sy_proc s)" using kept by (simp add: stream_kept_def same_stream_def streaming_def)
  note same = stream_kept_same [OF kept]
  show ?thesis
    using step
  proof (cases rule: sys_step.cases)
    case (proc_handles p work mem st)
    from stream_kept_packet [OF kept _ _ proc_handles(5)] head [OF proc_handles(4)] ok show ?thesis
      by (simp add: proc_handles)
  next
    case (proc_returns p work mem st)
    from stream_kept_packet [OF kept _ _ proc_returns(5)] head [OF proc_returns(4)] show ?thesis by simp
  next
    case (proc_fails p work e)
    have "streaming (sy_proc s)" using kept by (simp add: stream_kept_def same_stream_def)
    moreover have "fits (sy_proc s) (sy_mem s p)" "get_seq (sy_mem s p) = m_expected_seq_number (sy_proc s)"
      using head [OF proc_fails(4)] kept by (auto simp: stream_kept_def same_stream_def)
    ultimately show ?thesis
      using process_packet_streaming [of "sy_proc s" "sy_mem s" p P] proc_fails(5) by fastforce
  next
    case stops
    then show ?thesis using kept ok p
      by (auto simp: stop_step_def shutDown_def fits_def proc_ok_def coherent_def intro!: same split: stop_pc.splits)
  next
    case proc_starts
    then show ?thesis using p by (auto simp: run_begin_def fits_def proc_ok_def coherent_def intro!: same)
  qed (use kept ok ev "end" in simp_all)
qed

lemma stream_run:
  assumes "sys_run P c s0 evs s" "sys_inv base capacity n np s0" "running s" "sy_ppc s \<noteq> PDone" "Sri \<notin> set evs"
    "streaming (sy_proc s0)" "\<not> (\<exists>e. sy_ppc s0 = PFault e)"
    "\<forall>pkt \<in> set (waiting s0 @ arrived evs). fits (sy_proc s0) pkt"
    "in_sequence (m_expected_seq_number (sy_proc s0)) (waiting s0 @ arrived evs)"
  shows "stream_kept (sy_proc s0) (handled evs) (sy_proc s) \<and> \<not> (\<exists>e. sy_ppc s = PFault e)"
  using assms
proof (induction rule: sys_run.induct)
  case run_start
  then show ?case by (simp add: stream_kept_Nil)
next
  case (run_step evs s ev s')
  have before: "running s" "sy_ppc s \<noteq> PDone"
    using step_keeps_flag step_not_done run_step.hyps(2) run_step.prems(2,3) by blast+
  have seq: "in_sequence (m_expected_seq_number (sy_proc s0)) (waiting s0 @ arrived evs)"
    using run_step.prems(8) by (simp add: in_sequence_append)
  have fit: "\<forall>pkt \<in> set (waiting s0 @ arrived evs). fits (sy_proc s0) pkt" using run_step.prems(7) by auto
  have ih: "stream_kept (sy_proc s0) (handled evs) (sy_proc s)" "\<not> (\<exists>e. sy_ppc s = PFault e)"
    using run_step.IH [OF run_step.prems(1) before _ run_step.prems(5,6) fit seq] run_step.prems(4) by simp_all
  have all: "waiting s0 @ arrived evs = handled evs @ waiting s"
    using run_keeps [OF run_step.hyps(1) run_step.prems(1) before(1)] before(2) by blast
  have head: "fits (sy_proc s0) (sy_mem s p)
      \<and> get_seq (sy_mem s p) = (next_seq ^^ length (handled evs)) (m_expected_seq_number (sy_proc s0))"
    if "sy_work s = p # work" for p work
  proof -
    have w: "waiting s0 @ arrived evs = handled evs @ sy_mem s p # map (sy_mem s) (work @ buf_full (sy_buf s))"
      unfolding all by (simp add: waiting_def that)
    have "fits (sy_proc s0) (sy_mem s p)" using fit unfolding w by simp
    moreover have "get_seq (sy_mem s p) = (next_seq ^^ length (handled evs)) (m_expected_seq_number (sy_proc s0))"
      using seq unfolding w in_sequence_append by simp
    ultimately show ?thesis ..
  qed
  have "ev \<noteq> Sri" using run_step.prems(4) by auto
  from stream_kept_step [OF run_step.hyps(2) ih(1) this run_step.prems(3) head ih(2)] show ?case by simp
qed

section \<open>Properties\<close>

text \<open>C8: In every run of the pipeline, from any state with a well-formed processor and whatever the
  other threads do (a stop included), the processor stays well-formed: its three stream handles
  agree, its bits per sample never make a division fail, its endianness is one of the two known
  values. And what it writes keeps its settings: with wait-on-ttv everything written carries a valid
  time stamp, and with push-on-ttv data of different time stamp status is separated by a flush or
  a close on every port.\<close>

theorem processor_stays_well_formed:
  assumes "sys_run P c s0 evs s" "proc_ok (sy_proc s0)"
  shows "proc_ok (sy_proc s) \<and> (\<exists>cs. m_calls (sy_proc s) = m_calls (sy_proc s0) @ cs
      \<and> (m_wait_for_ttv (sy_proc s0) \<longrightarrow> write_status TCS_VALID cs))
    \<and> (m_push_on_ttv (sy_proc s0) \<and> push_ok (sy_proc s0) \<longrightarrow> separated clean (m_calls (sy_proc s)))"
  using run_output [OF assms] by (auto simp: output_ok_def push_ok_def)

lemma processor_stays_well_formed_witness:
  "\<exists>evs s. sys_run sample_platform False (started 0 4 (\<lambda>_. blank_packet) new_reader sample_processor)
      (evs @ [Arrive [blank_packet]]) s \<and> proc_ok (sy_proc s)"
proof -
  obtain evs s where run: "sys_run sample_platform False (started 0 4 (\<lambda>_. blank_packet) new_reader sample_processor)
      (evs @ [Arrive [blank_packet]]) s" using sample_run by blast
  have "proc_ok (sy_proc (started 0 4 (\<lambda>_. blank_packet) new_reader sample_processor))"
    using sample_ok by (simp add: started_def)
  from processor_stays_well_formed [OF run this] run show ?thesis by blast
qed

text \<open>On an undisturbed stream nothing but the data is sent: let the processor be inside a stream in some state of
  the pipeline, and let all packets that wait there or arrive later carry consecutive data sequence
  numbers, fit the settings and bring no change of the SRI. Then over every interleaving of the
  threads, what the processor has handed to BulkIO since is one write for each packet it has handled,
  in the order of their arrival, of the samples the sender wrote and with the packet's own time
  stamp; no packet is counted as dropped, the processor does not fault, and the packets that are not
  written yet are those still waiting.\<close>

theorem pipeline_stream_refines:
  assumes "start_ok n np mem r st" "sys_run P c (started base capacity mem r st) evs0 s0" "sys_run P c s0 evs s"
    "\<not> buf_shuttingDown (sy_buf s)" "sy_ppc s \<noteq> PDone" "Sri \<notin> set evs"
    "streaming (sy_proc s0)" "\<not> proc_ended s0"
    "\<forall>pkt \<in> set (waiting s0 @ arrived evs). fits (sy_proc s0) pkt"
    "in_sequence (m_expected_seq_number (sy_proc s0)) (waiting s0 @ arrived evs)"
  shows "waiting s0 @ arrived evs = handled evs @ waiting s
    \<and> (\<exists>Ts. list_all2 stamped (handled evs) Ts \<and> m_calls (sy_proc s) = m_calls (sy_proc s0)
          @ spec_writes (m_endianness (sy_proc s0)) (m_bps (sy_proc s0)) (handled evs) Ts)
    \<and> m_pkts_dropped (sy_proc s) = m_pkts_dropped (sy_proc s0) \<and> \<not> proc_ended s"
proof -
  have run: "running s" using assms(4) by (simp add: running_def)
  have before: "running s1" if "sys_run P c s1 evs1 s2" "running s2" for s1 evs1 s2
    using that by (induction rule: sys_run.induct) (auto dest: step_keeps_flag)
  have inv: "sys_inv base capacity n np s0"
    using run_keeps [OF assms(2) started_inv(1) [OF assms(1)] before [OF assms(3) run]] by blast
  have "stream_kept (sy_proc s0) (handled evs) (sy_proc s) \<and> \<not> (\<exists>e. sy_ppc s = PFault e)"
    using stream_run [OF assms(3) inv run assms(5,6,7) _ assms(9,10)] assms(8) by (simp add: proc_ended_def)
  then show ?thesis
    using run_keeps [OF assms(3) inv run] assms(5) by (auto simp: stream_kept_def same_stream_def proc_ended_def)
qed

text \<open>A packet arrives, is taken by the processor and written.\<close>

definition one_push :: "string processor" where
  "one_push = sample_streaming\<lparr>m_pkts_per_read := 1\<rparr>"

lemma one_push_ok:
  "streaming one_push" "fits one_push pkt" "m_expected_seq_number one_push = 0" "m_endianness one_push = BIG_ENDIAN_STR"
  "m_bps one_push = 16" "m_calls one_push = []" "m_pkts_per_read one_push = 1"
  by (simp_all add: one_push_def streaming_def fits_def sample_streaming_def proc_ok_def coherent_def bps_ok_iff
      sample_defs endian_defs)

lemma blank_packet_seq: "get_seq blank_packet = 0"
  by (simp add: blank_packet_def packet_of_bytes_def get_seq_def bytes_at_def drop_replicate take_replicate numeral_eq_Suc net16.swap_0)

lemma one_push_start: "start_ok 1 1 (\<lambda>_. blank_packet) new_reader one_push"
  using sample_start one_push_ok(1,7) by (simp add: start_ok_def streaming_def)

text \<open>From the start to a state in which the stream's next packet has arrived.\<close>

lemma one_waits:
  assumes ok: "start_ok n np mem r st" and n: "0 < n" "n \<le> capacity" and d: "length d = 1080"
    and str: "streaming st" "fits st (packet_of_bytes d)" "get_seq (packet_of_bytes d) = m_expected_seq_number st"
  obtains s where "sys_run P c (started base capacity mem r st) (replicate 5 Tau @ [Arrive [packet_of_bytes d]]) s"
    "sys_inv base capacity n np s" "running s" "sy_ppc s = PPop" "sy_work s = []" "\<not> m_shuttingDown (sy_proc s)"
    "waiting s = [packet_of_bytes d]" "same_stream st (sy_proc s)"
    "m_expected_seq_number (sy_proc s) = m_expected_seq_number st"
proof -
  let ?s0 = "started base capacity mem r st" and ?evs = "replicate 5 Tau @ [Arrive [packet_of_bytes d]]"
  obtain s where s: "sys_run P c ?s0 ?evs s" "sys_inv base capacity n np s" "running s" "sy_ppc s = PPop" "sy_work s = []"
    "\<not> m_shuttingDown (sy_proc s)" using one_arrives [OF ok n d, of P c base] by auto
  note start = started_inv [OF ok, where base = base and capacity = capacity]
  have "waiting s = [packet_of_bytes d]"
    using run_keeps [OF s(1) start(1) s(3)] s(4) start(2) by (simp add: numeral_eq_Suc)
  moreover have "stream_kept st [] (sy_proc s)"
    using stream_run [OF s(1) start(1) s(3)] s(4) str start(2) by (simp add: started_def numeral_eq_Suc)
  ultimately show thesis using that [OF s] by (simp add: stream_kept_def)
qed

lemma pipeline_stream_refines_witness:
  "\<exists>evs s T. sys_run sample_platform False (started 0 4 (\<lambda>_. blank_packet) new_reader one_push) evs s
      \<and> handled evs = [blank_packet] \<and> m_calls (sy_proc s) = [WriteShort (be_shorts (pkt_d blank_packet)) T]"
proof -
  let ?s0 = "started 0 4 (\<lambda>_. blank_packet) new_reader one_push"
  let ?evs = "replicate 5 Tau @ [Arrive [blank_packet]]"
  have head: "get_seq blank_packet = m_expected_seq_number one_push" by (simp add: blank_packet_seq one_push_ok(3))
  obtain s where s: "sys_run sample_platform False ?s0 ?evs s" "sys_inv 0 4 1 1 s" "running s" "sy_ppc s = PPop" "sy_work s = []"
    "\<not> m_shuttingDown (sy_proc s)" and wait: "waiting s = [blank_packet]" and same: "same_stream one_push (sy_proc s)"
    "m_expected_seq_number (sy_proc s) = m_expected_seq_number one_push"
    by (rule one_waits [OF one_push_start, of 4 "replicate 1080 0" sample_platform False 0])
      (use one_push_ok(1,2) head in \<open>simp_all flip: blank_packet_def\<close>)
  have run0: "\<not> buf_shuttingDown (sy_buf s)" using s(3) by (simp add: running_def)
  have w0: "waiting ?s0 = []" using started_inv [OF one_push_start] by blast
  obtain p where p: "buf_full (sy_buf s) = [p]" "sy_mem s p = blank_packet" using wait by (auto simp: waiting_def s(5))
  have np: "m_pkts_per_read (sy_proc s) = 1" using sys_invD(6) [OF s(2)] s(4) by simp
  have fit: "\<forall>pkt \<in> set (waiting ?s0 @ arrived evs). fits (sy_proc ?s0) pkt" for evs
    using one_push_ok(2) by (simp add: started_def)
  have str: "streaming (sy_proc ?s0)" "\<not> proc_ended ?s0"
    using one_push_ok(1) by (simp_all add: started_def proc_ended_def)
  have seq: "in_sequence (m_expected_seq_number (sy_proc ?s0)) (waiting ?s0 @ arrived evs)"
    if "arrived evs = [blank_packet]" for evs
    using that w0 one_push_ok(3) by (simp add: started_def blank_packet_seq)
  have kept: "streaming (sy_proc s)" "m_expected_seq_number (sy_proc s) = 0" "fits (sy_proc s) blank_packet"
    using same one_push_ok(2,3) by (simp_all add: same_stream_def)
  let ?b = "(sy_buf s)\<lparr>buf_full := []\<rparr>"
  let ?s1 = "s\<lparr>sy_work := [p], sy_buf := ?b, sy_ppc := PWork\<rparr>"
  have "sys_step sample_platform False s Tau ?s1"
    by (rule proc_pops [OF s(4)]) (use run0 p np in \<open>simp add: buffer_ops s(5)\<close>)
  note r1 = sys_run.run_step [OF s(1) this]
  have "sys_step sample_platform False ?s1 Tau (?s1\<lparr>sy_ppc := PPass\<rparr>)"
    by (rule proc_enters) (use s(6) in simp_all)
  note r2 = sys_run.run_step [OF r1 this]
  obtain st where handles: "process_packet sample_platform p (sy_mem s) (sy_proc s)
      = Inr (Recycle, swapped_store (sy_proc s) p (sy_mem s), st)"
    using process_packet_streaming [where st = "sy_proc s" and mem = "sy_mem s" and p = p and P = sample_platform]
      kept p(2) blank_packet_seq by metis
  let ?s3 = "?s1\<lparr>sy_ppc := PPass, sy_mem := swapped_store (sy_proc s) p (sy_mem s), sy_proc := st,
      sy_work := [], sy_rec := sy_rec s @ [p]\<rparr>"
  have "sys_step sample_platform False (?s1\<lparr>sy_ppc := PPass\<rparr>) (Handled [blank_packet]) ?s3"
    using proc_handles [of "?s1\<lparr>sy_ppc := PPass\<rparr>" p "[]" sample_platform _ st False] handles p(2) by simp
  note r3 = sys_run.run_step [OF r2 this]
  let ?e = "((?evs @ [Tau]) @ [Tau]) @ [Handled [blank_packet]]"
  have e: "handled ?e = [blank_packet]" "arrived ?e = [blank_packet]" "Sri \<notin> set ?e" by (simp_all add: numeral_eq_Suc)
  have end3: "\<not> buf_shuttingDown (sy_buf ?s3)" "sy_ppc ?s3 \<noteq> PDone" using run0 by simp_all
  obtain Ts where Ts: "list_all2 stamped [blank_packet] Ts" "m_calls (sy_proc ?s3)
      = m_calls (sy_proc ?s0) @ spec_writes (m_endianness (sy_proc ?s0)) (m_bps (sy_proc ?s0)) [blank_packet] Ts"
    using pipeline_stream_refines [OF one_push_start run_start r3 end3 e(3) str(1,2) fit seq [OF e(2)]] unfolding e(1) by blast
  then obtain T where "Ts = [T]" by (auto simp: list_all2_Cons1)
  then have "m_calls (sy_proc ?s3) = [WriteShort (be_shorts (pkt_d blank_packet)) T]"
    using Ts(2) one_push_ok by (simp add: started_def spec_writes_def spec_write_def)
  with r3 e(1) show ?thesis by blast
qed

end
