(* ===== verification/Packet_Spec.thy ===== *)
theory Packet_Spec
  imports Processor_Stream
begin

text \<open>
  What the processor makes of any packets, in any order and with any contents. The specification is a
  tracker of three numbers, which each packet moves on; the data a packet brings to BulkIO is a
  function of the packet and the tracker. \<open>process_packet\<close> implements it: one call does the
  specification's step, or it prepares for it and leaves the packet for the next call.
\<close>

section \<open>The specification\<close>

text \<open>
  \<open>tr_next\<close> is the sequence number that continues the stream, None when the next packet begins one;
  \<open>tr_bps\<close> the bits per sample of the stream's first packet; \<open>tr_dropped\<close> the packets found missing.
\<close>

record tracker =
  tr_next :: "u16 option"
  tr_bps :: u16
  tr_dropped :: u64

text \<open>With wait-on-ttv a packet without a valid time is thrown away and not even counted as seen.\<close>

definition taken :: "bool \<Rightarrow> SDDSpacket \<Rightarrow> bool" where
  "taken wait pkt \<longleftrightarrow> (wait \<longrightarrow> ttv_on pkt)"

definition missed :: "u16 option \<Rightarrow> SDDSpacket \<Rightarrow> u64" where
  "missed next pkt = (case next of None \<Rightarrow> 0 | Some n \<Rightarrow> ucast (get_seq pkt - n))"

definition track :: "bool \<Rightarrow> SDDSpacket \<Rightarrow> tracker \<Rightarrow> tracker" where
  "track wait pkt t = (if taken wait pkt then
     \<lparr>tr_next = Some (next_seq (get_seq pkt)),
      tr_bps = (if tr_next t = Some (get_seq pkt) then tr_bps t else getBps pkt),
      tr_dropped = tr_dropped t + missed (tr_next t) pkt\<rparr> else t)"

definition tracked :: "bool \<Rightarrow> SDDSpacket list \<Rightarrow> tracker \<Rightarrow> tracker" where
  "tracked wait ps t = fold (track wait) ps t"

text \<open>The packets that are written, each with the bits per sample its data is read with.\<close>

fun outputs :: "bool \<Rightarrow> tracker \<Rightarrow> SDDSpacket list \<Rightarrow> (u16 \<times> SDDSpacket) list" where
  "outputs wait t [] = []"
| "outputs wait t (pkt # ps) = (let t' = track wait pkt t in
     (if taken wait pkt then [(tr_bps t', pkt)] else []) @ outputs wait t' ps)"

text \<open>
  The calls for such packets: for each one, in order, the write of its data in a byte order that
  \<open>order\<close> allows and with the packet's own time stamp.
\<close>

definition carries :: "(string \<Rightarrow> bool) \<Rightarrow> (u16 \<times> SDDSpacket) list \<Rightarrow> 'a call list \<Rightarrow> bool" where
  "carries order outs cs \<longleftrightarrow> (\<exists>ds. cs = concat ds
     \<and> list_all2 (\<lambda>(bps, pkt) d. \<exists>e T. order e \<and> stamped pkt T \<and> d = spec_write e bps (pkt_d pkt) T) outs ds)"

lemma tracked_simps [simp]:
  "tracked w [] t = t" "tracked w (pkt # ps) t = tracked w ps (track w pkt t)"
  "tracked w (ps @ qs) t = tracked w qs (tracked w ps t)"
  by (simp_all add: tracked_def)

lemma outputs_append: "outputs w t (ps @ qs) = outputs w t ps @ outputs w (tracked w ps t) qs"
  by (induction w t ps rule: outputs.induct) (simp_all add: Let_def)

lemma carries_append: "carries order outs cs \<Longrightarrow> carries order outs' cs' \<Longrightarrow> carries order (outs @ outs') (cs @ cs')"
  unfolding carries_def by (elim exE conjE, rule_tac x = "ds @ dsa" in exI) (simp add: list_all2_appendI)

lemma carries_Nil [simp]: "carries order [] cs \<longleftrightarrow> cs = []"
  by (simp add: carries_def)

lemma carries_one: "order e \<Longrightarrow> stamped pkt T \<Longrightarrow> carries order [(bps, pkt)] (spec_write e bps (pkt_d pkt) T)"
  unfolding carries_def by (intro exI [of _ "[spec_write e bps (pkt_d pkt) T]"]) auto

lemma carries_mono: "carries order outs cs \<Longrightarrow> (\<And>e. order e \<Longrightarrow> order' e) \<Longrightarrow> carries order' outs cs"
  unfolding carries_def by (elim exE conjE, intro exI conjI, assumption, erule list_all2_mono) auto

text \<open>
  What the processor needs of the packets to get past them: a frequency that is not zero, and at the
  beginning of a stream a number of bits per sample that is zero or at least a byte. The second it
  needs to survive at all.
\<close>

definition can_pass :: "bool \<Rightarrow> tracker \<Rightarrow> SDDSpacket \<Rightarrow> bool" where
  "can_pass wait t pkt \<longleftrightarrow> (taken wait pkt \<longrightarrow> pkt_freq pkt \<noteq> 0
     \<and> (tr_next t = Some (get_seq pkt) \<or> bps_ok (getBps pkt)))"

definition faulty_first :: "bool \<Rightarrow> tracker \<Rightarrow> SDDSpacket \<Rightarrow> bool" where
  "faulty_first wait t pkt \<longleftrightarrow> taken wait pkt \<and> tr_next t \<noteq> Some (get_seq pkt) \<and> \<not> bps_ok (getBps pkt)"

fun usable :: "bool \<Rightarrow> tracker \<Rightarrow> SDDSpacket list \<Rightarrow> bool" where
  "usable wait t [] = True"
| "usable wait t (pkt # ps) \<longleftrightarrow> can_pass wait t pkt \<and> usable wait (track wait pkt t) ps"

lemma can_pass_begins: "can_pass w t pkt \<Longrightarrow> \<not> faulty_first w t pkt"
  by (auto simp: can_pass_def faulty_first_def)

lemma usable_append: "usable w t (ps @ qs) \<longleftrightarrow> usable w t ps \<and> usable w (tracked w ps t) qs"
  by (induction w t ps rule: usable.induct) auto

lemma usable_headers:
  "\<forall>pkt \<in> set ps. pkt_freq pkt \<noteq> 0 \<and> bps_ok (getBps pkt) \<Longrightarrow> usable w t ps"
  by (induction ps arbitrary: t) (auto simp: can_pass_def)

text \<open>Two facts about the specification: every packet that counts is written, in order, and on a
  sequence without gaps it is the stream of the packets with the bits per sample of the first.\<close>

lemma outputs_packets: "map snd (outputs w t ps) = filter (taken w) ps"
  by (induction w t ps rule: outputs.induct) (simp_all add: Let_def)

lemma outputs_in_sequence:
  assumes "in_sequence n ps" "\<forall>pkt \<in> set ps. taken w pkt" "tr_next t = Some n"
  shows "outputs w t ps = map (Pair (tr_bps t)) ps \<and> tr_dropped (tracked w ps t) = tr_dropped t"
  using assms by (induction ps arbitrary: n t) (auto simp: track_def missed_def Let_def)

lemma outputs_new_stream:
  assumes "in_sequence (get_seq (hd ps)) ps" "\<forall>pkt \<in> set ps. taken w pkt" "tr_next t = None"
  shows "outputs w t ps = map (Pair (getBps (hd ps))) ps \<and> tr_dropped (tracked w ps t) = tr_dropped t"
proof (cases ps)
  case (Cons pkt qs)
  have "in_sequence (next_seq (get_seq pkt)) qs" "\<forall>q \<in> set qs. taken w q" "tr_next (track w pkt t) = Some (next_seq (get_seq pkt))"
    using assms Cons by (simp_all add: track_def)
  from outputs_in_sequence [OF this] assms Cons show ?thesis by (simp add: track_def missed_def Let_def)
qed simp

text \<open>Packets that are thrown away before the first one that is taken are never counted as dropped.\<close>

lemma leading_not_counted:
  assumes "tr_next t = None" "\<forall>q \<in> set ps. \<not> taken w q"
  shows "tr_dropped (tracked w (ps @ [pkt]) t) = tr_dropped t"
proof -
  have "tracked w ps t = t" using assms(2) by (induction ps) (simp_all add: track_def)
  then show ?thesis using assms(1) by (simp add: track_def missed_def)
qed

section \<open>The processor's tracker\<close>

definition tracker_of :: "'a processor \<Rightarrow> tracker" where
  "tracker_of st = \<lparr>tr_next = (if m_first_packet st then None else Some (m_expected_seq_number st)),
     tr_bps = m_bps st, tr_dropped = m_pkts_dropped st\<rparr>"

text \<open>The calls that carry data.\<close>

definition data_writes :: "'a call list \<Rightarrow> 'a call list" where
  "data_writes cs = filter (\<lambda>c. written c \<noteq> None) cs"

lemma data_writes_append [simp]: "data_writes (cs @ ds) = data_writes cs @ data_writes ds"
  by (simp add: data_writes_def)

lemma quiet_calls_no_write: "quiet_calls cs \<Longrightarrow> list_all (\<lambda>c. written c = None) cs"
proof -
  assume "quiet_calls cs"
  then have "write_status TCS_VALID cs" "write_status TCS_INVALID cs" by (simp_all add: quiet_calls_def)
  then have "written c = None" if "c \<in> set cs" for c
    using that by (cases "written c") (auto simp: write_status_def, metis tcstatus.distinct(1))
  then show ?thesis by (simp add: list_all_iff)
qed

lemma data_writes_quiet: "quiet_calls cs \<Longrightarrow> data_writes cs = []"
  using quiet_calls_no_write [of cs] by (auto simp: data_writes_def filter_empty_conv list_all_iff)

lemma data_writes_spec [simp]: "data_writes (spec_write e bps d T) = spec_write e bps d T"
  by (simp add: data_writes_def spec_write_def)

text \<open>The byte order the data is read with: that of the settings, once a new upstream SRI is merged.\<close>

definition word_order :: "'a platform \<Rightarrow> 'a processor \<Rightarrow> string" where
  "word_order P st = (if m_upstream_sri_set st \<and> m_new_upstream_sri st
     then (case mergeUpstreamSRI (pf_corba P) (m_sri st) (m_upstream_sri st) (m_use_upstream_sri st) False False
             (m_endianness st) of (sri, use, changed, id_changed, e) \<Rightarrow> e)
     else m_endianness st)"

abbreviation valid_order :: "string \<Rightarrow> bool" where
  "valid_order e \<equiv> e = BIG_ENDIAN_STR \<or> e = LITTLE_ENDIAN_STR"

lemma word_order_valid: "proc_ok st \<Longrightarrow> valid_order (word_order P st)"
  using mergeUpstreamSRI_endianness [of "pf_corba P" "m_sri st" "m_upstream_sri st" "m_use_upstream_sri st" False False "m_endianness st"]
  by (auto simp: word_order_def proc_ok_def split: prod.splits)

lemma ready_word_order:
  assumes "ready_packet P pkt st = (ch, s)"
  shows "m_endianness s = word_order P st" "\<not> (m_upstream_sri_set s \<and> m_new_upstream_sri s)"
proof -
  obtain c1 s1 where u: "upstream_merged P st = (c1, s1)" by fastforce
  obtain c2 s2 where m: "merge_packet_sri pkt c1 s1 = (c2, s2)" by fastforce
  have s: "s = ensure_open s2" using assms by (simp add: ready_packet_def u m)
  have "m_endianness s1 = word_order P st"
    using u by (auto simp: upstream_merged_def word_order_def opened_def append_calls_def Let_def split: prod.splits if_splits)
  then show "m_endianness s = word_order P st"
    using merge_packet_sri_frame(5) [OF m] by (simp add: s ensure_open_def opened_def append_calls_def)
  show "\<not> (m_upstream_sri_set s \<and> m_new_upstream_sri s)"
    using upstream_merged_flags [OF u] merge_packet_sri_frame(1,6) [OF m]
    by (simp add: s ensure_open_def opened_def append_calls_def only_sri_def)
qed

lemma word_order_same:
  assumes "m_upstream_sri_set st' = m_upstream_sri_set st" "m_new_upstream_sri st' = m_new_upstream_sri st"
    "m_sri st' = m_sri st" "m_upstream_sri st' = m_upstream_sri st"
    "m_use_upstream_sri st' = m_use_upstream_sri st" "m_endianness st' = m_endianness st"
  shows "word_order P st' = word_order P st"
  by (simp add: word_order_def assms)

lemma word_order_settled: "\<not> (m_upstream_sri_set st \<and> m_new_upstream_sri st) \<Longrightarrow> word_order P st = m_endianness st"
  by (auto simp: word_order_def)

section \<open>One packet\<close>

text \<open>
  \<open>prepared\<close>: nothing was written, and the specification's step on the packet still leads to the same
  tracker; the packets missing before it are counted already. \<open>performed\<close>: the step itself.
\<close>

definition prepared :: "'a platform \<Rightarrow> SDDSpacket \<Rightarrow> 'a processor \<Rightarrow> 'a processor \<Rightarrow> bool" where
  "prepared P pkt st st' \<longleftrightarrow> taken (m_wait_for_ttv st) pkt
     \<and> track (m_wait_for_ttv st) pkt (tracker_of st') = track (m_wait_for_ttv st) pkt (tracker_of st)
     \<and> m_pkts_dropped st' = tr_dropped (track (m_wait_for_ttv st) pkt (tracker_of st))
     \<and> (tr_next (tracker_of st) = Some (get_seq pkt) \<longrightarrow> tr_next (tracker_of st') = Some (get_seq pkt))
     \<and> data_writes (m_calls st') = data_writes (m_calls st) \<and> word_order P st' = word_order P st"

definition performed :: "'a platform \<Rightarrow> SDDSpacket \<Rightarrow> 'a processor \<Rightarrow> 'a processor \<Rightarrow> bool" where
  "performed P pkt st st' \<longleftrightarrow> tracker_of st' = track (m_wait_for_ttv st) pkt (tracker_of st)
     \<and> (\<exists>cs. carries (\<lambda>e. e = word_order P st) (outputs (m_wait_for_ttv st) (tracker_of st) [pkt]) cs
         \<and> data_writes (m_calls st') = data_writes (m_calls st) @ cs)
     \<and> word_order P st' = word_order P st"

text \<open>The packet that is up: it continues the stream or has just become its first one.\<close>

lemma up_packet_tracks:
  assumes "\<not> m_first_packet st" "m_expected_seq_number st = get_seq pkt"
  shows "track w pkt (tracker_of st) = (if taken w pkt
     then (tracker_of st)\<lparr>tr_next := Some (next_seq (get_seq pkt))\<rparr> else tracker_of st)"
  using assms by (simp add: track_def tracker_of_def missed_def)

lemma push_packet_writes:
  assumes ok: "proc_ok st" "octetStream st" and res: "push_packet P p mem st = Inr (out, mem', st')"
  obtains T where "out = Recycle" "stamped (mem p) T" "m_first_packet st' = m_first_packet st" "m_bps st' = m_bps st"
    "m_expected_seq_number st' = next_seq (m_expected_seq_number st)" "m_pkts_dropped st' = m_pkts_dropped st"
    "m_calls st' = m_calls st @ spec_write (m_endianness st) (m_bps st) (pkt_d (mem p)) T"
    "m_endianness st' = m_endianness st" "m_upstream_sri_set st' = m_upstream_sri_set st"
    "m_new_upstream_sri st' = m_new_upstream_sri st"
proof -
  let ?s = "stamp_packet P (mem p) st" and ?mem = "swapped_store st p mem"
  have co: "coherent st" "bps_ok (m_bps st)" using ok(1) by (simp_all add: proc_ok_def)
  obtain s where s: "only_timing ?s s" "push_packet P p mem st = Inr (Recycle, ?mem,
       count_packet (append_calls (write_calls s (pkt_d (?mem p))) s))"
    using push_packet_eq [OF co(1) ok(2) co(2)] by blast
  let ?T = "m_bulkio_time_stamp ?s"
  note only = stamp_packet_only [where P = P and pkt = "mem p" and st = st]
  have sm: "m_calls s = m_calls st" "m_bulkio_time_stamp s = ?T" "m_endianness s = m_endianness st"
    "m_bps s = m_bps st" "m_expected_seq_number s = m_expected_seq_number st" "m_first_packet s = m_first_packet st"
    "m_pkts_dropped s = m_pkts_dropped st" "m_upstream_sri_set s = m_upstream_sri_set st"
    "m_new_upstream_sri s = m_new_upstream_sri st"
    using s(1) stamp_packet_frame [where P = P and pkt = "mem p" and st = st] only by (simp_all add: only_timing_def)
  have "swapped_store s p mem = ?mem" by (simp add: swapped_store_def swap_data_def sm)
  then have w: "write_calls s (pkt_d (?mem p)) = spec_write (m_endianness st) (m_bps st) (pkt_d (mem p)) ?T"
    using write_calls_spec [of s p mem] ok(1) by (simp add: sm proc_ok_def)
  have "out = Recycle" "st' = count_packet (append_calls (write_calls s (pkt_d (?mem p))) s)" using res s(2) by auto
  then show thesis
    using that [OF _ stamp_packet_stamped [where P = P and pkt = "mem p" and st = st]]
    by (simp add: count_packet_def append_calls_def sm w)
qed

lemma sri_and_push_spec:
  assumes ok: "proc_ok st" and up: "\<not> m_first_packet st" "m_expected_seq_number st = get_seq (mem p)"
    and taken: "taken (m_wait_for_ttv st) (mem p)" and res: "sri_and_push P p mem st = Inr (out, mem', st')"
  shows "if out = Refill then tracker_of st' = tracker_of st \<and> prepared P (mem p) st st' else performed P (mem p) st st'"
proof -
  have co: "coherent st" "bps_ok (m_bps st)" using ok by (simp_all add: proc_ok_def)
  obtain ch s where r: "ready_packet P (mem p) st = (ch, s)" by fastforce
  note q = ready_packet_quiet [OF r] and order = ready_word_order [OF r]
  have s: "proc_ok s" "octetStream s" using q ok ready_packet_frame(3) [OF r co(1)] by (simp_all add: quiet_def)
  have same: "m_first_packet s = m_first_packet st" "m_expected_seq_number s = m_expected_seq_number st"
    "m_bps s = m_bps st" "m_pkts_dropped s = m_pkts_dropped st"
    using q by (simp_all add: quiet_def only_sri_def)
  have calls: "data_writes (m_calls s) = data_writes (m_calls st)"
    using q by (auto simp: quiet_def data_writes_quiet)
  note eq = sri_and_push_eq [where mem = mem and p = p, OF co r]
  note tracks = up_packet_tracks [OF up, of "m_wait_for_ttv st"]
  show ?thesis
  proof (cases ch)
    case True
    let ?t = "(expect_steps (expected_rate s (mem p)) (pkt_cx (mem p)) (append_calls (sri_calls s) s))\<lparr>m_last_sdds_time := time_zero\<rparr>"
    have t: "out = Refill" "st' = ?t" using res True by (auto simp: eq)
    have "m_upstream_sri_set ?t = m_upstream_sri_set s" "m_new_upstream_sri ?t = m_new_upstream_sri s"
      "m_endianness ?t = m_endianness s" by (simp_all add: expect_steps_def append_calls_def Let_def)
    then have "word_order P ?t = word_order P st"
      using order word_order_settled [of ?t P] by (simp only: simp_thms)
    moreover have tr: "tracker_of ?t = tracker_of st"
      by (simp add: tracker_of_def expect_steps_def append_calls_def same Let_def)
    moreover have "data_writes (m_calls ?t) = data_writes (m_calls st)"
      by (simp add: expect_steps_def append_calls_def calls data_writes_quiet Let_def)
    moreover have "m_pkts_dropped ?t = m_pkts_dropped st"
      by (simp add: expect_steps_def append_calls_def same Let_def)
    ultimately show ?thesis using taken by (simp add: t prepared_def tracks) (simp add: tracker_of_def)
  next
    case False
    then have "push_packet P p mem s = Inr (out, mem', st')" using res by (simp add: eq)
    then obtain T where T: "out = Recycle" "stamped (mem p) T" "m_first_packet st' = m_first_packet s" "m_bps st' = m_bps s"
      "m_expected_seq_number st' = next_seq (m_expected_seq_number s)" "m_pkts_dropped st' = m_pkts_dropped s"
      "m_calls st' = m_calls s @ spec_write (m_endianness s) (m_bps s) (pkt_d (mem p)) T"
      "m_endianness st' = m_endianness s" "m_upstream_sri_set st' = m_upstream_sri_set s"
      "m_new_upstream_sri st' = m_new_upstream_sri s"
      by (rule push_packet_writes [OF s])
    have "tracker_of st' = track (m_wait_for_ttv st) (mem p) (tracker_of st)"
      using up taken by (simp add: tracks) (simp add: tracker_of_def T same)
    moreover have "outputs (m_wait_for_ttv st) (tracker_of st) [mem p] = [(m_bps st, mem p)]"
      using taken by (simp add: Let_def tracks) (simp add: tracker_of_def)
    moreover have "carries (\<lambda>e. e = word_order P st) [(m_bps st, mem p)] (spec_write (word_order P st) (m_bps st) (pkt_d (mem p)) T)"
      by (rule carries_one [OF refl T(2)])
    moreover have "data_writes (m_calls st') = data_writes (m_calls st) @ spec_write (word_order P st) (m_bps st) (pkt_d (mem p)) T"
      by (simp add: T(7) calls same order(1))
    moreover have "word_order P st' = word_order P st"
      using order word_order_settled [of st' P] by (simp only: T simp_thms)
    ultimately show ?thesis using T(1) unfolding performed_def by auto
  qed
qed

text \<open>The first packet of a stream.\<close>

lemma process_packet_first:
  assumes "m_first_packet st" "m_wait_for_ttv st \<longrightarrow> ttv_on (mem p)" "bps_ok (getBps (mem p))"
  shows "process_packet P p mem st = sri_and_push P p mem (first_state (mem p) st)"
proof -
  have ttv: "(get_ttv (mem p) \<noteq> 0) = ttv_on (mem p)" by (simp add: ttv_on_def)
  have "\<not> (m_wait_for_ttv st \<and> \<not> ttv_on (mem p))" using assms(2) by blast
  then show ?thesis
    unfolding process_packet_def ttv Let_def
    by (simp only: if_False orderIsValid_eq assms(1,3) if_True bind_result.simps prod.case
        first_state_frame not_True_eq_False) simp
qed

lemma first_state_tracks:
  assumes "m_first_packet st" "taken (m_wait_for_ttv st) pkt"
  shows "m_wait_for_ttv (first_state pkt st) = m_wait_for_ttv st"
    "track (m_wait_for_ttv st) pkt (tracker_of (first_state pkt st)) = track (m_wait_for_ttv st) pkt (tracker_of st)"
    "word_order P (first_state pkt st) = word_order P st"
proof -
  show "m_wait_for_ttv (first_state pkt st) = m_wait_for_ttv st"
    using first_state_frame(1) [where pkt = pkt and st = st] by (simp add: same_config_def)
  have "m_pkts_dropped (first_state pkt st) = m_pkts_dropped st"
    by (simp add: first_state_def expect_steps_def Let_def)
  then show "track (m_wait_for_ttv st) pkt (tracker_of (first_state pkt st)) = track (m_wait_for_ttv st) pkt (tracker_of st)"
    using assms by (simp add: track_def tracker_of_def missed_def first_state_frame)
  show "word_order P (first_state pkt st) = word_order P st"
    by (rule word_order_same) (simp_all add: first_state_def expect_steps_def Let_def)
qed

text \<open>The whole operation: a packet is left for the next pass, or the specification's step is done.\<close>

lemma process_packet_spec:
  assumes ok: "proc_ok st" and res: "process_packet P p mem st = Inr (out, mem', st')"
  shows "if out = Refill then prepared P (mem p) st st' else performed P (mem p) st st'"
proof -
  have co: "coherent st" "coherent (dropped_state (mem p) st)" "coherent (st\<lparr>m_current_ttv_flag := b\<rparr>)" for b
    using ok by (simp_all add: proc_ok_def coherent_def dropped_state_def)
  have ttv: "(get_ttv (mem p) \<noteq> 0) = ttv_on (mem p)" by (simp add: ttv_on_def)
  consider (wait) "m_wait_for_ttv st \<and> \<not> ttv_on (mem p)"
    | (first) "taken (m_wait_for_ttv st) (mem p)" "m_first_packet st"
    | (gap) "taken (m_wait_for_ttv st) (mem p)" "\<not> m_first_packet st" "m_expected_seq_number st \<noteq> get_seq (mem p)"
    | (flip) "taken (m_wait_for_ttv st) (mem p)" "\<not> m_first_packet st" "m_expected_seq_number st = get_seq (mem p)"
        "m_push_on_ttv st \<and> m_current_ttv_flag st \<noteq> ttv_on (mem p)"
    | (later) "taken (m_wait_for_ttv st) (mem p)" "\<not> m_first_packet st" "m_expected_seq_number st = get_seq (mem p)"
        "\<not> (m_push_on_ttv st \<and> m_current_ttv_flag st \<noteq> ttv_on (mem p))"
    by (auto simp: taken_def)
  then show ?thesis
  proof cases
    case wait
    let ?t = "append_calls (flush_calls st) st"
    have "out = Recycle" "st' = ?t" using res wait by (auto simp: process_packet_def ttv flush_streams_eq [OF co(1)])
    moreover have "word_order P ?t = word_order P st" by (rule word_order_same) (simp_all add: append_calls_def)
    moreover have "data_writes (m_calls ?t) = data_writes (m_calls st)" by (simp add: append_calls_def data_writes_quiet)
    moreover have "tracker_of ?t = tracker_of st" by (simp add: tracker_of_def append_calls_def)
    moreover have "outputs (m_wait_for_ttv st) (tracker_of st) [mem p] = []" "\<not> taken (m_wait_for_ttv st) (mem p)"
      using wait by (simp_all add: taken_def)
    ultimately show ?thesis by (simp add: performed_def track_def)
  next
    case first
    let ?f = "first_state (mem p) st"
    have bps: "bps_ok (getBps (mem p))"
      using res first by (auto simp: process_packet_def ttv orderIsValid_eq taken_def split: if_splits)
    note f = first_state_tracks [OF first(2,1)] first_state_frame [where st = st and pkt = "mem p"]
    have "proc_ok ?f" using first_state_turn [OF ok first(2) bps] by (simp add: turn_ok_def)
    moreover have "sri_and_push P p mem ?f = Inr (out, mem', st')"
      using process_packet_first [where mem = mem and p = p and P = P, OF first(2) _ bps] first(1) res by (simp add: taken_def)
    ultimately have "if out = Refill then tracker_of st' = tracker_of ?f \<and> prepared P (mem p) ?f st' else performed P (mem p) ?f st'"
      using first(1) f(5,12) by (intro sri_and_push_spec) (simp_all add: f(1))
    moreover have "tr_next (tracker_of st) = None" using first(2) by (simp add: tracker_of_def)
    ultimately show ?thesis by (simp add: prepared_def performed_def f Let_def split: if_splits)
  next
    case gap
    let ?d = "dropped_state (mem p) st"
    let ?t = "(append_calls (flush_calls ?d) ?d)\<lparr>m_first_packet := True\<rparr>"
    have t: "out = Refill" "st' = ?t"
      using res gap by (auto simp: process_packet_def ttv taken_def orderIsValid_eq flush_streams_eq [OF co(2)])
    have "word_order P ?t = word_order P st" by (rule word_order_same) (simp_all add: append_calls_def dropped_state_def)
    moreover have "data_writes (m_calls ?t) = data_writes (m_calls st)"
      by (simp add: append_calls_def dropped_state_def data_writes_quiet)
    ultimately show ?thesis
      using gap by (simp add: t prepared_def track_def)
        (simp add: tracker_of_def missed_def append_calls_def dropped_state_def)
  next
    case flip
    let ?c = "st\<lparr>m_current_ttv_flag := ttv_on (mem p)\<rparr>"
    let ?t = "append_calls (flush_calls ?c) ?c"
    have t: "out = Refill" "st' = ?t"
      using res flip by (auto simp: process_packet_def ttv taken_def orderIsValid_eq flush_streams_eq [OF co(3)])
    have "word_order P ?t = word_order P st" by (rule word_order_same) (simp_all add: append_calls_def)
    moreover have "data_writes (m_calls ?t) = data_writes (m_calls st)" by (simp add: append_calls_def data_writes_quiet)
    moreover have "tracker_of ?t = tracker_of st" "m_pkts_dropped ?t = m_pkts_dropped st"
      by (simp_all add: tracker_of_def append_calls_def)
    ultimately show ?thesis
      using flip(1) up_packet_tracks [OF flip(2,3)] by (simp add: t prepared_def) (simp add: tracker_of_def)
  next
    case later
    have "process_packet P p mem st = sri_and_push P p mem st"
      unfolding process_packet_def ttv Let_def using later by (auto simp: orderIsValid_eq taken_def)
    from sri_and_push_spec [OF ok later(2,3,1) res [unfolded this]] show ?thesis by (auto split: if_splits)
  qed
qed

text \<open>A fault is a packet that could not be the first one of a stream.\<close>

lemma process_packet_fault:
  assumes ok: "proc_ok st" and res: "process_packet P p mem st = Inl e"
  shows "faulty_first (m_wait_for_ttv st) (tracker_of st) (mem p)"
proof -
  have first: "m_first_packet st" "\<not> bps_ok (getBps (mem p))"
    using process_packet_turn [OF ok, of mem p P] by (simp_all add: res)
  moreover have "taken (m_wait_for_ttv st) (mem p)"
  proof (rule ccontr)
    have co: "coherent st" using ok by (simp add: proc_ok_def)
    assume "\<not> taken (m_wait_for_ttv st) (mem p)"
    then show False using res by (auto simp: process_packet_def taken_def ttv_on_def flush_streams_eq [OF co])
  qed
  ultimately show ?thesis by (simp add: faulty_first_def tracker_of_def)
qed

lemma prepared_can_pass:
  assumes "prepared P pkt st st'" "can_pass (m_wait_for_ttv st) (tracker_of st) pkt"
  shows "can_pass (m_wait_for_ttv st) (tracker_of st') pkt"
  using assms by (auto simp: prepared_def can_pass_def)

end
