(* ===== verification/Pipeline_Spec.thy ===== *)
theory Pipeline_Spec
  imports Pipeline_Stream Packet_Spec
begin

text \<open>
  The running pipeline implements the specification of \<open>Packet_Spec\<close>: over every interleaving of the
  threads, with any packets, new upstream SRIs and the beginning of a stop, the data handed to BulkIO
  is what the specification makes of the packets handled, in the order of their arrival.
\<close>

section \<open>The relation between the pipeline and the specification\<close>

text \<open>
  \<open>ps\<close> are the packets handled since the processor was in state \<open>st0\<close>, \<open>ws\<close> those that wait. The
  tracker is where the specification is after \<open>ps\<close>, or the processor is prepared for the first of \<open>ws\<close>.
\<close>

definition at_packet :: "bool \<Rightarrow> tracker \<Rightarrow> SDDSpacket list \<Rightarrow> 'a processor \<Rightarrow> bool" where
  "at_packet w t ws st \<longleftrightarrow> tracker_of st = t
     \<or> (ws \<noteq> [] \<and> track w (hd ws) (tracker_of st) = track w (hd ws) t
        \<and> m_pkts_dropped st = tr_dropped (track w (hd ws) t)
        \<and> (tr_next t = Some (get_seq (hd ws)) \<longrightarrow> tr_next (tracker_of st) = Some (get_seq (hd ws))))"

definition conforms ::
    "'a platform \<Rightarrow> (string \<Rightarrow> bool) \<Rightarrow> 'a processor \<Rightarrow> SDDSpacket list \<Rightarrow> SDDSpacket list \<Rightarrow> 'a processor \<Rightarrow> bool" where
  "conforms P order st0 ps ws st \<longleftrightarrow> (let w = m_wait_for_ttv st0; t = tracker_of st0 in
     proc_ok st \<and> m_wait_for_ttv st = w \<and> order (word_order P st) \<and> at_packet w (tracked w ps t) ws st
     \<and> (\<exists>cs. carries order (outputs w t ps) cs \<and> data_writes (m_calls st) = data_writes (m_calls st0) @ cs))"

lemma conforms_start: "proc_ok st \<Longrightarrow> order (word_order P st) \<Longrightarrow> conforms P order st [] ws st"
  by (simp add: conforms_def at_packet_def Let_def)

lemma conforms_more: "conforms P order st0 ps ws st \<Longrightarrow> conforms P order st0 ps (ws @ later) st"
  by (auto simp: conforms_def at_packet_def Let_def hd_append)

lemma conforms_same:
  assumes "conforms P order st0 ps ws st" "proc_ok st'" "m_wait_for_ttv st' = m_wait_for_ttv st"
    "order (word_order P st')" "tracker_of st' = tracker_of st" "m_calls st' = m_calls st"
  shows "conforms P order st0 ps ws st'"
proof -
  have "m_pkts_dropped st' = m_pkts_dropped st" using assms(5) by (simp add: tracker_of_def)
  then show ?thesis using assms by (simp add: conforms_def at_packet_def Let_def)
qed

text \<open>The packet at the head of the queue, by the lemma on one packet.\<close>

lemma conforms_packet:
  assumes conf: "conforms P order st0 ps (mem p # ws) st" and res: "process_packet P p mem st = Inr (out, mem', st')"
  shows "if out = Refill then conforms P order st0 ps (mem p # ws) st' else conforms P order st0 (ps @ [mem p]) ws st'"
proof -
  let ?w = "m_wait_for_ttv st0" and ?t = "tracked (m_wait_for_ttv st0) ps (tracker_of st0)"
  obtain cs where st: "proc_ok st" "m_wait_for_ttv st = ?w" "order (word_order P st)" "at_packet ?w ?t (mem p # ws) st"
      "carries order (outputs ?w (tracker_of st0) ps) cs" "data_writes (m_calls st) = data_writes (m_calls st0) @ cs"
    using conf by (auto simp: conforms_def Let_def)
  have turn: "proc_ok st'" "m_wait_for_ttv st' = ?w"
    using process_packet_turn [OF st(1), of mem p P] st(2) by (simp_all add: res turn_ok_def same_config_def)
  have track: "track ?w (mem p) (tracker_of st) = track ?w (mem p) ?t"
    "tr_next ?t = Some (get_seq (mem p)) \<Longrightarrow> tr_next (tracker_of st) = Some (get_seq (mem p))"
    using st(4) by (auto simp: at_packet_def)
  note spec = process_packet_spec [where mem = mem and p = p, OF st(1) res]
  show ?thesis
  proof (cases "out = Refill")
    case True
    then have prep: "prepared P (mem p) st st'" using spec by simp
    have "at_packet ?w ?t (mem p # ws) st'"
      using prep track st(2) by (simp add: at_packet_def prepared_def)
    then show ?thesis using True prep st turn by (auto simp: conforms_def Let_def prepared_def)
  next
    case False
    then obtain ds where perf: "tracker_of st' = track ?w (mem p) (tracker_of st)" "word_order P st' = word_order P st"
        "carries (\<lambda>e. e = word_order P st) (outputs ?w (tracker_of st) [mem p]) ds"
        "data_writes (m_calls st') = data_writes (m_calls st) @ ds"
      using spec st(2) by (auto simp: performed_def)
    have "outputs ?w (tracker_of st) [mem p] = outputs ?w ?t [mem p]" using track(1) by (simp add: Let_def)
    with perf(3) have "carries order (outputs ?w ?t [mem p]) ds"
      using st(3) by (auto elim: carries_mono)
    from carries_append [OF st(5) this] have "carries order (outputs ?w (tracker_of st0) (ps @ [mem p])) (cs @ ds)"
      by (simp only: outputs_append)
    moreover have "at_packet ?w (tracked ?w (ps @ [mem p]) (tracker_of st0)) ws st'"
      using perf(1) track(1) by (simp add: at_packet_def)
    ultimately show ?thesis using False turn perf(2,4) st(3,6) by (auto simp: conforms_def Let_def simp del: outputs.simps)
  qed
qed

section \<open>Packets in work are left alone\<close>

text \<open>
  The buffers the kernel may write next. \<open>apart\<close>: they and the other buffers of the reader are none of
  those the processor works on. While the buffer runs, this follows from the invariant of the pipeline;
  it stays when a stop has taken the buffer down.
\<close>

definition kernel_bufs :: "'a system \<Rightarrow> ptr list" where
  "kernel_bufs s = (case sy_rpc s of RTop \<Rightarrow> rl_iov (sy_loop s) | RRecv \<Rightarrow> rl_iov (sy_loop s)
     | RRefill k addrs \<Rightarrow> drop k (rl_iov (sy_loop s)) | _ \<Rightarrow> [])"

definition apart :: "'a system \<Rightarrow> bool" where
  "apart s \<longleftrightarrow> distinct (sy_work s) \<and> set (sy_work s) \<inter> (set (rl_bufQue (sy_loop s)) \<union> set (kernel_bufs s)) = {}"

lemma sys_inv_apart:
  assumes "sys_inv base capacity n np s"
  shows "apart s"
proof -
  note i = sys_invD [OF assms]
  have "set (kernel_bufs s) \<subseteq> set (rl_bufQue (sy_loop s))"
    using i(5) by (auto simp: kernel_bufs_def reader_ok_def reader_handed_def split: reader_pc.splits)
  then show ?thesis using i(2) by (auto simp: apart_def places_def)
qed

lemma apart_stopped:
  assumes step: "sys_step P c s ev s'" and apart: "apart s" and down: "\<not> running s'"
  shows "apart s'"
proof -
  have work: "apart s'" if "set (sy_work s') \<subseteq> set (sy_work s)" "distinct (sy_work s')"
    "set (rl_bufQue (sy_loop s')) \<union> set (kernel_bufs s') \<subseteq> set (rl_bufQue (sy_loop s)) \<union> set (kernel_bufs s)"
    using apart that unfolding apart_def by blast
  have dist: "distinct (sy_work s)" using apart by (simp add: apart_def)
  have proc: "apart s'" if "set (sy_work s') \<subseteq> set (sy_work s)" "distinct (sy_work s')" "sy_loop s' = sy_loop s" "sy_rpc s' = sy_rpc s"
    by (rule work) (use that in \<open>simp_all add: kernel_bufs_def cong: reader_pc.case_cong\<close>)
  note flag = ops_keep_flag
  show ?thesis
    using step
  proof (cases rule: sys_step.cases)
    case (reader_fills errno l b)
    have "buf_shuttingDown (sy_buf s)" using flag(1) [OF reader_fills(4)] down by (simp add: running_def reader_fills)
    then have "rl_bufQue l = []" "rl_iov l = []" using reader_fills(4) by (auto simp: reader_fill_def buffer_ops split: if_splits)
    then show ?thesis using reader_fills dist by (intro work) (simp_all add: kernel_bufs_def)
  next
    case (reader_gets rcv k r l mem b)
    have "rl_iov l = rl_iov (sy_loop s)" "set (rl_bufQue l) \<subseteq> set (rl_bufQue (sy_loop s))"
      using reader_gets(5) by (auto simp: reader_receive_def buffer_ops split: if_splits received.splits dest: in_set_dropD)
    then show ?thesis using reader_gets dist by (intro work) (auto simp: kernel_bufs_def dest: in_set_dropD)
  next
    case (reader_idles rcv r l mem b)
    have "rl_iov l = rl_iov (sy_loop s)" "rl_bufQue l = rl_bufQue (sy_loop s)"
      using reader_idles(5) by (auto simp: reader_receive_def buffer_ops split: if_splits received.splits)
    then show ?thesis using reader_idles dist by (intro work) (auto simp: kernel_bufs_def)
  next
    case (reader_refills k addrs r l b)
    have "buf_shuttingDown (sy_buf s)" using flag(3) [OF reader_refills(4)] down by (simp add: running_def reader_refills)
    then have "rl_bufQue l = rl_bufQue (sy_loop s)" "rl_iov l = take k (rl_bufQue (sy_loop s)) @ drop k (rl_iov (sy_loop s))"
      using reader_refills(4) by (auto simp: reader_refill_def buffer_ops Let_def split: if_splits)
    then show ?thesis using reader_refills dist by (intro work) (auto simp: kernel_bufs_def dest: in_set_takeD)
  next
    case (reader_ends r l b)
    have "set (rl_bufQue l) \<subseteq> set (rl_bufQue (sy_loop s))"
      using reader_ends(5) by (auto simp: reader_end_def buffer_ops Let_def split: if_splits)
    then show ?thesis using reader_ends dist by (intro work) (auto simp: kernel_bufs_def)
  next
    case (proc_pops work b)
    have "buf_shuttingDown (sy_buf s)" using flag(5) [OF proc_pops(4)] down by (simp add: running_def proc_pops)
    then have "work = sy_work s" using proc_pops(4) by (auto simp: buffer_ops)
    then show ?thesis using proc_pops dist by (intro proc) simp_all
  next
    case (proc_handles p work mem st)
    then show ?thesis using dist by (intro proc) auto
  next
    case (proc_ends st b work rec)
    have "sy_work s' = []" using proc_ends by (auto simp: run_end_def buffer_ops Let_def split: if_splits prod.splits)
    then show ?thesis using proc_ends by (intro proc) simp_all
  next
    case stops
    then show ?thesis using dist by (intro proc) (simp_all add: stop_step_def split: stop_pc.splits)
  next
    case reader_starts
    then show ?thesis using dist by (intro work) (simp_all add: kernel_bufs_def)
  next
    case reader_fill_fails
    then show ?thesis using dist by (intro work) (simp_all add: kernel_bufs_def)
  next
    case reader_gets_fails
    then show ?thesis using dist by (intro work) (simp_all add: kernel_bufs_def)
  next
    case reader_refill_fails
    then show ?thesis using dist by (intro work) (simp_all add: kernel_bufs_def)
  next
    case reader_tests
    then show ?thesis using dist by (intro work) (simp_all add: kernel_bufs_def)
  qed (rule proc; use dist in simp)+
qed

text \<open>The packets in work, as they are: a step takes the first away, or it adds to their end.\<close>

definition in_work :: "'a system \<Rightarrow> SDDSpacket list" where
  "in_work s = map (sy_mem s) (sy_work s)"

lemma step_work:
  assumes step: "sys_step P c s ev s'" and apart: "apart s" and ok: "proc_ok (sy_proc s)" and "end": "sy_ppc s' \<noteq> PDone"
  shows "\<exists>new. handled [ev] @ in_work s' = in_work s @ new \<and> (\<not> running s' \<longrightarrow> new = [])"
proof -
  have same: ?thesis if "handled [ev] = []" "sy_work s' = sy_work s" "\<forall>p \<in> set (sy_work s). sy_mem s' p = sy_mem s p"
    using that by (intro exI [of _ "[]"]) (simp add: in_work_def)
  have received: "mem p = sy_mem s p"
    if "reader_receive c rcv (sy_reader s) (sy_loop s) (sy_mem s) (sy_buf s) = Inr (k, r, l, mem, b)" "sy_rpc s = RRecv"
      "p \<in> set (sy_work s)" for rcv k r l mem b p
  proof -
    have "p \<notin> set (rl_iov (sy_loop s))" using apart that(2,3) by (auto simp: apart_def kernel_bufs_def)
    then have "store_datagrams (rl_iov (sy_loop s)) ds (sy_mem s) p = sy_mem s p" for ds
      by (auto intro: store_datagrams_other dest: in_set_takeD)
    then show ?thesis using that(1) by (auto simp: reader_receive_def bind_result_Inr Let_def split: received.splits if_splits)
  qed
  show ?thesis
    using step
  proof (cases rule: sys_step.cases)
    case (reader_gets rcv k r l mem b)
    from received [OF reader_gets(5)] have "\<forall>p \<in> set (sy_work s). mem p = sy_mem s p" using reader_gets(3) by blast
    then show ?thesis using reader_gets by (intro same) simp_all
  next
    case (reader_idles rcv r l mem b)
    from received [OF reader_idles(5)] have "\<forall>p \<in> set (sy_work s). mem p = sy_mem s p" using reader_idles(3) by blast
    then show ?thesis using reader_idles by (intro same) simp_all
  next
    case (proc_pops work b)
    have "\<exists>new. work = sy_work s @ new \<and> (\<not> running s' \<longrightarrow> new = [])"
      using proc_pops(4) by (auto simp: buffer_ops running_def proc_pops(2) split: if_splits)
    then show ?thesis using proc_pops(1,2) by (auto simp: in_work_def)
  next
    case (proc_handles p work mem st)
    have "touches p (sy_mem s) mem" using process_packet_turn [OF ok, of "sy_mem s" p P] by (simp add: proc_handles(5))
    moreover have "p \<notin> set work" using apart by (simp add: apart_def proc_handles(4))
    ultimately have "map mem work = map (sy_mem s) work" by (auto intro: touches_other)
    then show ?thesis using proc_handles(1,2,4) by (intro exI [of _ "[]"]) (simp add: in_work_def)
  next
    case (proc_returns p work mem st)
    have "mem = sy_mem s" using process_packet_turn [OF ok, of "sy_mem s" p P] by (simp add: proc_returns(5))
    then show ?thesis using proc_returns by (intro same) simp_all
  next
    case stops
    then show ?thesis by (intro same) (simp_all add: stop_step_def split: stop_pc.splits)
  qed (use same "end" in simp_all)
qed

section \<open>Every step and every run\<close>

lemma conforms_step:
  assumes step: "sys_step P c s ev s'" and apart: "apart s"
    and conf: "conforms P order st0 ps (in_work s) (sy_proc s)" and "end": "sy_ppc s' \<noteq> PDone"
    and sri: "\<And>e. ev = Sri \<Longrightarrow> valid_order e \<Longrightarrow> order e"
  shows "conforms P order st0 (ps @ handled [ev]) (in_work s') (sy_proc s')"
proof -
  have ok: "proc_ok (sy_proc s)" "order (word_order P (sy_proc s))" using conf by (simp_all add: conforms_def Let_def)
  obtain new where keep: "handled [ev] @ in_work s' = in_work s @ new" using step_work [OF step apart ok(1) "end"] by blast
  have quiet: ?thesis if "handled [ev] = []" "sy_proc s' = sy_proc s"
    using keep conforms_more [OF conf] that by simp
  have control: ?thesis if "handled [ev] = []" "conforms P order st0 ps (in_work s) (sy_proc s')"
    using keep conforms_more [OF that(2)] that by simp
  note same = conforms_same [OF conf]
  have order: "order (word_order P st)" if "ev = Sri" "proc_ok st" for st
    using sri that word_order_valid by blast
  note kept = step_proc_ok [OF step ok(1)]
  show ?thesis
    using step
  proof (cases rule: sys_step.cases)
    case (proc_handles p work mem st)
    have "in_work s @ new = sy_mem s p # in_work s'" using keep proc_handles(1) by simp
    with conforms_more [OF conf, of new] have "conforms P order st0 ps (sy_mem s p # in_work s') (sy_proc s)" by simp
    from conforms_packet [OF this proc_handles(5)] show ?thesis using proc_handles(1,2) by simp
  next
    case (proc_returns p work mem st)
    have w: "in_work s = sy_mem s p # map (sy_mem s) work" by (simp add: in_work_def proc_returns)
    from conforms_packet [OF conf [unfolded w] proc_returns(5)] have "conforms P order st0 ps (in_work s) (sy_proc s')"
      unfolding w using proc_returns(2) by simp
    then show ?thesis using control proc_returns(1) by simp
  next
    case proc_starts
    have "word_order P (run_begin (sy_proc s)) = word_order P (sy_proc s)" by (rule word_order_same) (simp_all add: run_begin_def)
    then show ?thesis
      using kept ok by (intro control same) (simp_all add: proc_starts, simp_all add: run_begin_def tracker_of_def)
  next
    case stops
    have "word_order P (shutDown (sy_proc s)) = word_order P (sy_proc s)" by (rule word_order_same) (simp_all add: shutDown_def)
    then have "conforms P order st0 ps (in_work s) (shutDown (sy_proc s))"
      using ok by (intro same) (simp_all, simp_all add: shutDown_def tracker_of_def)
    then show ?thesis using conf by (intro control) (auto simp: stops stop_step_def split: stop_pc.splits)
  next
    case (sri_attached up)
    then show ?thesis
      using kept order by (intro control same) (simp_all add: setUpstreamSri_def tracker_of_def)
  next
    case sri_detached
    then show ?thesis
      using kept order by (intro control same) (simp_all add: unsetUpstreamSri_def tracker_of_def)
  qed (use quiet "end" in simp_all)
qed

text \<open>The processor faults only on a packet that cannot begin a stream, and stays there.\<close>

definition fault_ok :: "bool \<Rightarrow> tracker \<Rightarrow> 'a system \<Rightarrow> bool" where
  "fault_ok w t s \<longleftrightarrow> (\<forall>e. sy_ppc s = PFault e \<longrightarrow> in_work s \<noteq> [] \<and> faulty_first w t (hd (in_work s)))"

lemma fault_ok_step:
  assumes step: "sys_step P c s ev s'" and apart: "apart s" and conf: "conforms P order st0 ps (in_work s) (sy_proc s)"
    and ok: "fault_ok (m_wait_for_ttv st0) (tracked (m_wait_for_ttv st0) ps (tracker_of st0)) s"
  shows "fault_ok (m_wait_for_ttv st0) (tracked (m_wait_for_ttv st0) (ps @ handled [ev]) (tracker_of st0)) s'"
  unfolding fault_ok_def
proof (intro allI impI)
  let ?w = "m_wait_for_ttv st0" and ?t = "\<lambda>ps. tracked (m_wait_for_ttv st0) ps (tracker_of st0)"
  fix e assume fault: "sy_ppc s' = PFault e"
  have p: "proc_ok (sy_proc s)" using conf by (simp add: conforms_def Let_def)
  obtain new where keep: "handled [ev] @ in_work s' = in_work s @ new"
    using step_work [OF step apart p] fault by auto
  have old: "in_work s' \<noteq> [] \<and> faulty_first ?w (?t (ps @ handled [ev])) (hd (in_work s'))"
    if "sy_ppc s = sy_ppc s'" "handled [ev] = []"
    using ok that keep fault by (auto simp: fault_ok_def hd_append)
  show "in_work s' \<noteq> [] \<and> faulty_first ?w (?t (ps @ handled [ev])) (hd (in_work s'))"
    using step
  proof (cases rule: sys_step.cases)
    case (proc_fails p work e)
    have w: "in_work s = sy_mem s p # map (sy_mem s) work" "in_work s' = in_work s" by (simp_all add: in_work_def proc_fails)
    have "proc_ok (sy_proc s)" "m_wait_for_ttv (sy_proc s) = ?w" "at_packet ?w (?t ps) (in_work s) (sy_proc s)"
      using conf by (simp_all add: conforms_def Let_def)
    with process_packet_fault [where mem = "sy_mem s" and p = p, OF _ proc_fails(5)]
    have "faulty_first ?w (?t ps) (sy_mem s p)" by (auto simp: at_packet_def faulty_first_def w)
    then show ?thesis using proc_fails(1) by (simp add: w)
  next
    case stops
    then show ?thesis using old fault by (simp add: stop_step_def split: stop_pc.splits)
  qed (use old fault in simp_all)
qed

section \<open>From the start of the threads\<close>

text \<open>
  \<open>implements P order st ps ws st'\<close>: a processor that was started as \<open>st\<close> and has handled \<open>ps\<close> while \<open>ws\<close>
  wait has sent the data the specification demands, and has counted what is missing before the last
  of \<open>ps\<close>, or before the first of \<open>ws\<close> already.
\<close>

definition implements ::
    "(string \<Rightarrow> bool) \<Rightarrow> 'a processor \<Rightarrow> SDDSpacket list \<Rightarrow> SDDSpacket list \<Rightarrow> 'a processor \<Rightarrow> bool" where
  "implements order st ps ws st' \<longleftrightarrow> (let w = m_wait_for_ttv st; t = tracker_of st in
     (\<exists>cs. carries order (outputs w t ps) cs \<and> data_writes (m_calls st') = data_writes (m_calls st) @ cs)
     \<and> (m_pkts_dropped st' = tr_dropped (tracked w ps t)
        \<or> ws \<noteq> [] \<and> m_pkts_dropped st' = tr_dropped (tracked w (ps @ [hd ws]) t)))"

text \<open>The byte orders that occur: one, unless an upstream SRI is attached or detached on the way.\<close>

definition orders :: "'a platform \<Rightarrow> 'a processor \<Rightarrow> event list \<Rightarrow> string \<Rightarrow> bool" where
  "orders P st evs e \<longleftrightarrow> (if Sri \<in> set evs then valid_order e else e = word_order P st)"

lemma conforms_implements: "conforms P order st ps ws st' \<Longrightarrow> implements order st ps ws st'"
proof -
  assume conf: "conforms P order st ps ws st'"
  have "m_pkts_dropped st' = tr_dropped (tracker_of st')" by (simp add: tracker_of_def)
  then show ?thesis using conf by (auto simp: conforms_def implements_def at_packet_def Let_def)
qed

lemma implements_more:
  assumes "implements order st ps ws a" "data_writes (m_calls b) = data_writes (m_calls a)" "m_pkts_dropped b = m_pkts_dropped a"
  shows "implements order st ps (ws @ later) b"
  using assms by (auto simp: implements_def Let_def hd_append)

text \<open>The end of the processing thread sends no data, and nothing is sent after it.\<close>

lemma run_end_sends_nothing:
  assumes "run_end P st b work rec = (st', b', work', rec')" "proc_ok st"
  shows "data_writes (m_calls st') = data_writes (m_calls st)" "m_pkts_dropped st' = m_pkts_dropped st"
proof -
  have co: "coherent st" using assms(2) by (simp add: proc_ok_def)
  have "data_writes (close_calls st) = []" by (simp add: close_calls_def data_writes_def)
  then show "data_writes (m_calls st') = data_writes (m_calls st)" "m_pkts_dropped st' = m_pkts_dropped st"
    using assms(1) by (auto simp: run_end_def close_streams_eq [OF co] append_calls_def Let_def split: prod.splits)
qed

lemma done_sends_nothing:
  assumes "sys_step P c s ev s'" "sy_ppc s = PDone"
  shows "handled [ev] = []" "m_calls (sy_proc s') = m_calls (sy_proc s)" "m_pkts_dropped (sy_proc s') = m_pkts_dropped (sy_proc s)"
    "sy_ppc s' = PDone"
  using assms by (cases rule: sys_step.cases; auto simp: stop_step_def setUpstreamSri_def unsetUpstreamSri_def shutDown_def
      split: stop_pc.splits)+

lemma step_to_done:
  assumes "sys_step P c s ev s'" "sy_ppc s \<noteq> PDone" "sy_ppc s' = PDone" "proc_ok (sy_proc s)"
  shows "handled [ev] = []" "arrived [ev] = []" "data_writes (m_calls (sy_proc s')) = data_writes (m_calls (sy_proc s))"
    "m_pkts_dropped (sy_proc s') = m_pkts_dropped (sy_proc s)"
  using assms by (cases rule: sys_step.cases; auto simp: stop_step_def run_end_sends_nothing split: stop_pc.splits)+

text \<open>
  What holds in every state of every run, also when it is being stopped: what arrived is what was
  handled and a rest, which begins with the packets in work. While both the buffer and the thread run,
  the rest is what waits; a stop throws away its end.
\<close>

definition sound :: "'a platform \<Rightarrow> (string \<Rightarrow> bool) \<Rightarrow> 'a processor \<Rightarrow> event list \<Rightarrow> SDDSpacket list \<Rightarrow> 'a system \<Rightarrow> bool" where
  "sound P order st evs rest s \<longleftrightarrow> arrived evs = handled evs @ rest \<and> implements order st (handled evs) rest (sy_proc s)
     \<and> (running s \<and> sy_ppc s \<noteq> PDone \<longrightarrow> rest = waiting s)
     \<and> (sy_ppc s \<noteq> PDone \<longrightarrow> (\<exists>later. rest = in_work s @ later)
          \<and> conforms P order st (handled evs) (in_work s) (sy_proc s)
          \<and> fault_ok (m_wait_for_ttv st) (tracked (m_wait_for_ttv st) (handled evs) (tracker_of st)) s)"

lemma sound_step:
  assumes step: "sys_step P c s ev s'" and apart: "apart s" and sound: "sound P order st evs rest s"
    and sri: "\<And>e. ev = Sri \<Longrightarrow> valid_order e \<Longrightarrow> order e"
    and keep: "running s' \<Longrightarrow> sy_ppc s' \<noteq> PDone \<Longrightarrow> arrived (evs @ [ev]) = handled (evs @ [ev]) @ waiting s'"
  shows "\<exists>rest. sound P order st (evs @ [ev]) rest s'"
proof -
  have old: "arrived evs = handled evs @ rest" "implements order st (handled evs) rest (sy_proc s)"
    using sound by (simp_all add: sound_def)
  show ?thesis
  proof (cases "sy_ppc s' = PDone")
    case True
    show ?thesis
    proof (cases "sy_ppc s = PDone")
      case ended: True
      note same = done_sends_nothing [OF step ended]
      from implements_more [OF old(2), of "sy_proc s'"] same(2,3)
      have "implements order st (handled evs) (rest @ arrived [ev]) (sy_proc s')" by simp
      then show ?thesis using True same(1) old(1) by (intro exI [of _ "rest @ arrived [ev]"]) (simp add: sound_def)
    next
      case False
      then have "proc_ok (sy_proc s)" using sound by (simp add: sound_def conforms_def Let_def)
      note same = step_to_done [OF step False True this]
      from implements_more [OF old(2), of "sy_proc s'" "[]"] same(3,4)
      have "implements order st (handled evs) rest (sy_proc s')" by simp
      then show ?thesis using True same(1,2) old(1) by (intro exI [of _ rest]) (simp add: sound_def)
    qed
  next
    case False
    then have "sy_ppc s \<noteq> PDone" using step_not_done [OF step] by blast
    then obtain later where rest: "rest = in_work s @ later" and conf: "conforms P order st (handled evs) (in_work s) (sy_proc s)"
      and fault: "fault_ok (m_wait_for_ttv st) (tracked (m_wait_for_ttv st) (handled evs) (tracker_of st)) s"
      using sound by (auto simp: sound_def)
    have ok: "proc_ok (sy_proc s)" using conf by (simp add: conforms_def Let_def)
    note conf' = conforms_step [OF step apart conf False sri]
    note fault' = fault_ok_step [OF step apart conf fault]
    have "\<exists>later. arrived (evs @ [ev]) = handled (evs @ [ev]) @ in_work s' @ later \<and> (running s' \<longrightarrow> in_work s' @ later = waiting s')"
    proof (cases "running s'")
      case True
      then show ?thesis using keep False by (intro exI [of _ "map (sy_mem s') (buf_full (sy_buf s'))"]) (simp add: in_work_def waiting_def)
    next
      case False
      then have "handled [ev] @ in_work s' = in_work s" using step_work [OF step apart ok \<open>sy_ppc s' \<noteq> PDone\<close>] by auto
      then show ?thesis using False old(1) rest by (intro exI [of _ "later @ arrived [ev]"]) (metis append.assoc arrived_append handled_append)
    qed
    then obtain later' where new: "arrived (evs @ [ev]) = handled (evs @ [ev]) @ in_work s' @ later'"
      "running s' \<longrightarrow> in_work s' @ later' = waiting s'" by blast
    have "implements order st (handled (evs @ [ev])) (in_work s' @ later') (sy_proc s')"
      using conforms_implements [OF conforms_more [OF conf']] by simp
    then show ?thesis using new conf' fault' by (intro exI [of _ "in_work s' @ later'"]) (simp add: sound_def)
  qed
qed

lemma sound_run:
  assumes "sys_run P c s0 evs s" "sys_inv base capacity n np s0" "waiting s0 = []" "sound P order st [] [] s0"
    "\<And>e. Sri \<in> set evs \<Longrightarrow> valid_order e \<Longrightarrow> order e"
  shows "apart s \<and> (\<exists>rest. sound P order st evs rest s)"
  using assms
proof (induction rule: sys_run.induct)
  case run_start
  then show ?case using sys_inv_apart by blast
next
  case (run_step evs s ev s')
  obtain rest where ih: "apart s" "sound P order st evs rest s" using run_step.IH run_step.prems by auto
  note all = sys_run.run_step [OF run_step.hyps]
  have "apart s'"
    using sys_inv_apart run_keeps [OF all run_step.prems(1)] apart_stopped [OF run_step.hyps(2) ih(1)] by blast
  moreover have "\<exists>rest. sound P order st (evs @ [ev]) rest s'"
  proof (rule sound_step [OF run_step.hyps(2) ih])
    show "arrived (evs @ [ev]) = handled (evs @ [ev]) @ waiting s'" if "running s'" "sy_ppc s' \<noteq> PDone"
      using run_keeps [OF all run_step.prems(1) that(1)] that(2) run_step.prems(2) by simp
  qed (use run_step.prems(4) in simp)
  ultimately show ?case ..
qed

lemma started_sound:
  assumes "start_ok n np mem r st" "sys_run P c (started base capacity mem r st) evs s"
  obtains rest where "sound P (orders P st evs) st evs rest s"
proof -
  let ?s0 = "started base capacity mem r st"
  note start = started_inv [OF assms(1), where base = base and capacity = capacity]
  have proc: "sy_proc ?s0 = st" "sy_ppc ?s0 = PStart" "in_work ?s0 = []" by (simp_all add: started_def in_work_def)
  have ok: "proc_ok st" using assms(1) by (simp add: start_ok_def)
  have "orders P st evs (word_order P st)" using word_order_valid [OF ok] by (simp add: orders_def)
  note conf = conforms_start [where order = "orders P st evs" and ws = "[]", OF ok this]
  have "sound P (orders P st evs) st [] [] ?s0"
    using conf conforms_implements [OF conf] by (simp add: sound_def proc start(2) fault_ok_def)
  from sound_run [OF assms(2) start this] show thesis using that by (auto simp: orders_def)
qed

lemma started_conforms:
  assumes "start_ok n np mem r st" "sys_run P c (started base capacity mem r st) evs s"
    "running s" "sy_ppc s \<noteq> PDone"
  shows "conforms P (orders P st evs) st (handled evs) (waiting s) (sy_proc s)"
    "sy_ppc s = PFault e \<Longrightarrow> waiting s \<noteq> []
       \<and> faulty_first (m_wait_for_ttv st) (tracked (m_wait_for_ttv st) (handled evs) (tracker_of st)) (hd (waiting s))"
    "arrived evs = handled evs @ waiting s" "sys_inv base capacity n np s"
proof -
  obtain rest where "sound P (orders P st evs) st evs rest s" using started_sound [OF assms(1,2)] .
  then obtain later where s: "arrived evs = handled evs @ waiting s" "waiting s = in_work s @ later"
    "conforms P (orders P st evs) st (handled evs) (in_work s) (sy_proc s)"
    "fault_ok (m_wait_for_ttv st) (tracked (m_wait_for_ttv st) (handled evs) (tracker_of st)) s"
    using assms(3,4) by (auto simp: sound_def)
  show "conforms P (orders P st evs) st (handled evs) (waiting s) (sy_proc s)"
    using conforms_more [OF s(3)] by (simp add: s(2))
  show "waiting s \<noteq> [] \<and> faulty_first (m_wait_for_ttv st) (tracked (m_wait_for_ttv st) (handled evs) (tracker_of st)) (hd (waiting s))"
    if "sy_ppc s = PFault e" using s(4) that by (auto simp: fault_ok_def s(2) hd_append)
  show "arrived evs = handled evs @ waiting s" "sys_inv base capacity n np s"
    using s(1) run_keeps [OF assms(2) started_inv(1) [OF assms(1)] assms(3)] by simp_all
qed

end
