(* ===== verification/Pipeline_Progress.thy ===== *)
theory Pipeline_Progress
  imports Pipeline_Spec
begin

text \<open>
  How far the processor gets. While packets that can pass are waiting, the processing thread can only
  wait when they are fewer than it takes in one go, and until then each of its steps brings it closer:
  \<open>behind\<close> counts the steps it has before it.
\<close>

section \<open>Catching up\<close>

text \<open>
  \<open>returns\<close> bounds how often the packet at the head is still given back before it is processed: for a
  gap or a change of its flag, and for a new SRI. \<open>to_do\<close> bounds the steps its passes and those of the
  packets behind it take, six for each pass.
\<close>

definition returns :: "SDDSpacket \<Rightarrow> 'a processor \<Rightarrow> nat" where
  "returns pkt st = (if \<not> accepts pkt st then 2 else if m_first_packet st \<or> \<not> sri_quiet pkt st then 1 else 0)"

definition to_do :: "'a system \<Rightarrow> nat" where
  "to_do s = (case waiting s of [] \<Rightarrow> 0 | pkt # ps \<Rightarrow> 6 * returns pkt (sy_proc s) + 6 + 18 * length ps)"

definition behind :: "'a system \<Rightarrow> nat" where
  "behind s = (case sy_ppc s of PStart \<Rightarrow> to_do s + 2 | PTop \<Rightarrow> to_do s + 1 | PPop \<Rightarrow> to_do s | PRecycle \<Rightarrow> to_do s + 2
     | PWork \<Rightarrow> if sy_work s = [] then to_do s + 4 else to_do s - 1
     | PPass \<Rightarrow> if sy_work s = [] then to_do s + 3 else to_do s - 2
     | _ \<Rightarrow> 0)"

definition busy :: "nat \<Rightarrow> nat \<Rightarrow> nat \<Rightarrow> u64 \<Rightarrow> 'a system \<Rightarrow> bool" where
  "busy base capacity n np s \<longleftrightarrow> sys_inv base capacity n np s \<and> running s \<and> \<not> m_shuttingDown (sy_proc s)
     \<and> \<not> proc_ended s \<and> usable (m_wait_for_ttv (sy_proc s)) (tracker_of (sy_proc s)) (waiting s)"

lemma returns_bound: "returns pkt st \<le> 2"
  by (simp add: returns_def)

lemma to_do_bounds:
  "to_do s \<le> 18 * length (waiting s)"
  "waiting s = pkt # ps \<Longrightarrow> 6 * returns pkt (sy_proc s) + 6 + 18 * length ps = to_do s"
  by (auto simp: to_do_def returns_def split: list.splits)

lemma behind_bound: "behind s \<le> 18 * length (waiting s) + 4"
  using to_do_bounds(1) [of s] by (auto simp: behind_def split: proc_pc.split)

text \<open>A returned packet is closer to being processed.\<close>

lemma returns_less:
  assumes ok: "proc_ok st" and pass: "can_pass (m_wait_for_ttv st) (tracker_of st) (mem p)"
    and res: "process_packet P p mem st = Inr (Refill, mem', st')"
  shows "returns (mem p) st' < returns (mem p) st"
proof -
  have "prepared P (mem p) st st'" using process_packet_spec [where mem = mem and p = p, OF ok res] by simp
  then have freq: "pkt_freq (mem p) \<noteq> 0" using pass by (simp add: prepared_def can_pass_def)
  show ?thesis
  proof (cases "accepts (mem p) st")
    case True
    from process_packet_accepted [where mem = mem and p = p, OF ok True freq res] show ?thesis
      using True by (auto simp: returns_def)
  next
    case False
    from process_packet_refused [where mem = mem and p = p, OF ok False res] show ?thesis
      using False by (auto simp: returns_def)
  qed
qed

text \<open>The packet at the head is processed or given back, and what waits then can still pass.\<close>

lemma busy_head:
  assumes busy: "busy base capacity n np s" and work: "sy_work s = p # work"
  obtains mem st where "process_packet P p (sy_mem s) (sy_proc s) = Inr (Recycle, mem, st)" "m_shuttingDown st = m_shuttingDown (sy_proc s)"
    "\<And>ws. waiting s = sy_mem s p # ws \<Longrightarrow> usable (m_wait_for_ttv st) (tracker_of st) ws"
  | st where "process_packet P p (sy_mem s) (sy_proc s) = Inr (Refill, sy_mem s, st)" "m_shuttingDown st = m_shuttingDown (sy_proc s)"
    "returns (sy_mem s p) st < returns (sy_mem s p) (sy_proc s)" "usable (m_wait_for_ttv st) (tracker_of st) (waiting s)"
proof -
  let ?st = "sy_proc s" and ?res = "process_packet P p (sy_mem s) (sy_proc s)"
  obtain rest where w: "waiting s = sy_mem s p # rest" using work by (simp add: waiting_def)
  have use: "can_pass (m_wait_for_ttv ?st) (tracker_of ?st) (sy_mem s p)"
    "usable (m_wait_for_ttv ?st) (track (m_wait_for_ttv ?st) (sy_mem s p) (tracker_of ?st)) rest"
    using busy by (simp_all add: busy_def w)
  have "sy_ppc s \<noteq> PDone" using busy by (simp add: busy_def proc_ended_def)
  then have ok: "proc_ok ?st"
    using busy sys_invD(6) [of base capacity n np s] by (cases "sy_ppc s") (auto simp: busy_def)
  show thesis
  proof (cases ?res)
    case (Inl e)
    with process_packet_fault [where mem = "sy_mem s" and p = p, OF ok] can_pass_begins [OF use(1)] show thesis by blast
  next
    case (Inr x)
    then obtain out mem st where res: "?res = Inr (out, mem, st)" by (cases x) auto
    have turn: "m_shuttingDown st = m_shuttingDown ?st" "m_wait_for_ttv st = m_wait_for_ttv ?st" "out = Refill \<longrightarrow> mem = sy_mem s"
      using process_packet_turn [OF ok, of "sy_mem s" p P] by (simp_all add: res turn_ok_def same_config_def)
    note spec = process_packet_spec [where mem = "sy_mem s" and p = p, OF ok res]
    show thesis
    proof (cases out)
      case Recycle
      then have "tracker_of st = track (m_wait_for_ttv ?st) (sy_mem s p) (tracker_of ?st)" using spec by (simp add: performed_def)
      then show thesis using that(1) [of mem st] res Recycle turn use(2) w by simp
    next
      case Refill
      then have prep: "prepared P (sy_mem s p) ?st st" using spec by simp
      from prepared_can_pass [OF this use(1)] prep use(2) have "usable (m_wait_for_ttv st) (tracker_of st) (waiting s)"
        by (simp add: w turn(2) prepared_def)
      then show thesis
        using that(2) [of st] res Refill turn returns_less [where mem = "sy_mem s" and p = p, OF ok use(1)] by auto
    qed
  qed
qed

text \<open>Every step, whatever thread takes it.\<close>

lemma returns_control:
  "returns pkt (run_begin st) = returns pkt st" "returns pkt (shutDown st) = returns pkt st"
  "returns pkt (setUpstreamSri up st) \<le> returns pkt st + 1" "returns pkt (unsetUpstreamSri st) \<le> returns pkt st + 1"
  by (auto simp: returns_def accepts_def sri_quiet_def run_begin_def shutDown_def setUpstreamSri_def unsetUpstreamSri_def)

text \<open>A step that leaves the head of the queue and the thread where they are.\<close>

lemma behind_other:
  assumes "sy_ppc s' = sy_ppc s" "sy_work s' = sy_work s" "waiting s' = waiting s @ later" "\<And>e. sy_ppc s \<noteq> PFault e"
    "\<And>pkt. returns pkt (sy_proc s') \<le> returns pkt (sy_proc s) + k"
  shows "behind s' \<le> behind s + 18 * length later + 6 * k"
proof -
  have "to_do s' \<le> to_do s + 18 * length later + 6 * k"
  proof (cases "waiting s")
    case Nil
    then show ?thesis using assms(3) to_do_bounds(1) [of s'] by simp
  next
    case (Cons pkt ps)
    then show ?thesis using assms(3) assms(5) [of pkt] by (simp add: to_do_def)
  qed
  moreover have "sy_work s \<noteq> [] \<Longrightarrow> 6 \<le> to_do s" by (auto simp: to_do_def waiting_def split: list.split)
  ultimately show ?thesis
    using assms(1,2) by (auto simp: behind_def split: proc_pc.split)
qed

lemma behind_step:
  assumes step: "sys_step P c s ev s'" and busy: "busy base capacity n np s" and np: "0 < np" and run: "running s'"
  shows "behind s' < behind s \<or> sy_ppc s' = sy_ppc s
    \<and> behind s' \<le> behind s + 18 * length (arrived [ev]) + (if ev = Sri then 6 else 0)"
proof -
  have inv: "sys_inv base capacity n np s" and go: "\<not> m_shuttingDown (sy_proc s)" "running s"
    and alive: "sy_ppc s \<noteq> PDone" "\<And>e. sy_ppc s \<noteq> PFault e"
    using busy by (simp_all add: busy_def proc_ended_def)
  have len: "sy_ppc s' \<noteq> PDone \<Longrightarrow> handled [ev] @ waiting s' = waiting s @ arrived [ev]"
    using step_good [OF step inv run] by (simp add: good_step_def)
  have other: ?thesis if "sy_ppc s' = sy_ppc s" "sy_work s' = sy_work s" "handled [ev] = []"
      "\<And>pkt. returns pkt (sy_proc s') \<le> returns pkt (sy_proc s) + (if ev = Sri then 1 else 0)"
    using behind_other [OF that(1,2) _ alive(2) that(4)] len alive(1) that(1,3) by auto
  have same: "to_do s' = to_do s" if "waiting s' = waiting s" "sy_proc s' = sy_proc s" using that by (simp add: to_do_def split: list.split)
  show ?thesis
    using step
  proof (cases rule: sys_step.cases)
    case (proc_pops work b)
    have "work \<noteq> []"
      using proc_pops(4) np go(2) sys_invD(6) [OF inv] proc_pops(3)
      by (auto simp: buffer_ops running_def word_less_nat_alt split: if_splits)
    moreover from this have "6 \<le> to_do s'" by (auto simp: to_do_def waiting_def proc_pops split: list.split)
    moreover have "waiting s' = waiting s" using len proc_pops by simp
    ultimately show ?thesis using same proc_pops by (simp add: behind_def)
  next
    case (proc_handles p work mem st)
    have w: "waiting s = sy_mem s p # waiting s'" using len proc_handles by simp
    have "to_do s' + 6 \<le> to_do s" using to_do_bounds(1) [of s'] to_do_bounds(2) [OF w] by simp
    moreover have "sy_ppc s' = PPass" "sy_ppc s = PPass" "sy_work s \<noteq> []" using proc_handles by simp_all
    ultimately have "behind s' < behind s" by (simp add: behind_def) linarith
    then show ?thesis ..
  next
    case (proc_returns p work mem st)
    obtain ps where w: "waiting s = sy_mem s p # ps" "waiting s' = sy_mem s p # ps"
      using len proc_returns by (simp add: waiting_def)
    have "returns (sy_mem s p) st < returns (sy_mem s p) (sy_proc s)"
      by (rule busy_head [where P = P, OF busy proc_returns(4)]) (use proc_returns(5) in simp_all)
    then have "to_do s' + 6 \<le> to_do s" by (simp add: to_do_def w) (simp add: proc_returns)
    moreover have "sy_ppc s' = PRecycle" "sy_ppc s = PPass" "sy_work s \<noteq> []" using proc_returns by simp_all
    ultimately have "behind s' < behind s" by (simp add: behind_def)
    then show ?thesis ..
  next
    case (proc_fails p work e)
    then show ?thesis using busy_head [where P = P, OF busy proc_fails(4)] by (metis Inl_Inr_False)
  next
    case proc_enters
    have "6 \<le> to_do s" if "sy_work s \<noteq> []" using that by (auto simp: to_do_def waiting_def split: list.split)
    then show ?thesis using same len proc_enters by (auto simp: behind_def)
  next
    case proc_starts
    have "to_do s' = to_do s" using len by (simp add: to_do_def proc_starts returns_control split: list.split)
    then show ?thesis by (simp add: behind_def proc_starts)
  next
    case stops
    show ?thesis by (rule other) (auto simp: stops stop_step_def returns_control split: stop_pc.splits)
  next
    case (sri_attached up)
    show ?thesis by (rule other) (simp_all add: sri_attached returns_control del: One_nat_def)
  next
    case sri_detached
    show ?thesis by (rule other) (simp_all add: sri_detached returns_control del: One_nat_def)
  qed (use other same len go in \<open>auto simp: behind_def\<close>)
qed

text \<open>The processing thread can take a step, and what waits can still pass.\<close>

lemma run_begin_tracker:
  "tracker_of (run_begin st) = tracker_of st" "m_wait_for_ttv (run_begin st) = m_wait_for_ttv st" "\<not> m_shuttingDown (run_begin st)"
  by (simp_all add: run_begin_def tracker_of_def)

lemma busy_step:
  assumes busy: "busy base capacity n np s" and np: "0 < np" and step: "sys_step P c s ev t"
    and t: "running t" "\<not> m_shuttingDown (sy_proc t)" "\<not> proc_ended t" "arrived [ev] = []" "ev \<noteq> Sri"
    and move: "sy_ppc t \<noteq> sy_ppc s \<or> behind t < behind s"
    and kept: "usable (m_wait_for_ttv (sy_proc t)) (tracker_of (sy_proc t)) (waiting t)"
  shows "busy base capacity n np t" "behind t < behind s"
proof -
  have "sys_inv base capacity n np s" using busy by (simp add: busy_def)
  from step_good [OF step this t(1)] show "busy base capacity n np t"
    using t kept by (simp add: busy_def good_step_def)
  show "behind t < behind s" using behind_step [OF step busy np t(1)] move t(4,5) by auto
qed

lemma busy_moves:
  assumes busy: "busy base capacity n np s" and np: "0 < np" and free: "\<not> proc_blocked s"
  shows "\<exists>ev t. sys_step P c s ev t \<and> ev \<noteq> Sri \<and> arrived [ev] = [] \<and> busy base capacity n np t \<and> behind t < behind s"
proof -
  have inv: "sys_inv base capacity n np s" and go: "\<not> m_shuttingDown (sy_proc s)" "running s"
    and use: "usable (m_wait_for_ttv (sy_proc s)) (tracker_of (sy_proc s)) (waiting s)"
    and alive: "sy_ppc s \<noteq> PDone" "\<And>e. sy_ppc s \<noteq> PFault e"
    using busy by (simp_all add: busy_def proc_ended_def)
  note step_busy = busy_step [OF busy np]
  have moved: ?thesis if "sys_step P c s Tau t" "running t" "\<not> m_shuttingDown (sy_proc t)" "\<not> proc_ended t"
      "sy_ppc t \<noteq> sy_ppc s" "waiting t = waiting s \<Longrightarrow> usable (m_wait_for_ttv (sy_proc t)) (tracker_of (sy_proc t)) (waiting t)" for t
  proof -
    have "waiting t = waiting s" using step_good [OF that(1) inv that(2)] that(4) by (simp add: good_step_def proc_ended_def)
    with step_busy [OF that(1-4)] that(1,5,6) show ?thesis by (intro exI [of _ Tau] exI [of _ t]) simp
  qed
  show ?thesis
  proof (cases "sy_ppc s")
    case PStart
    show ?thesis
      by (rule moved [OF proc_starts [OF PStart]])
        (use go PStart use in \<open>simp_all add: run_begin_tracker running_def proc_ended_def\<close>)
  next
    case PTop
    show ?thesis
      by (rule moved [OF proc_tests [OF PTop go(1)]]) (use go PTop use in \<open>simp_all add: running_def proc_ended_def\<close>)
  next
    case PPop
    then obtain work b where pop: "pop_full_buffers (sy_work s) (unat (m_pkts_per_read (sy_proc s))) (sy_buf s) = Some (work, b)"
      using free by (auto simp: proc_blocked_def)
    show ?thesis
      by (rule moved [OF proc_pops [OF PPop pop]])
        (use go ops_keep_flag(5) [OF pop] PPop use in \<open>simp_all add: running_def proc_ended_def\<close>)
  next
    case PWork
    show ?thesis
      by (rule moved [OF proc_enters [OF PWork go(1)]]) (use go PWork use in \<open>simp_all add: running_def proc_ended_def\<close>)
  next
    case PRecycle
    obtain rec b where rec: "recycle_buffers (sy_rec s) (sy_buf s) = (rec, b)" by (cases "recycle_buffers (sy_rec s) (sy_buf s)")
    show ?thesis
      by (rule moved [OF proc_recycles [OF PRecycle rec]])
        (use go ops_keep_flag(6) [OF rec] PRecycle use in \<open>simp_all add: running_def proc_ended_def\<close>)
  next
    case PPass
    show ?thesis
    proof (cases "sy_work s")
      case Nil
      show ?thesis
        by (rule moved [OF proc_leaves [OF PPass Nil]]) (use go PPass use in \<open>simp_all add: running_def proc_ended_def\<close>)
    next
      case (Cons p work)
      show ?thesis
      proof (rule busy_head [where P = P, OF busy Cons])
        fix mem st
        assume packet: "process_packet P p (sy_mem s) (sy_proc s) = Inr (Recycle, mem, st)" "m_shuttingDown st = m_shuttingDown (sy_proc s)"
          and rest: "\<And>ws. waiting s = sy_mem s p # ws \<Longrightarrow> usable (m_wait_for_ttv st) (tracker_of st) ws"
        let ?t = "s\<lparr>sy_mem := mem, sy_proc := st, sy_work := work, sy_rec := sy_rec s @ [p]\<rparr>"
        note step = proc_handles [OF PPass Cons packet(1), of c]
        have t: "running ?t" "\<not> m_shuttingDown (sy_proc ?t)" "\<not> proc_ended ?t" "arrived [Handled [sy_mem s p]] = []"
          using go packet(2) PPass by (simp_all add: running_def proc_ended_def)
        have w: "waiting s = sy_mem s p # waiting ?t"
          using step_good [OF step inv t(1)] PPass by (simp add: good_step_def)
        have "to_do ?t + 6 \<le> to_do s" using to_do_bounds(1) [of ?t] to_do_bounds(2) [OF w] by simp
        then have "behind ?t < behind s" using PPass Cons by (cases work) (simp_all add: behind_def)
        with step_busy [OF step t] rest [OF w] step t(4) show ?thesis by (intro exI conjI) auto
      next
        fix st
        assume packet: "process_packet P p (sy_mem s) (sy_proc s) = Inr (Refill, sy_mem s, st)" "m_shuttingDown st = m_shuttingDown (sy_proc s)"
          and rest: "usable (m_wait_for_ttv st) (tracker_of st) (waiting s)"
        show ?thesis
          by (rule moved [OF proc_returns [OF PPass Cons packet(1)]])
            (use go PPass packet(2) rest in \<open>simp_all add: running_def waiting_def proc_ended_def\<close>)
      qed
    qed
  qed (use alive in simp_all)
qed

lemma busy_catches_up:
  assumes "busy base capacity n np s" "0 < np"
  shows "\<exists>evs t. sys_run P c s evs t \<and> length evs \<le> behind s \<and> Sri \<notin> set evs \<and> arrived evs = []
    \<and> busy base capacity n np t \<and> proc_blocked t"
  using assms(1)
proof (induction "behind s" arbitrary: s rule: less_induct)
  case less
  show ?case
  proof (cases "proc_blocked s")
    case True
    then show ?thesis using less.prems run_start by force
  next
    case False
    obtain ev t where one: "sys_step P c s ev t" "ev \<noteq> Sri" "arrived [ev] = []" "busy base capacity n np t" "behind t < behind s"
      using busy_moves [OF less.prems assms(2) False] by blast
    obtain evs u where rest: "sys_run P c t evs u" "length evs \<le> behind t" "Sri \<notin> set evs" "arrived evs = []"
        "busy base capacity n np u" "proc_blocked u"
      using less.hyps [OF one(5,4)] by blast
    have "sys_run P c s ([ev] @ evs) u" by (rule sys_run_trans [OF rest(1) sys_run_one [OF one(1)]])
    moreover have "arrived ([ev] @ evs) = []" using one(3) rest(4) by (simp only: arrived_append append_Nil)
    moreover have "length ([ev] @ evs) \<le> behind s" "Sri \<notin> set ([ev] @ evs)" using one(2,5) rest(2,3) by simp_all
    ultimately show ?thesis using rest(5,6) by blast
  qed
qed

text \<open>Every run from the start of the threads.\<close>

lemma at_packet_usable: "at_packet w t ws st \<Longrightarrow> usable w t ws \<Longrightarrow> usable w (tracker_of st) ws"
  by (cases ws) (auto simp: at_packet_def can_pass_def)

lemma started_busy:
  assumes "start_ok n np mem r st" "sys_run P c (started base capacity mem r st) evs s"
    "\<not> buf_shuttingDown (sy_buf s)" "sy_ppc s \<noteq> PDone" "\<not> m_shuttingDown (sy_proc s)"
    "usable (m_wait_for_ttv st) (tracker_of st) (arrived evs)"
  shows "busy base capacity n np s"
proof -
  have run: "running s" using assms(3) by (simp add: running_def)
  note started = started_conforms [OF assms(1,2) run assms(4)]
  let ?t = "tracked (m_wait_for_ttv st) (handled evs) (tracker_of st)"
  have use: "usable (m_wait_for_ttv st) ?t (waiting s)" using assms(6) started(3) by (simp add: usable_append)
  then have "\<not> proc_ended s"
    using started(2) assms(4) by (cases "waiting s") (auto simp: proc_ended_def dest: can_pass_begins)
  moreover have "at_packet (m_wait_for_ttv st) ?t (waiting s) (sy_proc s)" "m_wait_for_ttv (sy_proc s) = m_wait_for_ttv st"
    using started(1) by (simp_all add: conforms_def Let_def)
  moreover from this have "usable (m_wait_for_ttv (sy_proc s)) (tracker_of (sy_proc s)) (waiting s)"
    using at_packet_usable [OF _ use] by simp
  ultimately show ?thesis using started(4) run assms(5) by (simp add: busy_def)
qed

lemma blocked_few:
  assumes "busy base capacity n np t" "proc_blocked t"
  shows "length (waiting t) < unat np"
  using assms sys_invD(6) [of base capacity n np t]
  by (auto simp: busy_def proc_blocked_def pop_full_blocks_iff waiting_def)

lemma packets_delivered:
  assumes "start_ok n np mem r st" "sys_run P c (started base capacity mem r st) evs s"
    "\<not> buf_shuttingDown (sy_buf s)" "sy_ppc s \<noteq> PDone" "\<not> m_shuttingDown (sy_proc s)"
    "usable (m_wait_for_ttv st) (tracker_of st) (arrived evs)" "0 < np"
  shows "\<exists>evs' t. sys_run P c s evs' t \<and> length evs' \<le> 18 * length (waiting s) + 4 \<and> proc_blocked t
      \<and> arrived evs = handled (evs @ evs') @ waiting t \<and> length (waiting t) < unat np
      \<and> implements (orders P st evs) st (handled (evs @ evs')) (waiting t) (sy_proc t)"
proof -
  have busy: "busy base capacity n np s" by (rule started_busy [OF assms(1-6)])
  obtain evs' t where t: "sys_run P c s evs' t" "length evs' \<le> behind s" "Sri \<notin> set evs'" "arrived evs' = []"
    "busy base capacity n np t" "proc_blocked t" using busy_catches_up [OF busy assms(7)] by blast
  have "running t" "sy_ppc t \<noteq> PDone" using t(5,6) by (simp_all add: busy_def proc_blocked_def)
  note started = started_conforms [OF assms(1) sys_run_trans [OF t(1) assms(2)] this]
  have "orders P st (evs @ evs') = orders P st evs" using t(3) by (simp add: orders_def fun_eq_iff)
  then have "implements (orders P st evs) st (handled (evs @ evs')) (waiting t) (sy_proc t)"
    using conforms_implements [OF started(1)] by simp
  moreover have "arrived evs = handled (evs @ evs') @ waiting t" using started(3) t(4) by simp
  moreover have "length evs' \<le> 18 * length (waiting s) + 4" using t(2) behind_bound [of s] by simp
  moreover have "length (waiting t) < unat np" by (rule blocked_few [OF t(5,6)])
  ultimately show ?thesis using t(1,6) by blast
qed

section \<open>A stream of one packet\<close>

definition one_fresh :: "string processor" where
  "one_fresh = sample_processor\<lparr>m_pkts_per_read := 1\<rparr>"

lemma one_fresh_ok: "start_ok 1 1 (\<lambda>_. blank_packet) new_reader one_fresh" "m_calls one_fresh = []"
  "m_wait_for_ttv one_fresh = False" "tr_next (tracker_of one_fresh) = None" "word_order P one_fresh = BIG_ENDIAN_STR"
  "m_pkts_dropped one_fresh = 0"
  using sample_start sample_ok
  by (simp_all add: start_ok_def one_fresh_def sample_defs proc_ok_def coherent_def endian_defs tracker_of_def word_order_def)

lemma sample_packet_bps: "getBps sample_packet = 16"
  by (simp add: getBps_def sample_packet_def)

lemma one_usable: "usable w t [sample_packet]"
proof -
  have "pkt_freq sample_packet \<noteq> 0" by (simp add: sample_packet_def net64.swap_eq_0)
  then show ?thesis by (simp add: can_pass_def sample_packet_bps bps_ok_iff)
qed

text \<open>It has arrived.\<close>

lemma one_begins:
  obtains s where "sys_run sample_platform False (started 0 4 (\<lambda>_. blank_packet) new_reader one_fresh)
      (replicate 5 Tau @ [Arrive [sample_packet]]) s" "running s" "sy_ppc s = PPop" "\<not> m_shuttingDown (sy_proc s)"
proof -
  have "length (bytes_of_packet sample_packet) = 1080" "packet_of_bytes (bytes_of_packet sample_packet) = sample_packet"
    by (simp_all add: wf_packet_def sample_packet_def length_bytes_of_packet packet_bytes_inverse)
  then show thesis
    using one_arrives [OF one_fresh_ok(1), of 4 "bytes_of_packet sample_packet" sample_platform False 0] that by auto
qed

text \<open>It is handled.\<close>

lemma one_handled:
  obtains evs t where "sys_run sample_platform False (started 0 4 (\<lambda>_. blank_packet) new_reader one_fresh) evs t"
    "running t" "sy_ppc t \<noteq> PDone" "arrived evs = [sample_packet]" "handled evs = [sample_packet]" "Sri \<notin> set evs"
proof -
  let ?s0 = "started 0 4 (\<lambda>_. blank_packet) new_reader one_fresh" and ?evs = "replicate 5 Tau @ [Arrive [sample_packet]]"
  obtain s where s: "sys_run sample_platform False ?s0 ?evs s" "running s" "sy_ppc s = PPop" "\<not> m_shuttingDown (sy_proc s)"
    by (rule one_begins)
  have run: "\<not> buf_shuttingDown (sy_buf s)" "sy_ppc s \<noteq> PDone" using s(2,3) by (simp_all add: running_def)
  have e: "arrived ?evs = [sample_packet]" "Sri \<notin> set ?evs" by (simp_all add: numeral_eq_Suc)
  have use: "usable (m_wait_for_ttv one_fresh) (tracker_of one_fresh) (arrived ?evs)" unfolding e(1) by (rule one_usable)
  have "busy 0 4 1 1 s" by (rule started_busy [OF one_fresh_ok(1) s(1) run s(4) use])
  from busy_catches_up [OF this, of sample_platform False] obtain evs' t where
    t: "sys_run sample_platform False s evs' t" "Sri \<notin> set evs'" "arrived evs' = []" "busy 0 4 1 1 t" "proc_blocked t" by auto
  note all = sys_run_trans [OF t(1) s(1)]
  have end': "running t" "sy_ppc t \<noteq> PDone" using t(4,5) by (simp_all add: busy_def proc_blocked_def)
  have "arrived (?evs @ evs') = handled (?evs @ evs') @ waiting t"
    by (rule started_conforms(3) [OF one_fresh_ok(1) all end'])
  moreover have "waiting t = []" using blocked_few [OF t(4,5)] by simp
  moreover have "arrived (?evs @ evs') = [sample_packet]" using e(1) t(3) by simp
  ultimately show thesis using that [OF all end'] e(2) t(2) by simp
qed

section \<open>Properties\<close>

text \<open>C2: Everything that arrives is processed: in any run from the start of the threads in which the packets
  that arrive can pass (their frequency is not zero, and the bits per sample of a packet that begins a
  stream not 1 to 7), as long as nobody stops the processor, at most \<open>18\<close> steps of the processing thread for
  each waiting packet and \<open>4\<close> more bring it to a state in which it waits for packets. By then all packets that had
  arrived are processed as the specification says, except fewer than it takes in one go. And no other
  thread keeps it from that: until it waits, each of its steps comes nearer, and a step of another
  thread does not lead away, except by \<open>18\<close> for a packet that arrives and by \<open>6\<close> for an upstream SRI.\<close>

theorem packets_are_delivered:
  assumes "start_ok n np mem r st" "sys_run P c (started base capacity mem r st) evs s"
    "\<not> buf_shuttingDown (sy_buf s)" "sy_ppc s \<noteq> PDone" "\<not> m_shuttingDown (sy_proc s)"
    "usable (m_wait_for_ttv st) (tracker_of st) (arrived evs)" "0 < np"
  shows "(\<exists>evs' t. sys_run P c s evs' t \<and> length evs' \<le> 18 * length (waiting s) + 4 \<and> proc_blocked t
      \<and> arrived evs = handled (evs @ evs') @ waiting t \<and> length (waiting t) < unat np
      \<and> implements (orders P st evs) st (handled (evs @ evs')) (waiting t) (sy_proc t))
    \<and> (\<forall>ev u. sys_step P c s ev u \<and> \<not> buf_shuttingDown (sy_buf u)
        \<longrightarrow> behind u < behind s \<or> sy_ppc u = sy_ppc s
            \<and> behind u \<le> behind s + 18 * length (arrived [ev]) + (if ev = Sri then 6 else 0))"
proof (intro conjI allI impI)
  show "\<exists>evs' t. sys_run P c s evs' t \<and> length evs' \<le> 18 * length (waiting s) + 4 \<and> proc_blocked t
      \<and> arrived evs = handled (evs @ evs') @ waiting t \<and> length (waiting t) < unat np
      \<and> implements (orders P st evs) st (handled (evs @ evs')) (waiting t) (sy_proc t)" by (rule packets_delivered [OF assms])
  fix ev u assume "sys_step P c s ev u \<and> \<not> buf_shuttingDown (sy_buf u)"
  then show "behind u < behind s \<or> sy_ppc u = sy_ppc s
      \<and> behind u \<le> behind s + 18 * length (arrived [ev]) + (if ev = Sri then 6 else 0)"
    using behind_step [OF _ started_busy [OF assms(1-6)] assms(7), of P c ev u] by (simp add: running_def)
qed

lemma packets_are_delivered_witness:
  "\<exists>evs t. sys_run sample_platform False (started 0 4 (\<lambda>_. blank_packet) new_reader one_fresh) evs t
      \<and> handled evs = [sample_packet] \<and> implements (\<lambda>e. e = BIG_ENDIAN_STR) one_fresh [sample_packet] [] (sy_proc t)"
proof -
  let ?s0 = "started 0 4 (\<lambda>_. blank_packet) new_reader one_fresh" and ?evs = "replicate 5 Tau @ [Arrive [sample_packet]]"
  obtain s where s: "sys_run sample_platform False ?s0 ?evs s" "running s" "sy_ppc s = PPop" "\<not> m_shuttingDown (sy_proc s)"
    by (rule one_begins)
  have e: "arrived ?evs = [sample_packet]" "orders sample_platform one_fresh ?evs = (\<lambda>e. e = BIG_ENDIAN_STR)"
    by (simp_all add: numeral_eq_Suc orders_def one_fresh_ok(5) fun_eq_iff)
  have run: "\<not> buf_shuttingDown (sy_buf s)" "sy_ppc s \<noteq> PDone" using s by (simp_all add: running_def)
  have use: "usable (m_wait_for_ttv one_fresh) (tracker_of one_fresh) (arrived ?evs)" unfolding e(1) by (rule one_usable)
  from packets_are_delivered [OF one_fresh_ok(1) s(1) run s(4) use] obtain evs' t where
    t: "sys_run sample_platform False s evs' t" "arrived ?evs = handled (?evs @ evs') @ waiting t" "waiting t = []"
      "implements (orders sample_platform one_fresh ?evs) one_fresh (handled (?evs @ evs')) (waiting t) (sy_proc t)" by auto
  have h: "handled (?evs @ evs') = [sample_packet]" using t(2,3) e(1) by simp
  have "implements (\<lambda>e. e = BIG_ENDIAN_STR) one_fresh [sample_packet] [] (sy_proc t)" using t(4) unfolding h t(3) e(2) .
  with sys_run_trans [OF t(1) s(1)] h show ?thesis by (intro exI conjI)
qed

text \<open>C3: End to end, for any datagrams and over every run: every interleaving of the threads, with upstream
  SRIs attached and detached at any time and a stop that begins at any time, up to the end of the threads.
  The pipeline implements the specification. What arrived is what was handled and a rest. What the
  processor has sent to BulkIO is one write for each packet handled (with wait-on-ttv, for each one with
  a valid time; none in a stream whose bits per sample are not 8, 16 or 32), in the order of their arrival, of all its samples, read with the bits per sample of the
  packet that began its stream, and with the packet's own time stamp; a packet begins a stream when its
  sequence number is not the next data number after the one before. The dropped packets it counts are
  the missing numbers between the packets. The rest is what waits, as long as the buffer and the processor
  run. The processor faults only on a packet that begins a stream with 1 to 7 bits per sample.\<close>

theorem pipeline_implements_spec:
  assumes "start_ok n np mem r st" "sys_run P c (started base capacity mem r st) evs s"
  shows "\<exists>rest. arrived evs = handled evs @ rest \<and> implements (orders P st evs) st (handled evs) rest (sy_proc s)
    \<and> (\<not> buf_shuttingDown (sy_buf s) \<and> sy_ppc s \<noteq> PDone \<longrightarrow> rest = waiting s)
    \<and> (\<forall>e. sy_ppc s = PFault e \<longrightarrow> rest \<noteq> [] \<and> faulty_first (m_wait_for_ttv st)
         (tracked (m_wait_for_ttv st) (handled evs) (tracker_of st)) (hd rest))"
proof -
  obtain rest where "sound P (orders P st evs) st evs rest s" using started_sound [OF assms] .
  then show ?thesis by (intro exI [of _ rest]) (auto simp: sound_def fault_ok_def running_def hd_append)
qed

lemma pipeline_implements_spec_witness:
  "\<exists>evs s T. sys_run sample_platform False (started 0 4 (\<lambda>_. blank_packet) new_reader one_fresh) evs s
      \<and> handled evs = [sample_packet] \<and> stamped sample_packet T
      \<and> data_writes (m_calls (sy_proc s)) = [WriteShort (be_shorts (pkt_d sample_packet)) T]"
proof -
  obtain evs s where s: "sys_run sample_platform False (started 0 4 (\<lambda>_. blank_packet) new_reader one_fresh) evs s"
    "running s" "sy_ppc s \<noteq> PDone" "arrived evs = [sample_packet]" "handled evs = [sample_packet]" "Sri \<notin> set evs"
    by (rule one_handled)
  have "orders sample_platform one_fresh evs = (\<lambda>e. e = BIG_ENDIAN_STR)"
    using s(6) by (simp add: orders_def one_fresh_ok(5) fun_eq_iff)
  with pipeline_implements_spec [OF one_fresh_ok(1) s(1)]
  obtain rest where "implements (\<lambda>e. e = BIG_ENDIAN_STR) one_fresh [sample_packet] rest (sy_proc s)" by (auto simp: s(5))
  moreover have "outputs False (tracker_of one_fresh) [sample_packet] = [(16, sample_packet)]"
    by (simp add: taken_def track_def one_fresh_ok(4) sample_packet_bps)
  ultimately obtain T where "stamped sample_packet T" "data_writes (m_calls (sy_proc s)) = spec_write BIG_ENDIAN_STR 16 (pkt_d sample_packet) T"
    by (auto simp: implements_def one_fresh_ok carries_def list_all2_Cons1 data_writes_def Let_def)
  then show ?thesis using s(1,5) by (auto simp: spec_write_def)
qed

end
