(* ===== verification/Stream_Start.thy ===== *)
theory Stream_Start
  imports Pipeline_Progress
begin

text \<open>
  The stream from its beginning: how the first packet brings a processor that has just been started
  into the stream, and with it the whole way of a stream from the start of the component's threads.
\<close>

section \<open>The first packet\<close>

text \<open>
  \<open>fresh\<close>: no packet has been processed since the start and no new upstream SRI waits. \<open>alike\<close>: a packet
  that has the flags the settings ask for, and the rate and the flags of the first one.
  A stream of complex data needs an upstream SRI or a device known not to conform, since otherwise its
  time stamps may show such a device, and the SRI changes in the middle.
\<close>

definition fresh :: "'a processor \<Rightarrow> bool" where
  "fresh st \<longleftrightarrow> proc_ok st \<and> m_first_packet st \<and> \<not> (m_upstream_sri_set st \<and> m_new_upstream_sri st)"

definition alike :: "'a processor \<Rightarrow> SDDSpacket \<Rightarrow> SDDSpacket \<Rightarrow> bool" where
  "alike st first pkt \<longleftrightarrow> (m_wait_for_ttv st \<longrightarrow> ttv_on pkt) \<and> (m_push_on_ttv st \<longrightarrow> ttv_on pkt = ttv_on first)
     \<and> get_rate pkt = get_rate first \<and> pkt_cx pkt = pkt_cx first"

definition can_begin :: "'a processor \<Rightarrow> SDDSpacket \<Rightarrow> bool" where
  "can_begin st pkt \<longleftrightarrow> alike st pkt pkt \<and> bps_ok (getBps pkt) \<and> pkt_freq pkt \<noteq> 0
     \<and> (m_use_upstream_sri st \<or> m_non_conforming_device st \<or> \<not> pkt_cx pkt)"

text \<open>Packets that are one undisturbed stream from its first packet on.\<close>

definition a_stream :: "'a processor \<Rightarrow> SDDSpacket list \<Rightarrow> bool" where
  "a_stream st pkts \<longleftrightarrow> (pkts \<noteq> [] \<longrightarrow> can_begin st (hd pkts)) \<and> (\<forall>pkt \<in> set pkts. alike st (hd pkts) pkt)
     \<and> in_sequence (get_seq (hd pkts)) pkts"

text \<open>The processor \<open>s\<close> has opened its streams and expects the packet \<open>pkt\<close>; nothing is written yet.\<close>

definition entered :: "'a processor \<Rightarrow> SDDSpacket \<Rightarrow> 'a processor \<Rightarrow> bool" where
  "entered st pkt s \<longleftrightarrow> streaming s \<and> (\<forall>q. alike st pkt q \<longrightarrow> fits s q) \<and> m_bps s = getBps pkt
     \<and> m_endianness s = m_endianness st \<and> m_pkts_dropped s = m_pkts_dropped st \<and> m_expected_seq_number s = get_seq pkt
     \<and> (\<exists>cs. m_calls s = m_calls st @ cs \<and> list_all (\<lambda>c. written c = None) cs)"

text \<open>The first packet is written at once when it brings no new SRI, otherwise it is met again.\<close>

lemma fresh_ready:
  assumes "fresh st" "can_begin st pkt" "ready_packet P pkt (first_state pkt st) = (ch, s)"
  shows "entered st pkt s" "ready_packet P pkt s = (False, s)"
proof -
  let ?f = "first_state pkt st"
  have st: "proc_ok st" "m_first_packet st" "\<not> (m_upstream_sri_set st \<and> m_new_upstream_sri st)"
    and start: "bps_ok (getBps pkt)" "pkt_freq pkt \<noteq> 0" "m_wait_for_ttv st \<longrightarrow> ttv_on pkt"
      "m_use_upstream_sri st \<or> m_non_conforming_device st \<or> \<not> pkt_cx pkt"
    using assms(1,2) by (simp_all add: fresh_def can_begin_def alike_def)
  have f: "m_upstream_sri_set ?f = m_upstream_sri_set st" "m_new_upstream_sri ?f = m_new_upstream_sri st"
    "m_use_upstream_sri ?f = m_use_upstream_sri st" "m_non_conforming_device ?f = m_non_conforming_device st"
    "m_wait_for_ttv ?f = m_wait_for_ttv st" "m_push_on_ttv ?f = m_push_on_ttv st" "m_pkts_dropped ?f = m_pkts_dropped st"
    by (simp_all add: first_state_def expect_steps_def Let_def)
  note g = first_state_frame [where st = st and pkt = pkt]
  have ok: "proc_ok ?f" using first_state_turn [OF st(1,2) start(1)] by (simp add: turn_ok_def)
  have u: "upstream_merged P ?f = (False, ?f)" by (simp only: upstream_merged_def f st(3) if_False)
  obtain c t where m: "merge_packet_sri pkt False ?f = (c, t)" by fastforce
  have s: "s = ensure_open t" using assms(3) by (simp add: ready_packet_def u m)
  note mf = merge_packet_sri_frame [OF m]
  have q: "quiet ?f s" by (rule ready_packet_quiet [OF assms(3)])
  have octets: "octetStream s" using ready_packet_frame(3) [OF assms(3)] ok by (simp add: proc_ok_def)
  have same: "m_endianness s = m_endianness st" "m_use_upstream_sri s = m_use_upstream_sri st"
    "m_new_upstream_sri s = m_new_upstream_sri st"
    using mf(5,6,7) f g by (simp_all add: s ensure_open_def opened_def append_calls_def)
  have only: "m_upstream_sri_set s = m_upstream_sri_set st" "m_non_conforming_device s = m_non_conforming_device st"
    "m_wait_for_ttv s = m_wait_for_ttv st" "m_push_on_ttv s = m_push_on_ttv st" "m_pkts_dropped s = m_pkts_dropped st"
    "\<not> m_first_packet s" "m_current_ttv_flag s = ttv_on pkt" "m_bps s = getBps pkt" "m_expected_seq_number s = get_seq pkt"
    using q f g by (simp_all add: quiet_def only_sri_def)
  have str: "streaming s" using q ok octets st(3) by (simp add: streaming_def quiet_def only same)
  have quiet: "sri_quiet pkt s" by (rule ready_packet_settles [OF assms(3) start(2)])
  have "fits s q" if "alike st pkt q" for q
  proof -
    have "packet_xdelta q ncd = packet_xdelta pkt ncd" for ncd using that by (simp add: packet_xdelta_def alike_def)
    then have "sri_settled q ncd sri = sri_settled pkt ncd sri" for ncd and sri :: "'a StreamSRI"
      using that by (simp add: sri_settled_def packet_mode_def alike_def)
    then show ?thesis
      using that quiet start(4) st(3) by (auto simp: fits_def sri_quiet_def only same alike_def)
  qed
  moreover obtain cs where "m_calls s = m_calls st @ cs" "list_all (\<lambda>c. written c = None) cs"
    using q quiet_calls_no_write g(5) by (auto simp: quiet_def)
  ultimately show "entered st pkt s" using str by (simp add: entered_def only same)
  show "ready_packet P pkt s = (False, s)"
    using ready_packet_sri_quiet [OF quiet, of P] octets by (simp add: ensure_open_def)
qed

lemma entered_sri:
  assumes "entered st pkt s"
  shows "entered st pkt ((expect_steps r c (append_calls (sri_calls s) s))\<lparr>m_last_sdds_time := t\<rparr>)"
proof -
  let ?s = "(expect_steps r c (append_calls (sri_calls s) s))\<lparr>m_last_sdds_time := t\<rparr>"
  have "list_all (\<lambda>c. written c = None) (sri_calls s)" by (rule quiet_calls_no_write) simp
  moreover have "m_calls ?s = m_calls s @ sri_calls s"
    by (simp add: expect_steps_def append_calls_def Let_def)
  ultimately show ?thesis
    using assms by (auto simp: entered_def streaming_def proc_ok_def coherent_def fits_def expect_steps_def append_calls_def Let_def)
qed

lemma first_packet_enters:
  assumes fresh: "fresh st" and can: "can_begin st (mem p)"
  obtains s where "entered st (mem p) s"
    "process_packet P p mem st = Inr (Refill, mem, s) \<or> process_packet P p mem st = process_packet P p mem s"
proof -
  let ?f = "first_state (mem p) st"
  have st: "proc_ok st" "m_first_packet st" "m_wait_for_ttv st \<longrightarrow> ttv_on (mem p)" "bps_ok (getBps (mem p))"
    using fresh can by (simp_all add: fresh_def can_begin_def alike_def)
  have f: "coherent ?f" "bps_ok (m_bps ?f)" using st by (simp_all add: proc_ok_def first_state_frame)
  obtain ch s where r: "ready_packet P (mem p) ?f = (ch, s)" by fastforce
  note ready = fresh_ready [OF fresh can r]
  have str: "streaming s" "fits s (mem p)" "m_expected_seq_number s = get_seq (mem p)"
    using ready(1) can by (auto simp: entered_def can_begin_def)
  have eq: "process_packet P p mem st = (if ch then
      Inr (Refill, mem, (expect_steps (expected_rate s (mem p)) (pkt_cx (mem p))
             (append_calls (sri_calls s) s))\<lparr>m_last_sdds_time := time_zero\<rparr>)
    else push_packet P p mem s)"
    using process_packet_first [where mem = mem and p = p and P = P, OF st(2-4)] sri_and_push_eq [where mem = mem and p = p, OF f r] by simp
  show thesis
  proof (cases ch)
    case True
    from that [OF entered_sri [OF ready(1)] disjI1] eq True show ?thesis by simp
  next
    case False
    have ttv: "(get_ttv (mem p) \<noteq> 0) = ttv_on (mem p)" by (simp add: ttv_on_def)
    have "coherent s" "bps_ok (m_bps s)" using str(1) by (simp_all add: streaming_def proc_ok_def)
    from sri_and_push_eq [where mem = mem and p = p, OF this ready(2)]
    have "process_packet P p mem s = push_packet P p mem s"
      using str unfolding process_packet_def ttv Let_def fits_def streaming_def by (auto simp: orderIsValid_eq)
    then show ?thesis using that [OF ready(1)] eq False by simp
  qed
qed

section \<open>From the start of the threads\<close>

text \<open>\<open>not_begun\<close>: nothing has been processed; the settings are those of \<open>st0\<close>, nothing was called.\<close>

definition not_begun :: "'a processor \<Rightarrow> 'a processor \<Rightarrow> bool" where
  "not_begun st0 st \<longleftrightarrow> fresh st \<and> m_calls st = m_calls st0 \<and> m_endianness st = m_endianness st0
     \<and> m_pkts_dropped st = m_pkts_dropped st0 \<and> m_wait_for_ttv st = m_wait_for_ttv st0
     \<and> m_push_on_ttv st = m_push_on_ttv st0 \<and> m_use_upstream_sri st = m_use_upstream_sri st0
     \<and> m_non_conforming_device st = m_non_conforming_device st0"

definition stream_phase :: "'a processor \<Rightarrow> SDDSpacket \<Rightarrow> SDDSpacket list \<Rightarrow> 'a processor \<Rightarrow> bool" where
  "stream_phase st0 first ps st \<longleftrightarrow> ps = [] \<and> not_begun st0 st \<or> (\<exists>a. entered st0 first a \<and> stream_kept a ps st)"

lemma not_begun_same:
  assumes "not_begun st0 st"
  shows "alike st = alike st0" "can_begin st = can_begin st0" "entered st pkt a = entered st0 pkt a"
  using assms by (simp_all add: not_begun_def alike_def can_begin_def entered_def fun_eq_iff)

lemma phase_head:
  assumes "entered st0 first a" "stream_kept a ps st" "alike st0 first pkt" "get_seq pkt = (next_seq ^^ length ps) (get_seq first)"
  shows "fits a pkt" "get_seq pkt = (next_seq ^^ length ps) (m_expected_seq_number a)"
    "streaming st" "fits st pkt" "get_seq pkt = m_expected_seq_number st"
  using assms by (auto simp: entered_def stream_kept_def same_stream_def)

text \<open>One step with a packet at the head of the work queue.\<close>

lemma phase_packet:
  assumes phase: "stream_phase st0 first ps st" and can: "can_begin st0 first" and alike: "alike st0 first (mem p)"
    and seq: "get_seq (mem p) = (next_seq ^^ length ps) (get_seq first)" and head: "ps = [] \<Longrightarrow> mem p = first"
    and packet: "process_packet P p mem st = res"
  obtains mem' st' where "res = Inr (Recycle, mem', st')" "stream_phase st0 first (ps @ [mem p]) st'"
  | st' where "ps = []" "res = Inr (Refill, mem, st')" "stream_phase st0 first ps st'"
proof -
  note recycle = that(1) and refill = that(2)
  have inside: thesis if a: "entered st0 first a" "stream_kept a ps b" and eq: "process_packet P p mem b = res" for a b
  proof -
    note h = phase_head [OF a alike seq]
    obtain st' where r: "res = Inr (Recycle, swapped_store b p mem, st')"
      using process_packet_streaming [where st = b and mem = mem and p = p and P = P, OF h(3,4,5)] eq by metis
    from stream_kept_packet [where P = P and mem = mem and p = p, OF a(2) h(1,2)] eq r have "stream_kept a (ps @ [mem p]) st'" by blast
    then show thesis using recycle [OF r] a(1) by (auto simp: stream_phase_def)
  qed
  show thesis
    using phase unfolding stream_phase_def
  proof (elim disjE conjE exE)
    assume ps: "ps = []" and nb: "not_begun st0 st"
    have f: "fresh st" "can_begin st (mem p)" using nb can head [OF ps] not_begun_same [OF nb] by (simp_all add: not_begun_def)
    obtain a where a: "entered st (mem p) a"
      "process_packet P p mem st = Inr (Refill, mem, a) \<or> process_packet P p mem st = process_packet P p mem a"
      using first_packet_enters [where mem = mem and p = p, OF f] by blast
    have a0: "entered st0 first a" using a(1) not_begun_same(3) [OF nb] head [OF ps] by simp
    have kept: "stream_kept a ps a" using a0 by (simp add: ps stream_kept_Nil entered_def)
    from a(2) show thesis
    proof
      assume "process_packet P p mem st = Inr (Refill, mem, a)"
      then show thesis using refill [OF ps, of a] packet a0 kept by (auto simp: stream_phase_def)
    next
      assume "process_packet P p mem st = process_packet P p mem a"
      then show thesis using inside [OF a0 kept] packet by simp
    qed
  next
    fix a assume "entered st0 first a" "stream_kept a ps st"
    then show thesis using inside packet by blast
  qed
qed

lemma phase_control:
  assumes "stream_phase st0 first ps st"
  shows "stream_phase st0 first ps (run_begin st)" "stream_phase st0 first ps (shutDown st)"
proof -
  have nb: "not_begun st0 st \<Longrightarrow> not_begun st0 (run_begin st) \<and> not_begun st0 (shutDown st)"
    by (auto simp: not_begun_def fresh_def run_begin_def shutDown_def proc_ok_def coherent_def)
  have "stream_kept a ps (run_begin st) \<and> stream_kept a ps (shutDown st)" if "stream_kept a ps st" for a
  proof -
    have "proc_ok st" using that by (simp add: stream_kept_def same_stream_def streaming_def)
    then show ?thesis
      using stream_kept_same [OF that] by (auto simp: run_begin_def shutDown_def fits_def proc_ok_def coherent_def)
  qed
  then show "stream_phase st0 first ps (run_begin st)" "stream_phase st0 first ps (shutDown st)"
    using assms nb by (auto simp: stream_phase_def)
qed

lemma phase_step:
  assumes step: "sys_step P c s ev s'" and phase: "stream_phase st0 first ps (sy_proc s)" and ev: "ev \<noteq> Sri"
    and "end": "sy_ppc s' \<noteq> PDone"
    and head: "\<And>p work. sy_work s = p # work \<Longrightarrow> can_begin st0 first \<and> alike st0 first (sy_mem s p)
      \<and> get_seq (sy_mem s p) = (next_seq ^^ length ps) (get_seq first) \<and> (ps = [] \<longrightarrow> sy_mem s p = first)"
    and ok: "\<not> (\<exists>e. sy_ppc s = PFault e)"
  shows "stream_phase st0 first (ps @ handled [ev]) (sy_proc s') \<and> \<not> (\<exists>e. sy_ppc s' = PFault e)"
proof -
  have packet: "(\<exists>mem' st'. res = Inr (Recycle, mem', st') \<and> stream_phase st0 first (ps @ [sy_mem s p]) st')
      \<or> (\<exists>st'. res = Inr (Refill, sy_mem s, st') \<and> stream_phase st0 first ps st')"
    if "sy_work s = p # work" "process_packet P p (sy_mem s) (sy_proc s) = res" for p work res
    using phase_packet [where mem = "sy_mem s" and p = p, OF phase _ _ _ _ that(2)] head [OF that(1)] by metis
  show ?thesis
    using step
  proof (cases rule: sys_step.cases)
    case (proc_handles p work mem st)
    from packet [OF proc_handles(4,5)] ok show ?thesis by (simp add: proc_handles)
  next
    case (proc_returns p work mem st)
    from packet [OF proc_returns(4,5)] show ?thesis by (simp add: proc_returns)
  next
    case (proc_fails p work e)
    from packet [OF proc_fails(4,5)] show ?thesis by simp
  next
    case stops
    then show ?thesis using phase_control [OF phase] phase ok by (auto simp: stop_step_def split: stop_pc.splits)
  qed (use phase phase_control [OF phase] ok ev "end" in simp_all)
qed


text \<open>Any number of steps.\<close>

lemma phase_run:
  assumes "sys_run P c s0 evs s" "sys_inv base capacity n np s0" "running s" "sy_ppc s \<noteq> PDone"
    "Sri \<notin> set evs" "arrived evs \<noteq> [] \<longrightarrow> can_begin st first \<and> hd (arrived evs) = first"
    "\<forall>pkt \<in> set (arrived evs). alike st first pkt" "in_sequence (get_seq first) (arrived evs)"
    "waiting s0 = []" "not_begun st (sy_proc s0)" "\<not> (\<exists>e. sy_ppc s0 = PFault e)"
  shows "stream_phase st first (handled evs) (sy_proc s) \<and> \<not> (\<exists>e. sy_ppc s = PFault e)"
  using assms
proof (induction rule: sys_run.induct)
  case run_start
  then show ?case by (simp add: stream_phase_def)
next
  case (run_step evs s ev s')
  have before: "running s" "sy_ppc s \<noteq> PDone"
    using step_keeps_flag step_not_done run_step.hyps(2) run_step.prems(2,3) by blast+
  have all: "arrived evs = handled evs @ waiting s"
    using run_keeps [OF run_step.hyps(1) run_step.prems(1) before(1)] before(2) run_step.prems(8) by simp
  have pre: "arrived evs \<noteq> [] \<longrightarrow> can_begin st first \<and> hd (arrived evs) = first" "\<forall>pkt \<in> set (arrived evs). alike st first pkt"
    "in_sequence (get_seq first) (arrived evs)"
    using run_step.prems(5,6,7) by (cases "arrived evs"; simp add: in_sequence_append)+
  have ih: "stream_phase st first (handled evs) (sy_proc s)" "\<not> (\<exists>e. sy_ppc s = PFault e)"
    using run_step.IH [OF run_step.prems(1) before _ pre run_step.prems(8-10)] run_step.prems(4) by simp_all
  have head: "can_begin st first \<and> alike st first (sy_mem s p) \<and> get_seq (sy_mem s p) = (next_seq ^^ length (handled evs)) (get_seq first)
      \<and> (handled evs = [] \<longrightarrow> sy_mem s p = first)" if "sy_work s = p # work" for p work
  proof -
    have w: "arrived evs = handled evs @ sy_mem s p # map (sy_mem s) (work @ buf_full (sy_buf s))"
      unfolding all by (simp add: waiting_def that)
    have "alike st first (sy_mem s p)" using pre(2) unfolding w by simp
    moreover have "get_seq (sy_mem s p) = (next_seq ^^ length (handled evs)) (get_seq first)"
      using pre(3) unfolding w in_sequence_append by simp
    ultimately show ?thesis using pre(1) unfolding w by auto
  qed
  have "ev \<noteq> Sri" using run_step.prems(4) by auto
  from phase_step [OF run_step.hyps(2) ih(1) this run_step.prems(3) head ih(2)] show ?case by simp
qed

lemma started_phase:
  assumes "start_ok n np mem r st" "sys_run P c (started base capacity mem r st) evs s"
    "running s" "sy_ppc s \<noteq> PDone" "Sri \<notin> set evs" "fresh st" "a_stream st (arrived evs)"
  shows "stream_phase st (hd (arrived evs)) (handled evs) (sy_proc s)" "\<not> proc_ended s"
    "arrived evs = handled evs @ waiting s" "sys_inv base capacity n np s"
proof -
  note start = started_inv [OF assms(1), where base = base and capacity = capacity]
  have "not_begun st (sy_proc (started base capacity mem r st))" using assms(6) by (simp add: started_def not_begun_def)
  then have "stream_phase st (hd (arrived evs)) (handled evs) (sy_proc s) \<and> \<not> (\<exists>e. sy_ppc s = PFault e)"
    using phase_run [where st = st and first = "hd (arrived evs)", OF assms(2) start(1) assms(3-5)] assms(7) start(2) by (simp add: started_def a_stream_def)
  then show "stream_phase st (hd (arrived evs)) (handled evs) (sy_proc s)" "\<not> proc_ended s"
    using assms(4) by (simp_all add: proc_ended_def)
  show "arrived evs = handled evs @ waiting s" "sys_inv base capacity n np s"
    using run_keeps [OF assms(2) start(1) assms(3)] start(2) assms(4) by simp_all
qed

text \<open>What a processor has called that was started as \<open>st\<close> and has handled \<open>ps\<close>.\<close>

definition streamed :: "'a processor \<Rightarrow> SDDSpacket list \<Rightarrow> 'a processor \<Rightarrow> bool" where
  "streamed st ps st' \<longleftrightarrow> m_pkts_dropped st' = m_pkts_dropped st
     \<and> (\<exists>cs Ts. list_all (\<lambda>c. written c = None) cs \<and> list_all2 stamped ps Ts
         \<and> m_calls st' = m_calls st @ cs @ spec_writes (m_endianness st) (getBps (hd ps)) ps Ts)"

lemma phase_streamed:
  assumes "stream_phase st first ps st'" "ps \<noteq> [] \<longrightarrow> hd ps = first"
  shows "streamed st ps st'"
  using assms(1) unfolding stream_phase_def
proof (elim disjE conjE exE)
  assume "ps = []" "not_begun st st'"
  then show ?thesis unfolding streamed_def by (intro conjI exI [of _ "[]"]) (simp_all add: not_begun_def spec_writes_def)
next
  fix a assume a: "entered st first a" "stream_kept a ps st'"
  obtain cs where cs: "m_calls a = m_calls st @ cs" "list_all (\<lambda>c. written c = None) cs"
    using a(1) by (auto simp: entered_def)
  obtain Ts where Ts: "list_all2 stamped ps Ts" "m_calls st' = m_calls a @ spec_writes (m_endianness st) (m_bps a) ps Ts"
    using a by (auto simp: entered_def stream_kept_def)
  have "spec_writes e (m_bps a) ps Ts = spec_writes e (getBps (hd ps)) ps Ts" for e
    using a(1) assms(2) by (cases ps) (simp_all add: entered_def spec_writes_def)
  then have "m_calls st' = m_calls st @ cs @ spec_writes (m_endianness st) (getBps (hd ps)) ps Ts"
    using cs(1) Ts(2) by simp
  then show ?thesis
    using a cs(2) Ts(1) by (auto simp: streamed_def entered_def stream_kept_def same_stream_def)
qed

section \<open>Properties\<close>

text \<open>An undisturbed stream: let a component that was just started, with no new upstream SRI pending
  and none attached or detached on the way, receive packets whose sequence numbers follow each other,
  with the same rate and flags, that can begin a stream; complex data only with an upstream SRI or
  from a device known not to conform. Then over every interleaving, while the buffer and the processor
  run, all it has sent is first some calls that carry no data, and then nothing but the writes of the
  packets handled, in order, with their time stamps and in the byte order of the beginning; none is
  counted as dropped, and the processor does not fault.\<close>

theorem stream_is_uninterrupted:
  assumes "start_ok n np mem r st" "sys_run P c (started base capacity mem r st) evs s"
    "\<not> buf_shuttingDown (sy_buf s)" "sy_ppc s \<noteq> PDone" "Sri \<notin> set evs" "fresh st" "a_stream st (arrived evs)"
  shows "arrived evs = handled evs @ waiting s \<and> streamed st (handled evs) (sy_proc s) \<and> \<not> proc_ended s"
proof -
  have run: "running s" using assms(3) by (simp add: running_def)
  note phase = started_phase [OF assms(1,2) run assms(4-7)]
  have "handled evs \<noteq> [] \<longrightarrow> hd (handled evs) = hd (arrived evs)" using phase(3) by simp
  then show ?thesis using phase_streamed [OF phase(1)] phase(2,3) by simp
qed

lemma stream_is_uninterrupted_witness:
  "\<exists>evs s cs T. sys_run sample_platform False (started 0 4 (\<lambda>_. blank_packet) new_reader one_fresh) evs s
    \<and> handled evs = [sample_packet] \<and> list_all (\<lambda>c. written c = None) cs \<and> stamped sample_packet T
    \<and> m_calls (sy_proc s) = cs @ [WriteShort (be_shorts (pkt_d sample_packet)) T]"
proof -
  obtain evs s where s: "sys_run sample_platform False (started 0 4 (\<lambda>_. blank_packet) new_reader one_fresh) evs s"
    "running s" "sy_ppc s \<noteq> PDone" "arrived evs = [sample_packet]" "handled evs = [sample_packet]" "Sri \<notin> set evs"
    by (rule one_handled)
  have run: "\<not> buf_shuttingDown (sy_buf s)" using s(2) by (simp add: running_def)
  have st: "fresh one_fresh" "m_endianness one_fresh = BIG_ENDIAN_STR"
    using sample_ok by (simp_all add: one_fresh_def fresh_def sample_defs proc_ok_def coherent_def endian_defs)
  have "alike one_fresh sample_packet sample_packet" by (simp add: alike_def one_fresh_ok)
  moreover have "\<not> pkt_cx sample_packet" "pkt_freq sample_packet \<noteq> 0"
    by (simp_all add: sample_packet_def net64.swap_eq_0)
  ultimately have "a_stream one_fresh (arrived evs)"
    by (simp add: s(4) a_stream_def can_begin_def sample_packet_bps bps_ok_iff)
  from stream_is_uninterrupted [OF one_fresh_ok(1) s(1) run s(3,6) st(1) this]
  obtain cs T where "list_all (\<lambda>c. written c = None) cs" "stamped sample_packet T"
    "m_calls (sy_proc s) = cs @ [WriteShort (be_shorts (pkt_d sample_packet)) T]"
    by (auto simp: streamed_def s(5) list_all2_Cons1 spec_writes_def spec_write_def sample_packet_bps st(2) one_fresh_ok)
  with s(1,5) show ?thesis by blast
qed

end
