(* ===== verification/Connection.thy ===== *)
theory Connection
  imports Socket_Reader C_Strings
begin

text \<open>
  Opening the socket: \<open>SocketReader::setConnectionInfo\<close> and \<open>getMcastIfaceFromRoutes\<close>, and the files
  \<open>multicast.cpp\<close> and \<open>unicast.cpp\<close> of \<open>socketUtils\<close>. The results of the system calls are the fields
  of a record; the contents of \<open>/proc/net/route\<close> is an argument.
\<close>

section \<open>The network\<close>

record device =
  dev_name :: string
  dev_addr :: u32

text \<open>
  The results of \<open>socket\<close>, of \<open>setsockopt\<close> for the address reuse, of \<open>malloc\<close>, the devices
  \<open>SIOCGIFCONF\<close> lists, for each device its flags and index, whether it can be set for multicast,
  bound and joined; the conversions of addresses from text. Each device is tried at most once, so what a call answers
  for a device is a function of the device, also where it depends on the devices tried before.
\<close>

record network =
  nt_socket :: int
  nt_reuse :: bool
  nt_alloc :: bool
  nt_devices :: "device list option"
  nt_flags :: "device \<Rightarrow> u32 option"
  nt_index :: "device \<Rightarrow> int option"
  nt_mcast_if :: "device \<Rightarrow> bool"
  nt_bind :: "device \<Rightarrow> u32 \<Rightarrow> bool"
  nt_join :: "device \<Rightarrow> bool"
  nt_aton :: "string \<Rightarrow> u32 option"
  nt_addr :: "string \<Rightarrow> u32"
  nt_network :: "string \<Rightarrow> u32"

text \<open>The exceptions; \<open>Terminate\<close> is the call of \<open>std::unexpected\<close> for one a \<open>throw\<close> clause does not list.\<close>

datatype net_error = BadParameterError | BadParameterError3 | Terminate

text \<open>\<open>multicast_t\<close> and \<open>unicast_t\<close>: the descriptor and the address.\<close>

record conn =
  cn_sock :: int
  cn_addr :: u32
  cn_port :: u16

definition no_conn :: conn where "no_conn = \<lparr>cn_sock = 0, cn_addr = 0, cn_port = 0\<rparr>"

section \<open>Choosing a device\<close>

text \<open>An interface that starts with a dot asks for any device with that VLAN.\<close>

definition vlan_match :: "string \<Rightarrow> string \<Rightarrow> bool" where
  "vlan_match iface name \<longleftrightarrow> iface \<noteq> [] \<and> hd iface = CHR ''.'' \<and> length iface \<le> length name
     \<and> drop (length name - length iface) name = iface"

definition device_match :: "string \<Rightarrow> device \<Rightarrow> bool" where
  "device_match iface d \<longleftrightarrow> iface = [] \<or> vlan_match iface (dev_name d) \<or> iface = dev_name d"

text \<open>The name that is reported back: the device's without its VLAN.\<close>

definition base_name :: "string \<Rightarrow> string" where
  "base_name = takeWhile (\<lambda>c. c \<noteq> CHR ''.'')"

definition IFF_UP :: u32 where "IFF_UP = 1"
definition IFF_LOOPBACK :: u32 where "IFF_LOOPBACK = 8"
definition IFF_MULTICAST :: u32 where "IFF_MULTICAST = 0x1000"

section \<open>Multicast\<close>

text \<open>One attempt: the body of the \<open>try\<close>. The flag tells whether it ran to its end.\<close>

definition joins :: "u32 \<Rightarrow> bool" where
  "joins g \<longleftrightarrow> \<not> (g AND 0xFF < 224) \<or> 239 < g AND 0xFF"

definition multicast_try :: "network \<Rightarrow> string \<Rightarrow> string \<Rightarrow> u16 \<Rightarrow> device \<Rightarrow> conn \<Rightarrow> conn \<times> bool" where
  "multicast_try N iface grp port d c = (case nt_flags N d of None \<Rightarrow> (c, False)
     | Some flags \<Rightarrow>
       if flags AND IFF_UP = 0 \<or> flags AND IFF_LOOPBACK \<noteq> 0 \<or> flags AND IFF_MULTICAST = 0 then (c, False)
       else if iface = [] then
         (case nt_aton N grp of None \<Rightarrow> (c, False)
          | Some g \<Rightarrow> if \<not> nt_mcast_if N d then (c, False)
              else let c = c\<lparr>cn_addr := 0, cn_port := port\<rparr> in
                if \<not> nt_bind N d 0 then (c, False) else (c, joins g \<longrightarrow> nt_join N d))
       else (case nt_index N d of None \<Rightarrow> (c, False)
         | Some i \<Rightarrow> (case nt_aton N grp of None \<Rightarrow> (c, False)
            | Some g \<Rightarrow> if \<not> nt_mcast_if N d then (c, False)
                else let c = c\<lparr>cn_addr := g, cn_port := port\<rparr> in
                  if \<not> nt_bind N d g then (c, False) else (c, joins g \<longrightarrow> nt_join N d))))"

fun multicast_loop :: "network \<Rightarrow> string \<Rightarrow> string \<Rightarrow> u16 \<Rightarrow> device list \<Rightarrow> conn \<Rightarrow> conn \<times> string option" where
  "multicast_loop N iface grp port [] c = (c, None)"
| "multicast_loop N iface grp port (d # ds) c =
     (if device_match iface d then
        (case multicast_try N iface grp port d c of (c, ok) \<Rightarrow>
           if ok then (c, Some (base_name (dev_name d))) else multicast_loop N iface grp port ds c)
      else multicast_loop N iface grp port ds c)"

text \<open>The connection and the chosen interface, which stays as it was when no device is found.\<close>

definition multicast_open :: "network \<Rightarrow> string \<Rightarrow> string \<Rightarrow> u16 \<Rightarrow> net_error + conn \<times> string" where
  "multicast_open N iface grp port =
     (if nt_socket N < 0 \<or> \<not> nt_reuse N \<or> \<not> nt_alloc N then Inl BadParameterError
      else case nt_devices N of None \<Rightarrow> Inl BadParameterError
        | Some ds \<Rightarrow> (case multicast_loop N iface grp port ds (no_conn\<lparr>cn_sock := nt_socket N\<rparr>) of
            (c, Some chosen) \<Rightarrow> Inr (c, chosen)
          | (c, None) \<Rightarrow> Inr (c\<lparr>cn_sock := - 1\<rparr>, iface)))"

definition multicast_client :: "network \<Rightarrow> string \<Rightarrow> string \<Rightarrow> u16 \<Rightarrow> net_error + conn \<times> string" where
  "multicast_client = multicast_open"

section \<open>Unicast\<close>

definition any_ip :: "network \<Rightarrow> string \<Rightarrow> bool" where
  "any_ip N ip \<longleftrightarrow> nt_addr N ip = 0"

definition unicast_match :: "network \<Rightarrow> string \<Rightarrow> string \<Rightarrow> device \<Rightarrow> bool" where
  "unicast_match N iface ip d \<longleftrightarrow> (any_ip N ip \<or> nt_addr N ip = dev_addr d) \<and> device_match iface d"

definition unicast_try :: "network \<Rightarrow> string \<Rightarrow> u16 \<Rightarrow> device \<Rightarrow> conn \<Rightarrow> conn \<times> bool" where
  "unicast_try N ip port d c = (case nt_flags N d of None \<Rightarrow> (c, False)
     | Some flags \<Rightarrow> if flags AND IFF_UP = 0 then (c, False)
       else case nt_index N d of None \<Rightarrow> (c, False)
         | Some i \<Rightarrow> let c = c\<lparr>cn_addr := nt_addr N ip, cn_port := port\<rparr> in (c, nt_bind N d (nt_addr N ip)))"

definition unicast_name :: "network \<Rightarrow> string \<Rightarrow> string \<Rightarrow> device \<Rightarrow> string" where
  "unicast_name N iface ip d = (if iface = [] \<and> any_ip N ip then ''ALL'' else base_name (dev_name d))"

fun unicast_loop :: "network \<Rightarrow> string \<Rightarrow> string \<Rightarrow> u16 \<Rightarrow> device list \<Rightarrow> conn \<Rightarrow> conn \<times> string option" where
  "unicast_loop N iface ip port [] c = (c, None)"
| "unicast_loop N iface ip port (d # ds) c =
     (if unicast_match N iface ip d then
        (case unicast_try N ip port d c of (c, ok) \<Rightarrow>
           if ok then (c, Some (unicast_name N iface ip d)) else unicast_loop N iface ip port ds c)
      else unicast_loop N iface ip port ds c)"

definition unicast_open :: "network \<Rightarrow> string \<Rightarrow> string \<Rightarrow> u16 \<Rightarrow> net_error + conn \<times> string" where
  "unicast_open N iface ip port =
     (if nt_socket N < 0 \<or> \<not> nt_reuse N \<or> \<not> nt_alloc N then Inl BadParameterError3
      else case nt_devices N of None \<Rightarrow> Inl BadParameterError3
        | Some ds \<Rightarrow> (case unicast_loop N iface ip port ds (no_conn\<lparr>cn_sock := nt_socket N\<rparr>) of
            (c, Some chosen) \<Rightarrow> Inr (c, chosen)
          | (c, None) \<Rightarrow> Inr (c\<lparr>cn_sock := - 1\<rparr>, iface)))"

text \<open>The client is declared to throw \<open>BadParameterError\<close> only.\<close>

definition unicast_client :: "network \<Rightarrow> string \<Rightarrow> string \<Rightarrow> u16 \<Rightarrow> net_error + conn \<times> string" where
  "unicast_client N iface ip port = (case unicast_open N iface ip port of
       Inl BadParameterError3 \<Rightarrow> Inl Terminate | r \<Rightarrow> r)"

text \<open>
  The other clients of the sockets. \<open>ttl_ok\<close> is whether the time to live can be set, \<open>polled\<close> the
  result of \<open>poll\<close>, \<open>recv\<close> that of the call with these flags; the time-out is an unsigned number
  that is passed as an \<open>int\<close>.
\<close>

definition multicast_server ::
    "network \<Rightarrow> bool \<Rightarrow> string \<Rightarrow> string \<Rightarrow> u16 \<Rightarrow> net_error + conn \<times> string" where
  "multicast_server N ttl_ok iface grp port = (case multicast_open N iface grp port of
       Inl e \<Rightarrow> Inl e
     | Inr (c, name) \<Rightarrow> if cn_sock c \<noteq> - 1 \<and> \<not> ttl_ok then Inl BadParameterError else Inr (c, name))"

definition unicast_server ::
    "network \<Rightarrow> bool \<Rightarrow> string \<Rightarrow> string \<Rightarrow> u16 \<Rightarrow> net_error + conn \<times> string" where
  "unicast_server N ttl_ok iface ip port = (case unicast_open N iface ip port of
       Inl e \<Rightarrow> Inl e
     | Inr (c, name) \<Rightarrow> if cn_sock c \<noteq> - 1 \<and> \<not> ttl_ok then Inl BadParameterError3 else Inr (c, name))"

definition MSG_DONTWAIT :: int where "MSG_DONTWAIT = 0x40"
definition MSG_WAITALL :: int where "MSG_WAITALL = 0x100"

definition unicast_poll_in :: "int \<Rightarrow> int \<Rightarrow> net_error + int" where
  "unicast_poll_in polled to_in_msecs =
     (if 0 < to_in_msecs then
        (if 0 < polled then Inr MSG_DONTWAIT else if polled < 0 then Inl BadParameterError3 else Inr 0)
      else if to_in_msecs = 0 then Inr MSG_DONTWAIT else Inr MSG_WAITALL)"

definition unicast_receive :: "(int \<Rightarrow> int) \<Rightarrow> int \<Rightarrow> u32 \<Rightarrow> net_error + int" where
  "unicast_receive recv polled to_in_msecs = (case unicast_poll_in polled (sint to_in_msecs) of
       Inl e \<Rightarrow> Inl e | Inr flags \<Rightarrow> Inr (if flags \<noteq> 0 then recv flags else 0))"

text \<open>A time-out above the largest \<open>int\<close> waits for ever instead.\<close>

lemma long_timeout_waits:
  "0x80000000 \<le> to_in_msecs \<Longrightarrow> unicast_receive recv polled to_in_msecs = Inr (recv MSG_WAITALL)"
proof -
  assume "0x80000000 \<le> to_in_msecs"
  then have "2147483648 \<le> unat to_in_msecs" by (simp add: word_le_nat_alt)
  moreover have "unat to_in_msecs < 2 * 2147483648" using unsigned_less [of to_in_msecs] by simp
  ultimately have "unat to_in_msecs div 2 ^ 31 = 1" by (simp add: div_nat_eqI)
  then have "bit (unat to_in_msecs) 31" by (simp add: bit_iff_odd)
  then have "bit to_in_msecs 31" by (simp add: bit_unsigned_iff)
  then have "sint to_in_msecs < 0" by (simp add: sint_uint signed_take_bit_negative_iff bit_unsigned_iff)
  then show ?thesis by (simp add: unicast_receive_def unicast_poll_in_def MSG_WAITALL_def)
qed

section \<open>The routing table\<close>

text \<open>
  Reading from the \<open>stringstream\<close>. Extracting a number in hexadecimal skips white space and takes
  the digits that follow: it succeeds, meets the end of the text before the first digit, or fails
  otherwise (no digit, or a value of more than 32 bits). A sign or a prefix \<open>0x\<close> is not considered: the kernel prints neither.
\<close>

datatype extraction = Got u32 string | AtEnd | Bad

definition get_hex :: "string \<Rightarrow> extraction" where
  "get_hex t = (let t = dropWhile c_isspace t; digits = takeWhile c_isxdigit t in
     if t = [] then AtEnd
     else if digits = [] \<or> 2 ^ 32 \<le> int (xdigits_value digits) then Bad
     else Got (of_nat (xdigits_value digits)) (dropWhile c_isxdigit t))"

text \<open>The five columns that are read into \<open>trash\<close>; None when the text ends before.\<close>

fun skip_words :: "nat \<Rightarrow> string \<Rightarrow> string option" where
  "skip_words 0 t = Some t"
| "skip_words (Suc n) t = (case next_word t of (w, t) \<Rightarrow> if w = [] then None else skip_words n t)"

text \<open>\<open>ignore\<close> up to and including the end of the line.\<close>

definition next_line :: "string \<Rightarrow> string" where
  "next_line t = tl (dropWhile (\<lambda>c. c \<noteq> CHR ''\<newline>'') t)"

text \<open>
  The columns of one row: the new destination and mask, and the rest of the text. At the end of
  the text the variables keep their values and the stream is at its end; None when an extraction
  fails before: then no later one succeeds, the end is never reached, and the loop does not end.
\<close>

definition row_columns :: "string \<Rightarrow> u32 \<Rightarrow> u32 \<Rightarrow> (u32 \<times> u32 \<times> string) option" where
  "row_columns t dest netmask = (case get_hex t of
       Bad \<Rightarrow> None
     | AtEnd \<Rightarrow> Some (dest, netmask, [])
     | Got dest t \<Rightarrow> (case skip_words 5 t of None \<Rightarrow> Some (dest, netmask, [])
         | Some t \<Rightarrow> (case get_hex t of Bad \<Rightarrow> None
             | AtEnd \<Rightarrow> Some (dest, netmask, [])
             | Got netmask t \<Rightarrow> Some (dest, netmask, t))))"

definition better_route :: "u32 \<Rightarrow> u32 \<Rightarrow> u32 \<Rightarrow> u32 \<Rightarrow> bool" where
  "better_route group_hex dest netmask mask_match \<longleftrightarrow> mask_match \<le> netmask \<and> dest = group_hex AND netmask"

lemma next_word_shorter: "next_word t = (w, r) \<Longrightarrow> length r \<le> length t"
  unfolding next_word_def Let_def by (metis Pair_inject length_dropWhile_le order_trans)

lemma next_word_consumes: "next_word t = (w, r) \<Longrightarrow> w \<noteq> [] \<Longrightarrow> length r < length t"
proof -
  assume a: "next_word t = (w, r)" "w \<noteq> []"
  let ?t = "dropWhile c_isspace t"
  have w: "w = takeWhile (\<lambda>c. \<not> c_isspace c) ?t" "r = dropWhile (\<lambda>c. \<not> c_isspace c) ?t"
    using a(1) by (simp_all add: next_word_def Let_def)
  have "length ?t = length w + length r" unfolding w by (metis length_append takeWhile_dropWhile_id)
  then show ?thesis using a(2) length_dropWhile_le [of c_isspace t] by (cases w) auto
qed

lemma get_hex_shorter: "get_hex t = Got d r \<Longrightarrow> length r \<le> length t"
  by (auto simp: get_hex_def Let_def split: if_splits) (metis length_dropWhile_le order_trans)

lemma skip_words_shorter: "skip_words n t = Some r \<Longrightarrow> length r \<le> length t"
  by (induction n t rule: skip_words.induct)
    (auto split: prod.splits if_splits dest: next_word_shorter)

lemma row_columns_shorter: "row_columns t d m = Some (d', m', r) \<Longrightarrow> length r \<le> length t"
  by (auto simp: row_columns_def split: extraction.splits option.splits)
    (meson get_hex_shorter le_trans skip_words_shorter)

lemma next_line_shorter: "length (next_line t) \<le> length t"
  unfolding next_line_def using length_dropWhile_le [of "\<lambda>c. c \<noteq> CHR ''\<newline>''" t] by simp

lemma row_consumes:
  assumes "(iface, t') = next_word t" "iface \<noteq> [] \<and> t' \<noteq> []" "row_columns t' d m = Some cols"
    "(d', cols') = cols" "(m', r) = cols'"
  shows "length (next_line r) < length t"
  using next_word_consumes [of t iface t'] row_columns_shorter [of t' d m d' m' r] next_line_shorter [of r]
    assms by simp

function route_loop ::
    "u32 \<Rightarrow> string \<Rightarrow> u32 \<Rightarrow> u32 \<Rightarrow> string \<Rightarrow> u32 \<Rightarrow> string option" where
  "route_loop group_hex t dest netmask iface_match mask_match = (case next_word t of (iface, t') \<Rightarrow>
     if iface = [] \<or> t' = [] then Some iface_match
     else (case row_columns t' dest netmask of None \<Rightarrow> None
       | Some (dest, netmask, t'') \<Rightarrow>
           if better_route group_hex dest netmask mask_match
           then route_loop group_hex (next_line t'') dest netmask iface netmask
           else route_loop group_hex (next_line t'') dest netmask iface_match mask_match))"
  by pat_completeness auto

termination
  by (relation "measure (\<lambda>(_, t, _). length t)") (simp_all, (erule (4) row_consumes)+)

declare route_loop.simps [simp del]

text \<open>
  \<open>file\<close> is what can be read of \<open>/proc/net/route\<close> (None when it cannot be opened), \<open>dest\<close> and \<open>netmask\<close>
  what the variables hold before they are assigned. The result None: the loop does not end.
\<close>

definition getMcastIfaceFromRoutes ::
    "network \<Rightarrow> u32 \<Rightarrow> u32 \<Rightarrow> string option \<Rightarrow> string \<Rightarrow> string option" where
  "getMcastIfaceFromRoutes N dest netmask file grp = (case file of None \<Rightarrow> Some []
     | Some contents \<Rightarrow> let buffer = take 1048576 contents in
         if buffer = [] then Some []
         else route_loop (nt_addr N grp) (next_line buffer) dest netmask [] 0)"

section \<open>Setting the connection\<close>

definition takes_multicast :: "network \<Rightarrow> string \<Rightarrow> bool" where
  "takes_multicast N ip \<longleftrightarrow> nt_network N ''224.0.0.0'' \<le> nt_network N ip
     \<and> nt_addr N ip \<le> nt_network N ''239.255.255.255''"

definition vlan_interface :: "string \<Rightarrow> u16 \<Rightarrow> string" where
  "vlan_interface interface vlan =
     (if vlan \<noteq> 0 then interface @ ''.'' @ decimal (unat vlan) else interface)"

text \<open>The descriptors the reader holds: those that are closed before a new one is opened.\<close>

definition open_socks :: "reader \<Rightarrow> int list" where
  "open_socks r = (if r_multicast_sock r \<noteq> 0 then [r_multicast_sock r] else [])
     @ (if r_unicast_sock r \<noteq> 0 then [r_unicast_sock r] else [])"

definition no_socks :: "reader \<Rightarrow> reader" where
  "no_socks r = r\<lparr>r_multicast_sock := 0, r_unicast_sock := 0\<rparr>"

text \<open>What follows the client: the socket is tested and the interface stored.\<close>

definition finish_connection :: "string \<Rightarrow> reader \<Rightarrow> net_error option \<times> reader" where
  "finish_connection interface r =
     (if (if r_multicast_sock r \<noteq> 0 then r_multicast_sock r else r_unicast_sock r) < 0
      then (Some BadParameterError, no_socks r)
      else (None, r\<lparr>r_interface := interface\<rparr>))"

text \<open>
  The result: the exception if any, the reader, and the closed descriptors; None when the search
  for a route does not end.
\<close>

definition setConnectionInfo ::
    "network \<Rightarrow> (string \<Rightarrow> string option) \<Rightarrow> string \<Rightarrow> string \<Rightarrow> u16 \<Rightarrow> u16 \<Rightarrow> reader
      \<Rightarrow> (net_error option \<times> reader \<times> int list) option" where
  "setConnectionInfo N route interface ip vlan port r =
     (if r_running r then Some (None, r, [])
      else if ip = [] then Some (Some BadParameterError, r, [])
      else let closed = open_socks r; r = no_socks r; interface = vlan_interface interface vlan in
        if takes_multicast N ip then
          (case (if interface = [] then route ip else Some interface) of None \<Rightarrow> None
           | Some interface \<Rightarrow> Some (case multicast_client N interface ip port of
                Inl e \<Rightarrow> (Some e, r, closed)
              | Inr (c, interface) \<Rightarrow>
                  (case finish_connection interface (r\<lparr>r_multicast_sock := cn_sock c\<rparr>) of
                     (e, r) \<Rightarrow> (e, r, closed))))
        else Some (case unicast_client N interface ip port of
                Inl e \<Rightarrow> (Some e, r, closed)
              | Inr (c, interface) \<Rightarrow>
                  (case finish_connection interface (r\<lparr>r_unicast_sock := cn_sock c\<rparr>) of
                     (e, r) \<Rightarrow> (e, r, closed))))"

section \<open>The device that is opened\<close>

text \<open>What a device must offer, as one condition.\<close>

definition multicast_usable :: "network \<Rightarrow> string \<Rightarrow> string \<Rightarrow> device \<Rightarrow> bool" where
  "multicast_usable N iface grp d \<longleftrightarrow>
     (case nt_flags N d of None \<Rightarrow> False | Some f \<Rightarrow> bit f 0 \<and> \<not> bit f 3 \<and> bit f 12)
   \<and> (iface \<noteq> [] \<longrightarrow> nt_index N d \<noteq> None) \<and> nt_mcast_if N d
   \<and> (case nt_aton N grp of None \<Rightarrow> False
      | Some g \<Rightarrow> nt_bind N d (if iface = [] then 0 else g) \<and> (224 \<le> g AND 0xFF \<longrightarrow> nt_join N d))"

definition unicast_usable :: "network \<Rightarrow> string \<Rightarrow> device \<Rightarrow> bool" where
  "unicast_usable N ip d \<longleftrightarrow> (case nt_flags N d of None \<Rightarrow> False | Some f \<Rightarrow> bit f 0)
     \<and> nt_index N d \<noteq> None \<and> nt_bind N d (nt_addr N ip)"

lemma flag_bits:
  "f AND IFF_UP = 0 \<longleftrightarrow> \<not> bit f 0" "f AND IFF_LOOPBACK = 0 \<longleftrightarrow> \<not> bit f 3"
  "f AND IFF_MULTICAST = 0 \<longleftrightarrow> \<not> bit f 12"
  using and_exp_eq_0_iff_not_bit [of f 0] and_exp_eq_0_iff_not_bit [of f 3]
    and_exp_eq_0_iff_not_bit [of f 12]
  by (simp_all add: IFF_UP_def IFF_LOOPBACK_def IFF_MULTICAST_def)

lemma joins_iff: "joins g \<longleftrightarrow> 224 \<le> g AND 0xFF"
proof -
  have "224 \<le> x" if "239 < x" for x :: u32
    using that by (simp add: word_less_nat_alt word_le_nat_alt)
  then show ?thesis by (auto simp: joins_def not_less)
qed

lemma multicast_try_result:
  "multicast_try N iface grp port d c = (c', ok) \<Longrightarrow>
     (ok \<longleftrightarrow> multicast_usable N iface grp d) \<and> cn_sock c' = cn_sock c
     \<and> (ok \<longrightarrow> c' = c\<lparr>cn_addr := (if iface = [] then 0 else the (nt_aton N grp)), cn_port := port\<rparr>)"
  by (auto simp: multicast_try_def multicast_usable_def flag_bits joins_iff Let_def
      split: option.splits if_splits)

lemma unicast_try_result:
  "unicast_try N ip port d c = (c', ok) \<Longrightarrow>
     (ok \<longleftrightarrow> unicast_usable N ip d) \<and> cn_sock c' = cn_sock c
     \<and> (ok \<longrightarrow> c' = c\<lparr>cn_addr := nt_addr N ip, cn_port := port\<rparr>)"
  by (auto simp: unicast_try_def unicast_usable_def flag_bits Let_def split: option.splits if_splits)

lemma multicast_loop_finds:
  "multicast_loop N iface grp port ds c = (c', res) \<Longrightarrow>
     (case find (\<lambda>d. device_match iface d \<and> multicast_usable N iface grp d) ds of
        None \<Rightarrow> res = None \<and> cn_sock c' = cn_sock c
      | Some d \<Rightarrow> res = Some (base_name (dev_name d)) \<and> cn_sock c' = cn_sock c \<and> cn_port c' = port
          \<and> cn_addr c' = (if iface = [] then 0 else the (nt_aton N grp)))"
proof (induction N iface grp port ds c rule: multicast_loop.induct)
  case (2 N iface grp port d ds c)
  obtain c1 ok where "try": "multicast_try N iface grp port d c = (c1, ok)"
    by (cases "multicast_try N iface grp port d c")
  note r = multicast_try_result [OF "try"]
  show ?case
  proof (cases "device_match iface d \<and> ok")
    case True
    then show ?thesis using 2 "try" r by auto
  next
    case False
    then show ?thesis using 2 "try" r by (auto split: if_splits option.splits)
  qed
qed simp

lemma unicast_loop_finds:
  "unicast_loop N iface ip port ds c = (c', res) \<Longrightarrow>
     (case find (\<lambda>d. unicast_match N iface ip d \<and> unicast_usable N ip d) ds of
        None \<Rightarrow> res = None \<and> cn_sock c' = cn_sock c
      | Some d \<Rightarrow> res = Some (unicast_name N iface ip d) \<and> cn_sock c' = cn_sock c \<and> cn_port c' = port
          \<and> cn_addr c' = nt_addr N ip)"
proof (induction N iface ip port ds c rule: unicast_loop.induct)
  case (2 N iface ip port d ds c)
  obtain c1 ok where "try": "unicast_try N ip port d c = (c1, ok)" by (cases "unicast_try N ip port d c")
  note r = unicast_try_result [OF "try"]
  show ?case
  proof (cases "unicast_match N iface ip d \<and> ok")
    case True
    then show ?thesis using 2 "try" r by auto
  next
    case False
    then show ?thesis using 2 "try" r by (auto split: if_splits option.splits)
  qed
qed simp

section \<open>The longest prefix\<close>

text \<open>
  Addresses are in network order: the first byte of an address is the lowest of the word. \<open>netmask\<close>
  is the mask of a prefix length, \<open>position\<close> the place of a bit of the word in the address.
\<close>

definition position :: "nat \<Rightarrow> nat" where
  "position j = 8 * (j div 8) + 7 - j mod 8"

definition netmask :: "nat \<Rightarrow> u32" where
  "netmask k = foldr (\<lambda>j m. if position j < k then m OR 2 ^ j else m) [0 ..< 32] 0"

lemma bit_netmask: "bit (netmask k) j \<longleftrightarrow> j < 32 \<and> position j < k"
proof -
  have "bit (foldr (\<lambda>j m. if position j < k then m OR 2 ^ j else m) xs (0 :: u32)) j
      \<longleftrightarrow> j \<in> set xs \<and> position j < k" if "set xs \<subseteq> {0 ..< 32}" for xs
    using that by (induction xs) (auto simp: bit_simps)
  from this [of "[0 ..< 32]"] show ?thesis by (auto simp: netmask_def)
qed

lemma and_le_word: "a AND b \<le> b" for a b :: "'a :: len word"
  by (simp add: word_le_def unsigned_and_eq)

lemma netmask_mono: "k \<le> l \<Longrightarrow> netmask k \<le> netmask l"
proof -
  assume "k \<le> l"
  then have "netmask k AND netmask l = netmask k"
    by (intro bit_word_eqI) (auto simp: bit_and_iff bit_netmask)
  then show ?thesis using and_le_word [of "netmask k" "netmask l"] by simp
qed

lemma position_surj: "k < 32 \<Longrightarrow> \<exists>j < 32. position j = k"
proof -
  assume "k < 32"
  moreover have "list_all (\<lambda>k. list_ex (\<lambda>j. position j = k) [0 ..< 32]) [0 ..< 32]" by code_simp
  ultimately have "list_ex (\<lambda>j. position j = k) [0 ..< 32]" by (simp add: list_all_iff)
  then show ?thesis unfolding list_ex_iff set_upt by (metis atLeastLessThan_iff)
qed

lemma netmask_less:
  assumes "k < l" "l \<le> 32"
  shows "netmask k < netmask l"
proof -
  obtain j where j: "j < 32" "position j = k" using position_surj [of k] assms by auto
  then have "bit (netmask l) j \<and> \<not> bit (netmask k) j" using assms by (simp add: bit_netmask)
  then have "netmask k \<noteq> netmask l" by auto
  then show ?thesis using netmask_mono [of k l] assms by simp
qed

text \<open>
  The table as the comment in the source shows it and the kernel prints it: a title line, then for
  each route a line of eleven columns: the interface, the destination, the gateway, the flags, the
  counters \<open>RefCnt\<close>, \<open>Use\<close> and \<open>Metric\<close>, the mask, \<open>MTU\<close>, \<open>Window\<close> and \<open>IRTT\<close>. Addresses are hexadecimal with eight
  digits, in network byte order. What the other columns hold, the white space before each column, and
  the blanks that fill a line up are arbitrary. A cell is the white space and the text after it.
\<close>

record route =
  rt_iface :: string
  rt_dest :: u32
  rt_len :: nat

record table_row =
  row_route :: route
  row_cells :: "(string \<times> string) list"
  row_pad :: string

definition hex8 :: "nat \<Rightarrow> string" where
  "hex8 n = [xdigit (n div 16 ^ 7 mod 16), xdigit (n div 16 ^ 6 mod 16), xdigit (n div 16 ^ 5 mod 16),
     xdigit (n div 16 ^ 4 mod 16), xdigit (n div 16 ^ 3 mod 16), xdigit (n div 16 ^ 2 mod 16),
     xdigit (n div 16 mod 16), xdigit (n mod 16)]"

definition cells_text :: "(string \<times> string) list \<Rightarrow> string" where
  "cells_text cells = concat (map (\<lambda>(gap, w). gap @ w) cells)"

definition route_line :: "table_row \<Rightarrow> string" where
  "route_line row = rt_iface (row_route row) @ cells_text (row_cells row) @ row_pad row @ [CHR 0x0A]"

definition route_table :: "string \<Rightarrow> table_row list \<Rightarrow> string" where
  "route_table title rows = title @ [CHR 0x0A] @ concat (map route_line rows)"

definition blanks :: "string \<Rightarrow> bool" where
  "blanks t \<longleftrightarrow> list_all (\<lambda>c. c_isspace c \<and> c \<noteq> CHR 0x0A) t"

definition a_word :: "string \<Rightarrow> bool" where
  "a_word t \<longleftrightarrow> t \<noteq> [] \<and> list_all (\<lambda>c. \<not> c_isspace c) t"

definition wf_route :: "route \<Rightarrow> bool" where
  "wf_route rt \<longleftrightarrow> a_word (rt_iface rt) \<and> rt_len rt \<le> 32"

definition wf_cell :: "string \<times> string \<Rightarrow> bool" where
  "wf_cell cell \<longleftrightarrow> (case cell of (gap, w) \<Rightarrow> gap \<noteq> [] \<and> blanks gap \<and> a_word w)"

definition wf_row :: "table_row \<Rightarrow> bool" where
  "wf_row row \<longleftrightarrow> wf_route (row_route row) \<and> length (row_cells row) = 10 \<and> list_all wf_cell (row_cells row)
     \<and> blanks (row_pad row) \<and> snd (row_cells row ! 0) = hex8 (unat (rt_dest (row_route row)))
     \<and> snd (row_cells row ! 6) = hex8 (unat (netmask (rt_len (row_route row))))"

text \<open>A line of the kernel: tabulators between the columns, and blanks up to 127 characters.\<close>

definition kernel_row :: "route \<Rightarrow> u32 \<Rightarrow> u16 \<Rightarrow> nat \<Rightarrow> nat \<Rightarrow> nat \<Rightarrow> nat \<Rightarrow> nat \<Rightarrow> nat \<Rightarrow> table_row" where
  "kernel_row rt gateway flags refcnt uses metric mtu window irtt = (let
     cells = map (\<lambda>w. ([CHR 0x09], w)) [hex8 (unat (rt_dest rt)), hex8 (unat gateway),
       drop 4 (hex8 (unat flags)), decimal refcnt, decimal uses, decimal metric,
       hex8 (unat (netmask (rt_len rt))), decimal mtu, decimal window, decimal irtt]
     in \<lparr>row_route = rt, row_cells = cells,
          row_pad = replicate (127 - length (rt_iface rt @ cells_text cells)) (CHR '' '')\<rparr>)"

definition matches :: "u32 \<Rightarrow> route \<Rightarrow> bool" where
  "matches g rt \<longleftrightarrow> rt_dest rt = g AND netmask (rt_len rt)"

lemma xdigits_hex8: "list_all c_isxdigit (hex8 n)"
  by (simp add: hex8_def c_isxdigit_def xdigit_value_xdigit)

lemma hex8_value:
  assumes "n < 2 ^ 32"
  shows "xdigits_value (hex8 n) = n"
proof -
  define q where "q i = n div 16 ^ i" for i
  have step: "16 * q j + q i mod 16 = q i" if "j = Suc i" for i j
    unfolding q_def that by (metis div_mult2_eq mult.commute mult_div_mod_eq power_Suc2)
  have top: "q 7 mod 16 = q 7" using assms by (simp add: q_def div_less_iff_less_mult)
  have "xdigits_value (hex8 n) = 16 * (16 * (16 * (16 * (16 * (16 * (16 * (q 7 mod 16) + q 6 mod 16)
      + q 5 mod 16) + q 4 mod 16) + q 3 mod 16) + q 2 mod 16) + q 1 mod 16) + q 0 mod 16"
    unfolding xdigits_value_def hex8_def q_def by (simp add: xdigit_value_xdigit)
  also have "\<dots> = q 0"
    using step [of 7 6] step [of 6 5] step [of 5 4] step [of 4 3] step [of 3 2] step [of 2 1]
      step [of 1 0] top by simp
  finally show ?thesis by (simp add: q_def)
qed

text \<open>Reading what was printed.\<close>

lemma xdigit_no_space: "c_isxdigit c \<Longrightarrow> \<not> c_isspace c"
  by (auto simp: c_isxdigit_def xdigit_value_def c_isspace_def Let_def split: if_splits)

lemma tab_space: "c_isspace (CHR 0x09)" "\<not> c_isxdigit (CHR 0x09)" "c_isspace (CHR 0x0A)"
  by code_simp+

lemma while_word:
  "list_all P w \<Longrightarrow> \<not> P c \<Longrightarrow> takeWhile P (w @ c # r) = w \<and> dropWhile P (w @ c # r) = c # r"
  by (induction w) auto

lemma space_no_digit: "c_isspace c \<Longrightarrow> \<not> c_isxdigit c"
  using xdigit_no_space by blast

lemma blanks_space: "blanks t \<Longrightarrow> list_all c_isspace t"
  by (induction t) (simp_all add: blanks_def)

lemma skip_space: "list_all c_isspace t \<Longrightarrow> dropWhile c_isspace (t @ r) = dropWhile c_isspace r"
  by (induction t) simp_all

lemma word_starts: "a_word w \<Longrightarrow> dropWhile c_isspace (w @ r) = w @ r"
  by (cases w) (simp_all add: a_word_def)

lemma next_word_word:
  assumes "a_word w" "c_isspace c"
  shows "next_word (w @ c # r) = (w, c # r)"
  using word_starts [OF assms(1)] while_word [of "\<lambda>c. \<not> c_isspace c" w c r] assms
  by (simp add: next_word_def a_word_def)

lemma next_word_cell:
  assumes "wf_cell (gap, w)" "c_isspace c"
  shows "next_word (gap @ w @ c # r) = (w, c # r)"
  using next_word_word [of w c r] assms skip_space [of gap "w @ c # r"] word_starts [of w "c # r"] blanks_space
  by (simp add: next_word_def wf_cell_def)

text \<open>Every cell, and the end of a line, begin with white space.\<close>

lemma cells_start:
  assumes "list_all wf_cell cells" "c_isspace c"
  obtains c' r' where "cells_text cells @ c # r = c' # r'" "c_isspace c'"
proof (cases cells)
  case Nil
  then show thesis using that [of c r] assms by (simp add: cells_text_def)
next
  case (Cons cell more)
  obtain gap w where "cell = (gap, w)" by force
  moreover from this Cons assms(1) obtain c' gap' where "gap = c' # gap'" "c_isspace c'"
    by (cases gap) (auto simp: wf_cell_def blanks_def)
  ultimately show thesis using that Cons by (simp add: cells_text_def)
qed

lemma cells_cons: "cells_text ((gap, w) # cells) @ t = gap @ w @ cells_text cells @ t"
  by (simp add: cells_text_def)

lemma skip_cells:
  assumes "list_all wf_cell cells" "c_isspace c"
  shows "skip_words (length cells) (cells_text cells @ c # r) = Some (c # r)"
  using assms(1)
proof (induction cells)
  case Nil
  show ?case by (simp add: cells_text_def)
next
  case (Cons cell cells)
  obtain gap w where cell: "cell = (gap, w)" by force
  have cs: "list_all wf_cell cells" and wf: "wf_cell (gap, w)" using Cons.prems cell by simp_all
  obtain c' r' where rest: "cells_text cells @ c # r = c' # r'" "c_isspace c'"
    using cells_start [OF cs assms(2)] by blast
  have "next_word (gap @ w @ cells_text cells @ c # r) = (w, cells_text cells @ c # r)"
    using next_word_cell [OF wf rest(2)] by (simp add: rest(1))
  moreover have "w \<noteq> []" using wf by (auto simp: wf_cell_def a_word_def)
  ultimately show ?case using Cons.IH [OF cs] by (simp add: cell cells_cons)
qed

lemma get_hex_cell:
  assumes "wf_cell (gap, hex8 (unat v))" "c_isspace c"
  shows "get_hex (gap @ hex8 (unat v) @ c # r) = Got v (c # r)"
proof -
  have lt: "unat v < 2 ^ 32" using unsigned_less [of v] by simp
  have wf: "list_all c_isspace gap" "a_word (hex8 (unat v))"
    using assms(1) blanks_space by (simp_all add: wf_cell_def)
  note w = while_word [OF xdigits_hex8 space_no_digit [OF assms(2)], of "unat v" r]
  have "dropWhile c_isspace (gap @ hex8 (unat v) @ c # r) = hex8 (unat v) @ c # r"
    using skip_space [OF wf(1)] word_starts [OF wf(2)] by simp
  moreover have "int (xdigits_value (hex8 (unat v))) < 2 ^ 32"
    using unsigned_less [of v, where 'a = int] by (simp add: hex8_value [OF lt])
  moreover have "hex8 (unat v) \<noteq> []" by (simp add: hex8_def)
  ultimately show ?thesis using w by (simp add: get_hex_def Let_def hex8_value [OF lt])
qed

lemma no_newline:
  "blanks t \<Longrightarrow> CHR 0x0A \<notin> set t" "a_word t \<Longrightarrow> CHR 0x0A \<notin> set t"
  "list_all wf_cell cells \<Longrightarrow> CHR 0x0A \<notin> set (cells_text cells)"
  using tab_space by (auto simp: blanks_def a_word_def cells_text_def wf_cell_def list_all_iff)

lemma next_line_after: "CHR 0x0A \<notin> set t \<Longrightarrow> next_line (t @ CHR 0x0A # r) = r"
  by (induction t) (auto simp: next_line_def)

lemma row_printed:
  assumes "wf_row row"
  obtains t where "row_columns (cells_text (row_cells row) @ row_pad row @ CHR 0x0A # r) d k
      = Some (rt_dest (row_route row), netmask (rt_len (row_route row)), t)" "next_line t = r"
proof -
  let ?dest = "rt_dest (row_route row)" and ?mask = "netmask (rt_len (row_route row))"
  define first skip more where "first = row_cells row ! 0" and "skip = take 5 (drop 1 (row_cells row))"
    and "more = drop 7 (row_cells row)"
  have len: "length (row_cells row) = 10" and wf: "list_all wf_cell (row_cells row)" and pad: "blanks (row_pad row)"
    using assms by (simp_all add: wf_row_def)
  obtain g6 w6 where six: "row_cells row ! 6 = (g6, w6)" by force
  obtain g0 w0 where zero: "first = (g0, w0)" by force
  have cells: "row_cells row = (g0, w0) # skip @ (g6, w6) # more"
  proof -
    have "row_cells row = row_cells row ! 0 # drop 1 (row_cells row)"
      using Cons_nth_drop_Suc [of 0 "row_cells row"] len by simp
    moreover have "drop 1 (row_cells row) = skip @ drop 6 (row_cells row)"
      using append_take_drop_id [of 5 "drop 1 (row_cells row)"] by (simp add: skip_def)
    moreover have "drop 6 (row_cells row) = row_cells row ! 6 # more"
      using Cons_nth_drop_Suc [of 6 "row_cells row"] len by (simp add: more_def)
    ultimately show ?thesis using six zero first_def by simp
  qed
  have w: "w0 = hex8 (unat ?dest)" "w6 = hex8 (unat ?mask)" "length skip = 5"
    using assms len zero six by (auto simp: wf_row_def first_def skip_def)
  have parts: "wf_cell (g0, w0)" "list_all wf_cell skip" "wf_cell (g6, w6)" "list_all wf_cell more"
    using wf by (simp_all add: cells)
  obtain c t where rest: "cells_text more @ row_pad row @ CHR 0x0A # r = c # t" "c_isspace c"
  proof (cases "row_pad row")
    case Nil
    then show thesis using that cells_start [OF parts(4) tab_space(3), of r] by auto
  next
    case (Cons p pad')
    then have "c_isspace p" using pad by (simp add: blanks_def)
    then show thesis using that cells_start [OF parts(4), of p "pad' @ CHR 0x0A # r"] Cons by auto
  qed
  have "next_line (cells_text more @ row_pad row @ CHR 0x0A # r) = r"
    using next_line_after [of "cells_text more @ row_pad row" r] no_newline(1) [OF pad] no_newline(3) [OF parts(4)] by simp
  then have line: "next_line (c # t) = r" by (simp add: rest)
  obtain c6 g6' where g6: "g6 = c6 # g6'" "c_isspace c6"
    using parts(3) by (cases g6) (auto simp: wf_cell_def blanks_def)
  obtain c1 t1 where one: "cells_text skip @ g6 @ w6 @ c # t = c1 # t1" "c_isspace c1"
    using cells_start [OF parts(2) g6(2), of "g6' @ w6 @ c # t"] g6(1) by auto
  have printed: "cells_text (row_cells row) @ row_pad row @ CHR 0x0A # r = g0 @ w0 @ cells_text skip @ g6 @ w6 @ c # t"
    by (simp add: cells cells_text_def flip: rest(1))
  have get0: "get_hex (g0 @ w0 @ cells_text skip @ g6 @ w6 @ c # t) = Got ?dest (cells_text skip @ g6 @ w6 @ c # t)"
    unfolding one(1) using get_hex_cell [OF parts(1) [unfolded w(1)] one(2)] w(1) by simp
  have skipped: "skip_words 5 (cells_text skip @ g6 @ w6 @ c # t) = Some (g6 @ w6 @ c # t)"
    using skip_cells [OF parts(2) g6(2), of "g6' @ w6 @ c # t"] w(3) g6(1) by simp
  have get6: "get_hex (g6 @ w6 @ c # t) = Got ?mask (c # t)"
    using get_hex_cell [OF parts(3) [unfolded w(2)] rest(2)] w(2) by simp
  show thesis
    by (rule that [OF _ line]) (simp add: printed row_columns_def get0 skipped get6)
qed

definition pick_route :: "u32 \<Rightarrow> string \<times> u32 \<Rightarrow> route \<Rightarrow> string \<times> u32" where
  "pick_route g b rt = (if matches g rt \<and> snd b \<le> netmask (rt_len rt)
     then (rt_iface rt, netmask (rt_len rt)) else b)"

lemma route_loop_table:
  assumes "list_all wf_row rows"
  shows "route_loop g (concat (map route_line rows)) d m (fst b) (snd b)
    = Some (fst (foldl (pick_route g) b (map row_route rows)))"
  using assms
proof (induction rows arbitrary: d m b)
  case Nil
  show ?case by (simp add: route_loop.simps [of g "[]"] next_word_def)
next
  case (Cons row rows)
  let ?rt = "row_route row" and ?rest = "concat (map route_line rows)"
  let ?cols = "cells_text (row_cells row) @ row_pad row @ CHR 0x0A # ?rest"
  have wf: "wf_row row" "list_all wf_row rows" using Cons.prems by simp_all
  then have cells: "list_all wf_cell (row_cells row)" "blanks (row_pad row)" "a_word (rt_iface ?rt)"
    by (simp_all add: wf_row_def wf_route_def)
  obtain c t where start: "?cols = c # t" "c_isspace c"
  proof (cases "row_pad row")
    case Nil
    then show thesis using that cells_start [OF cells(1) tab_space(3), of ?rest] by auto
  next
    case (Cons p pad')
    then have "c_isspace p" using cells(2) by (simp add: blanks_def)
    then show thesis using that cells_start [OF cells(1), of p "pad' @ CHR 0x0A # ?rest"] Cons by auto
  qed
  have printed: "concat (map route_line (row # rows)) = rt_iface ?rt @ ?cols" by (simp add: route_line_def)
  have word: "next_word (rt_iface ?rt @ ?cols) = (rt_iface ?rt, ?cols)"
    unfolding start(1) by (rule next_word_word [OF cells(3) start(2)])
  have some: "rt_iface ?rt \<noteq> []" "?cols \<noteq> []" using cells(3) by (simp_all add: a_word_def)
  obtain t' where row: "row_columns ?cols d m = Some (rt_dest ?rt, netmask (rt_len ?rt), t')" "next_line t' = ?rest"
    by (rule row_printed [OF wf(1)])
  let ?picked = "matches g ?rt \<and> snd b \<le> netmask (rt_len ?rt)"
  have picked: "pick_route g b ?rt = (if ?picked then (rt_iface ?rt, netmask (rt_len ?rt)) else b)"
    by (simp add: pick_route_def)
  moreover have "better_route g (rt_dest ?rt) (netmask (rt_len ?rt)) (snd b) \<longleftrightarrow> ?picked"
    by (auto simp: better_route_def matches_def)
  ultimately show ?case
    unfolding printed route_loop.simps [of g "rt_iface ?rt @ ?cols"] word prod.case row(1) option.case row(2)
    using Cons.IH [OF wf(2), of _ _ "pick_route g b ?rt"] some picked
    by (cases "?picked") simp_all
qed

lemma kernel_row_ok:
  assumes "wf_route rt"
  shows "wf_row (kernel_row rt gateway flags refcnt uses metric mtu window irtt)"
proof -
  have "a_word (hex8 n)" "a_word (drop 4 (hex8 n))" for n
    using xdigits_hex8 [of n] xdigit_no_space by (auto simp: a_word_def hex8_def list_all_iff)
  moreover have "\<not> c_isspace (digit d)" if "d < 10" for d
    using that by (auto simp: digit_def c_isspace_def)
  then have "a_word (decimal n)" for n
    by (induction n rule: decimal.induct) (subst decimal.simps, simp add: a_word_def)
  moreover have "blanks [CHR 0x09]" "blanks (replicate k (CHR '' ''))" for k
    by (simp_all add: blanks_def c_isspace_def list_all_iff)
  ultimately show ?thesis using assms by (simp add: wf_row_def kernel_row_def wf_cell_def Let_def)
qed

text \<open>The route that wins: the last one among those that match with the longest prefix.\<close>

definition best_route :: "u32 \<Rightarrow> route list \<Rightarrow> route \<Rightarrow> bool" where
  "best_route g rts rt \<longleftrightarrow> (\<exists>before after. rts = before @ rt # after \<and> matches g rt
     \<and> (\<forall>r \<in> set before. matches g r \<longrightarrow> rt_len r \<le> rt_len rt)
     \<and> (\<forall>r \<in> set after. matches g r \<longrightarrow> rt_len r < rt_len rt))"

lemma best_route_snoc:
  assumes "best_route g rts rt"
  shows "matches g x \<Longrightarrow> rt_len rt \<le> rt_len x \<Longrightarrow> best_route g (rts @ [x]) x"
    "\<not> (matches g x \<and> rt_len rt \<le> rt_len x) \<Longrightarrow> best_route g (rts @ [x]) rt"
proof -
  obtain before after where b: "rts = before @ rt # after" "matches g rt"
      "\<forall>r \<in> set before. matches g r \<longrightarrow> rt_len r \<le> rt_len rt"
      "\<forall>r \<in> set after. matches g r \<longrightarrow> rt_len r < rt_len rt"
    using assms unfolding best_route_def by blast
  show "best_route g (rts @ [x]) x" if "matches g x" "rt_len rt \<le> rt_len x"
    unfolding best_route_def
    by (rule exI [of _ rts], rule exI [of _ "[]"]) (use b that in force)
  show "best_route g (rts @ [x]) rt" if "\<not> (matches g x \<and> rt_len rt \<le> rt_len x)"
    unfolding best_route_def
    by (rule exI [of _ before], rule exI [of _ "after @ [x]"]) (use b that in auto)
qed

lemma best_route_wf: "best_route g rts rt \<Longrightarrow> list_all wf_route rts \<Longrightarrow> wf_route rt"
  by (auto simp: best_route_def)

lemma best_route_some: "best_route g rts rt \<Longrightarrow> list_ex (matches g) rts"
  by (auto simp: best_route_def)

lemma picked_route:
  assumes "list_all wf_route rts"
  shows "case foldl (pick_route g) ([], 0) rts of (im, mm) \<Rightarrow>
      im = [] \<and> mm = 0 \<and> (\<forall>r \<in> set rts. \<not> matches g r)
    \<or> (\<exists>rt. best_route g rts rt \<and> im = rt_iface rt \<and> mm = netmask (rt_len rt))"
  using assms
proof (induction rts rule: rev_induct)
  case (snoc x rts)
  obtain im mm where f: "foldl (pick_route g) ([], 0) rts = (im, mm)" by force
  then have f1: "foldl (pick_route g) ([], 0) (rts @ [x]) = pick_route g (im, mm) x" by simp
  consider (none) "im = []" "mm = 0" "\<forall>r \<in> set rts. \<not> matches g r"
    | (some) rt where "best_route g rts rt" "im = rt_iface rt" "mm = netmask (rt_len rt)"
    using snoc f by auto
  then show ?case
  proof cases
    case none
    have "best_route g (rts @ [x]) x" if "matches g x"
      unfolding best_route_def
      by (rule exI [of _ rts], rule exI [of _ "[]"]) (use none that in auto)
    then show ?thesis unfolding f1 using none by (auto simp: pick_route_def)
  next
    case some
    have wf: "rt_len rt \<le> 32" "rt_len x \<le> 32"
      using best_route_wf [OF some(1)] snoc.prems by (simp_all add: wf_route_def list_all_iff)
    have "mm \<le> netmask (rt_len x) \<longleftrightarrow> rt_len rt \<le> rt_len x"
      using netmask_mono [of "rt_len rt" "rt_len x"] netmask_less [of "rt_len x" "rt_len rt"] wf some
      by (metis leD leI)
    then show ?thesis unfolding f1 using some best_route_snoc [OF some(1), of x] by (auto simp: pick_route_def)
  qed
qed simp

text \<open>C24:
  For any table in the format of \<open>/proc/net/route\<close> - any title line, any gateways, flags and counters, any
  white space between the columns -, if it is at most as long as the buffer, the search ends. The
  interface for a multicast group is that of the last route, among the routes that match the group,
  with the longest prefix; it is empty when no route matches.
\<close>

theorem routes_longest_prefix:
  assumes "list_all wf_row rows" "CHR 0x0A \<notin> set title" "length (route_table title rows) \<le> 1048576"
  shows "\<exists>iface. getMcastIfaceFromRoutes N dest m (Some (route_table title rows)) grp = Some iface
    \<and> (if list_ex (matches (nt_addr N grp)) (map row_route rows)
       then \<exists>rt. best_route (nt_addr N grp) (map row_route rows) rt \<and> iface = rt_iface rt else iface = [])"
proof -
  let ?g = "nt_addr N grp" and ?rts = "map row_route rows"
  have "getMcastIfaceFromRoutes N dest m (Some (route_table title rows)) grp
      = Some (fst (foldl (pick_route ?g) ([], 0) ?rts))"
    unfolding getMcastIfaceFromRoutes_def
    using route_loop_table [OF assms(1), of ?g dest m "([], 0)"] assms(3)
      next_line_after [OF assms(2), of "concat (map route_line rows)"]
    by (simp add: Let_def route_table_def)
  moreover have "list_all wf_route ?rts" using assms(1) by (auto simp: list_all_iff wf_row_def)
  ultimately show ?thesis
    using picked_route [of ?rts ?g] best_route_some [of ?g ?rts]
    by (cases "foldl (pick_route ?g) ([], 0) ?rts") (auto simp: list_ex_iff)
qed

section \<open>The sockets\<close>

definition socket_ready :: "network \<Rightarrow> bool" where
  "socket_ready N \<longleftrightarrow> 0 \<le> nt_socket N \<and> nt_reuse N \<and> nt_alloc N \<and> nt_devices N \<noteq> None"

text \<open>
  The multicast client fails exactly when the socket cannot be prepared; otherwise it takes the
  first device that matches the interface and is up, not a loopback, capable of multicast, and
  can be set, bound and joined. Without such a device the descriptor is -1.
\<close>

theorem multicast_opens_first_usable:
  "case multicast_client N iface grp port of
     Inl e \<Rightarrow> e = BadParameterError \<and> \<not> socket_ready N
   | Inr (c, name) \<Rightarrow> socket_ready N \<and>
       (case find (\<lambda>d. device_match iface d \<and> multicast_usable N iface grp d) (the (nt_devices N)) of
          None \<Rightarrow> cn_sock c = - 1 \<and> name = iface
        | Some d \<Rightarrow> name = base_name (dev_name d) \<and> c = \<lparr>cn_sock = nt_socket N,
            cn_addr = (if iface = [] then 0 else the (nt_aton N grp)), cn_port = port\<rparr>)"
proof (cases "socket_ready N")
  case True
  then obtain ds where ds: "nt_devices N = Some ds" by (auto simp: socket_ready_def)
  obtain c res where l: "multicast_loop N iface grp port ds (no_conn\<lparr>cn_sock := nt_socket N\<rparr>) = (c, res)"
    by force
  show ?thesis
    using multicast_loop_finds [OF l] True ds l
    by (cases c) (auto simp: multicast_client_def multicast_open_def socket_ready_def split: option.splits)
next
  case False
  then show ?thesis
    by (auto simp: multicast_client_def multicast_open_def socket_ready_def split: option.splits)
qed

text \<open>
  The unicast client takes the first device with the requested address (any device for the
  address 0.0.0.0) that matches the interface, is up and can be bound. When the socket cannot be
  prepared the exception is not one that its \<open>throw\<close> clause allows.
\<close>

theorem unicast_opens_first_usable:
  "case unicast_client N iface ip port of
     Inl e \<Rightarrow> e = Terminate \<and> \<not> socket_ready N
   | Inr (c, name) \<Rightarrow> socket_ready N \<and>
       (case find (\<lambda>d. unicast_match N iface ip d \<and> unicast_usable N ip d) (the (nt_devices N)) of
          None \<Rightarrow> cn_sock c = - 1 \<and> name = iface
        | Some d \<Rightarrow> name = unicast_name N iface ip d
            \<and> c = \<lparr>cn_sock = nt_socket N, cn_addr = nt_addr N ip, cn_port = port\<rparr>)"
proof (cases "socket_ready N")
  case True
  then obtain ds where ds: "nt_devices N = Some ds" by (auto simp: socket_ready_def)
  obtain c res where l: "unicast_loop N iface ip port ds (no_conn\<lparr>cn_sock := nt_socket N\<rparr>) = (c, res)"
    by force
  show ?thesis
    using unicast_loop_finds [OF l] True ds l
    by (cases c) (auto simp: unicast_client_def unicast_open_def socket_ready_def split: option.splits)
next
  case False
  then show ?thesis
    by (auto simp: unicast_client_def unicast_open_def socket_ready_def split: option.splits)
qed

text \<open>What either client leaves: the socket that was made, or -1.\<close>

lemma base_name_no_dot: "CHR ''.'' \<notin> set (base_name n)"
  by (auto simp: base_name_def dest: set_takeWhileD)

lemma client_socket:
  "multicast_client N iface grp port = Inr (c, name) \<Longrightarrow>
     cn_sock c = - 1 \<or> cn_sock c = nt_socket N \<and> 0 \<le> nt_socket N \<and> CHR ''.'' \<notin> set name"
  "unicast_client N iface grp port = Inr (c, name) \<Longrightarrow>
     cn_sock c = - 1 \<or> cn_sock c = nt_socket N \<and> 0 \<le> nt_socket N \<and> CHR ''.'' \<notin> set name"
  by (auto simp: multicast_client_def multicast_open_def unicast_client_def unicast_open_def
      unicast_name_def base_name_no_dot
      split: if_splits option.splits prod.splits
      dest!: multicast_loop_finds unicast_loop_finds)

lemma finish_multicast:
  assumes "finish_connection name (no_socks r\<lparr>r_multicast_sock := s\<rparr>) = (e, r')" "s = - 1 \<or> 0 < s"
  shows "if e = None then s \<noteq> - 1 \<and> open_socks r' = [s] \<and> r_interface r' = name
    else s = - 1 \<and> e = Some BadParameterError \<and> open_socks r' = [] \<and> r_interface r' = r_interface r"
  using assms by (auto simp: finish_connection_def no_socks_def open_socks_def split: if_splits)

lemma finish_unicast:
  assumes "finish_connection name (no_socks r\<lparr>r_unicast_sock := s\<rparr>) = (e, r')" "s = - 1 \<or> 0 < s"
  shows "if e = None then s \<noteq> - 1 \<and> open_socks r' = [s] \<and> r_interface r' = name
    else s = - 1 \<and> e = Some BadParameterError \<and> open_socks r' = [] \<and> r_interface r' = r_interface r"
  using assms by (auto simp: finish_connection_def no_socks_def open_socks_def split: if_splits)

lemma connection_settles:
  assumes "setConnectionInfo N route interface ip vlan port r = Some (e, r', shut)"
    and "\<not> r_running r" "ip \<noteq> []" "nt_socket N \<noteq> 0"
  shows "shut = open_socks r \<and> (if e = None
      then open_socks r' = [nt_socket N] \<and> CHR ''.'' \<notin> set (r_interface r')
      else open_socks r' = [] \<and> r_interface r' = r_interface r)"
proof -
  let ?i = "vlan_interface interface vlan"
  have none: "open_socks (no_socks r) = []" "r_interface (no_socks r) = r_interface r"
    by (simp_all add: open_socks_def no_socks_def)
  show ?thesis
  proof (cases "takes_multicast N ip")
    case True
    then obtain i where i: "(if ?i = [] then route ip else Some ?i) = Some i"
      using assms by (auto simp: setConnectionInfo_def Let_def split: option.splits)
    show ?thesis
    proof (cases "multicast_client N i ip port")
      case (Inl x)
      with assms True i none show ?thesis by (auto simp: setConnectionInfo_def Let_def)
    next
      case (Inr y)
      then obtain c name where c: "multicast_client N i ip port = Inr (c, name)" by (cases y) simp
      then have f: "finish_connection name (no_socks r\<lparr>r_multicast_sock := cn_sock c\<rparr>) = (e, r')"
          "shut = open_socks r"
        using assms True i by (auto simp: setConnectionInfo_def Let_def split: prod.splits)
      show ?thesis
        using finish_multicast [OF f(1)] client_socket(1) [OF c] f(2) assms(4)
        by (cases "cn_sock c = - 1") (auto split: if_splits)
    qed
  next
    case False
    show ?thesis
    proof (cases "unicast_client N ?i ip port")
      case (Inl x)
      with assms False none show ?thesis by (auto simp: setConnectionInfo_def Let_def)
    next
      case (Inr y)
      then obtain c name where c: "unicast_client N ?i ip port = Inr (c, name)" by (cases y) simp
      then have f: "finish_connection name (no_socks r\<lparr>r_unicast_sock := cn_sock c\<rparr>) = (e, r')"
          "shut = open_socks r"
        using assms False by (auto simp: setConnectionInfo_def Let_def split: prod.splits)
      show ?thesis
        using finish_unicast [OF f(1)] client_socket(2) [OF c] f(2) assms(4)
        by (cases "cn_sock c = - 1") (auto split: if_splits)
    qed
  qed
qed

lemma connection_frame:
  assumes "setConnectionInfo N route interface ip vlan port r = Some (e, r', shut)"
  shows "r_running r' = r_running r" "r_pkts_per_read r' = r_pkts_per_read r"
    "r_socket_buffer_size r' = r_socket_buffer_size r"
  using assms
  by (auto simp: setConnectionInfo_def finish_connection_def no_socks_def Let_def
      split: if_splits option.splits sum.splits prod.splits)

text \<open>C25:
  Setting the connection of a stopped reader to a non-empty address closes every descriptor the
  reader held. On success the reader holds the new socket and nothing else, and reports an
  interface without a VLAN; on failure it holds none and its interface is unchanged.
\<close>

theorem connection_settled:
  assumes "setConnectionInfo N route interface ip vlan port r = Some (e, r', shut)"
    and "\<not> r_running r" "ip \<noteq> []" "nt_socket N \<noteq> 0"
  shows "shut = open_socks r \<and> (if e = None
      then open_socks r' = [nt_socket N] \<and> CHR ''.'' \<notin> set (r_interface r')
      else open_socks r' = [] \<and> r_interface r' = r_interface r)"
  using assms by (rule connection_settles)

section \<open>The test for multicast\<close>

text \<open>
  What \<open>inet_network\<close> and \<open>inet_addr\<close> return for the dotted address with the bytes \<open>a.b.c.d\<close>: the
  first in host order, the second in network order.
\<close>

definition is_address :: "network \<Rightarrow> string \<Rightarrow> nat \<Rightarrow> nat \<Rightarrow> nat \<Rightarrow> nat \<Rightarrow> bool" where
  "is_address N ip a b c d \<longleftrightarrow> a < 256 \<and> b < 256 \<and> c < 256 \<and> d < 256
     \<and> unat (nt_network N ip) = 256 * (256 * (256 * a + b) + c) + d
     \<and> unat (nt_addr N ip) = 256 * (256 * (256 * d + c) + b) + a"

text \<open>
  An address is taken for multicast when its first byte is at least 224 and its last byte, not its
  first, is at most 239: the second comparison is made in network order.
\<close>

theorem multicast_test_reads_last_byte:
  assumes "is_address N ip a b c d"
    and "is_address N ''224.0.0.0'' 224 0 0 0" "is_address N ''239.255.255.255'' 239 255 255 255"
  shows "takes_multicast N ip \<longleftrightarrow> 224 \<le> a \<and> d \<le> 239"
  using assms by (auto simp: takes_multicast_def is_address_def word_le_nat_alt)

section \<open>Examples\<close>

definition example_network :: network where
  "example_network = \<lparr>nt_socket = 7, nt_reuse = True, nt_alloc = True,
     nt_devices = Some [\<lparr>dev_name = ''lo'', dev_addr = 0x0100007F\<rparr>, \<lparr>dev_name = ''em4.12'', dev_addr = 0x0500A8C0\<rparr>],
     nt_flags = (\<lambda>d. Some (if dev_name d = ''lo'' then 9 else 0x1001)), nt_index = (\<lambda>d. Some 2),
     nt_mcast_if = (\<lambda>d. True), nt_bind = (\<lambda>d a. True), nt_join = (\<lambda>d. True),
     nt_aton = (\<lambda>s. Some 0x0568A8EA),
     nt_addr = (\<lambda>s. if s = ''234.168.104.5'' then 0x0568A8EA else if s = ''224.1.1.240'' then 0xF00101E0
        else if s = ''224.0.0.0'' then 0x000000E0 else 0xFFFFFFEF),
     nt_network = (\<lambda>s. if s = ''234.168.104.5'' then 0xEAA86805 else if s = ''224.1.1.240'' then 0xE00101F0
        else if s = ''224.0.0.0'' then 0xE0000000 else 0xEFFFFFFF)\<rparr>"

text \<open>A table of the kernel: a default route over a gateway, and two multicast routes.\<close>

definition example_title :: string where
  "example_title = ''Iface'' @ [CHR 0x09] @ ''Destination'' @ [CHR 0x09] @ ''Gateway '' @ [CHR 0x09] @ ''Flags'' @ [CHR 0x09]
     @ ''RefCnt'' @ [CHR 0x09] @ ''Use'' @ [CHR 0x09] @ ''Metric'' @ [CHR 0x09] @ ''Mask'' @ [CHR 0x09, CHR 0x09] @ ''MTU''
     @ [CHR 0x09] @ ''Window'' @ [CHR 0x09] @ ''IRTT''"

definition example_routes :: "table_row list" where
  "example_routes = [
     kernel_row \<lparr>rt_iface = ''eth0'', rt_dest = 0, rt_len = 0\<rparr> 0x0102A8C0 3 0 0 100 0 0 0,
     kernel_row \<lparr>rt_iface = ''em4'', rt_dest = 0x0068A8EA, rt_len = 24\<rparr> 0 1 0 0 0 0 0 0,
     kernel_row \<lparr>rt_iface = ''em2'', rt_dest = 0x000000E0, rt_len = 4\<rparr> 0 1 0 0 0 0 0 0]"

lemma routes_longest_prefix_witness:
  "list_all wf_row example_routes
   \<and> getMcastIfaceFromRoutes example_network 0 0 (Some (route_table example_title example_routes)) ''234.168.104.5''
       = Some ''em4''"
proof -
  let ?g = "nt_addr example_network ''234.168.104.5''"
  define a b c where "a = \<lparr>rt_iface = ''eth0'', rt_dest = 0, rt_len = 0\<rparr>"
    and "b = \<lparr>rt_iface = ''em4'', rt_dest = 0x0068A8EA, rt_len = 24\<rparr>"
    and "c = \<lparr>rt_iface = ''em2'', rt_dest = 0x000000E0, rt_len = 4\<rparr>"
  note abc = this
  let ?rts = "[a, b, c]"
  have rts: "map row_route example_routes = ?rts" by (simp add: example_routes_def kernel_row_def Let_def abc)
  have "wf_route \<lparr>rt_iface = ''eth0'', rt_dest = 0, rt_len = 0\<rparr>" "wf_route \<lparr>rt_iface = ''em4'', rt_dest = 0x0068A8EA, rt_len = 24\<rparr>"
    "wf_route \<lparr>rt_iface = ''em2'', rt_dest = 0x000000E0, rt_len = 4\<rparr>" by code_simp+
  then have wf: "list_all wf_row example_routes" using kernel_row_ok by (simp add: example_routes_def)
  have title: "CHR 0x0A \<notin> set example_title" by (simp add: example_title_def)
  have len: "length (route_table example_title example_routes) \<le> 1048576"
    by (simp add: route_table_def route_line_def example_routes_def kernel_row_def cells_text_def Let_def
        example_title_def hex8_def decimal.simps)
  have "matches ?g a" "matches ?g b" "matches ?g c" unfolding abc by code_simp+
  moreover have "rt_len a < rt_len b" "rt_len c < rt_len b" "rt_iface b = ''em4''" by (simp_all add: abc)
  ultimately have m: "matches ?g a" "matches ?g b" "matches ?g c" "rt_len a < rt_len b" "rt_len c < rt_len b"
    "rt_iface b = ''em4''" by blast+
  then have "list_ex (matches ?g) ?rts" by simp
  moreover have "iface = ''em4''" if "best_route ?g ?rts rt" "iface = rt_iface rt" for rt iface
    using that m unfolding best_route_def by (auto simp: Cons_eq_append_conv)
  ultimately show ?thesis
    using routes_longest_prefix [OF wf title len, of example_network 0 0 "''234.168.104.5''"] wf unfolding rts by auto
qed

lemma connection_settled_witness:
  "\<exists>e r' shut. setConnectionInfo example_network (\<lambda>_. Some ''em4'') ''.12'' ''234.168.104.5'' 0 29495
      (new_reader\<lparr>r_unicast_sock := 5\<rparr>) = Some (e, r', shut)
    \<and> shut = [5] \<and> (if e = None
      then open_socks r' = [nt_socket example_network] \<and> CHR ''.'' \<notin> set (r_interface r')
      else open_socks r' = [] \<and> r_interface r' = '''')"
proof -
  let ?r = "new_reader\<lparr>r_unicast_sock := 5\<rparr>"
  have run: "\<not> r_running ?r" and ip: "''234.168.104.5'' \<noteq> []" and sock: "nt_socket example_network \<noteq> 0"
    and held: "open_socks ?r = [5]" "r_interface ?r = ''''"
    by (simp_all add: new_reader_def example_network_def open_socks_def)
  obtain e r' shut where eq: "setConnectionInfo example_network (\<lambda>_. Some ''em4'') ''.12'' ''234.168.104.5''
      0 29495 ?r = Some (e, r', shut)"
    using run by (cases "setConnectionInfo example_network (\<lambda>_. Some ''em4'') ''.12'' ''234.168.104.5'' 0 29495 ?r")
      (auto simp: setConnectionInfo_def Let_def split: if_splits)
  show ?thesis using connection_settled [OF eq run ip sock] eq unfolding held by blast
qed

lemma multicast_test_reads_last_byte_witness:
  "is_address example_network ''224.1.1.240'' 224 1 1 240 \<and> \<not> takes_multicast example_network ''224.1.1.240''"
proof -
  have "is_address example_network ''224.1.1.240'' 224 1 1 240"
      "is_address example_network ''224.0.0.0'' 224 0 0 0"
      "is_address example_network ''239.255.255.255'' 239 255 255 255"
    by (simp_all add: is_address_def example_network_def)
  then show ?thesis using multicast_test_reads_last_byte by simp
qed

end
