(* ===== verification/Affinity.thy ===== *)
theory Affinity
  imports C_Strings
begin

text \<open>
  \<open>AffinityUtils.h\<close>: CPU affinity masks as hexadecimal strings, the socket statistics read from
  the proc and sys file systems, and thread priorities. The calls into the pthread library and
  the contents of the files are arguments.
\<close>

section \<open>Hexadecimal strings to integers\<close>

text \<open>\<open>ConvertString<uint64_t>\<close>: the value and the \<open>success\<close> flag; reading fails on overflow.\<close>

definition ConvertString :: "string \<Rightarrow> u64 \<times> bool" where
  "ConvertString data =
     (if data = [] then (0, False)
      else if \<not> list_all c_isxdigit data then (0, False)
      else if 2 ^ 64 \<le> int (xdigits_value data) then (0, False)
      else (of_nat (xdigits_value data), True))"

section \<open>Integer powers\<close>

lemma unat_drop_bit_1: "unat (drop_bit 1 w) = unat w div 2" for w :: u64
  by (simp only: unat_drop_bit_eq) (simp add: drop_bit_Suc)

lemma unat_half_less: "w \<noteq> 0 \<Longrightarrow> unat (drop_bit 1 w) < unat w" for w :: u64
proof -
  assume "w \<noteq> 0"
  then have "unat w \<noteq> 0" by (simp add: unsigned_eq_0_iff)
  then show ?thesis by (simp only: unat_drop_bit_1)
qed

function ipow_loop :: "u64 \<Rightarrow> u64 \<Rightarrow> u64 \<Rightarrow> u64" where
  "ipow_loop result base ex =
     (if ex = 0 then result
      else ipow_loop (if ex AND 1 \<noteq> 0 then result * base else result) (base * base) (drop_bit 1 ex))"
  by auto

termination
proof (relation "measure (\<lambda>(_, _, ex). unat ex)")
  fix result base ex :: u64
  assume "ex \<noteq> 0"
  from unat_half_less [OF this]
  show "((if ex AND 1 \<noteq> 0 then result * base else result, base * base, drop_bit 1 ex), result, base, ex)
      \<in> measure (\<lambda>(_, _, ex). unat ex)"
    by (simp only: in_measure split_conv)
qed simp

declare ipow_loop.simps [simp del]

definition ipow :: "u64 \<Rightarrow> u64 \<Rightarrow> u64" where
  "ipow base ex = ipow_loop 1 base ex"

section \<open>Affinity masks\<close>

definition CPU_SETSIZE :: nat where "CPU_SETSIZE = 1024"

text \<open>
  \<open>setaffinity\<close> is the result of \<open>pthread_setaffinity_np\<close> for a set of processors, given as the
  list of its numbers. The result of the model holds the set handed to it, if any.
\<close>

definition cpus_of_mask :: "u64 \<Rightarrow> nat list" where
  "cpus_of_mask cpu_mask = filter (\<lambda>j. ipow 2 (of_nat j) AND cpu_mask \<noteq> 0) [0 ..< CPU_SETSIZE]"

definition setAffinity :: "(nat list \<Rightarrow> int) \<Rightarrow> string \<Rightarrow> int \<times> nat list option" where
  "setAffinity setaffinity str_mask = (let (cpu_mask, success) = ConvertString str_mask in
     if \<not> success then (- 1, None)
     else let cpuset = cpus_of_mask cpu_mask in
       (if setaffinity cpuset \<noteq> 0 then - 1 else 0, Some cpuset))"

text \<open>\<open>getaffinity\<close> is the set \<open>pthread_getaffinity_np\<close> reports, None when it fails.\<close>

definition mask_of_cpus :: "(nat \<Rightarrow> bool) \<Rightarrow> u64" where
  "mask_of_cpus isset =
     foldl (\<lambda>cpu_mask j. if isset j then cpu_mask OR ipow 2 (of_nat j) else cpu_mask) 0 [0 ..< CPU_SETSIZE]"

definition getAffinity :: "(nat \<Rightarrow> bool) option \<Rightarrow> string" where
  "getAffinity getaffinity = (case getaffinity of None \<Rightarrow> ''''
     | Some isset \<Rightarrow> hex_upper (unat (mask_of_cpus isset)))"

section \<open>Socket statistics\<close>

text \<open>
  The loop of \<open>get_rx_queue\<close> over the occurrences of the pattern. The result is the number of
  listeners and the returned value; a row without a colon in its fourth word returns 0. The buffer
  \<open>tx_rx_queue\<close> keeps its contents when a row has fewer than four words.
\<close>

function rx_loop :: "string \<Rightarrow> string option \<Rightarrow> string \<Rightarrow> nat \<Rightarrow> u64 \<Rightarrow> nat \<times> u64" where
  "rx_loop pat None tx_rx_queue num_listeners rx_queue = (num_listeners, rx_queue)"
| "rx_loop pat (Some found) tx_rx_queue num_listeners rx_queue = (let
     num_listeners = num_listeners + 1;
     word = nth_word 3 found;
     tx_rx_queue = (if word = [] then tx_rx_queue else word);
     after_colon = dropWhile (\<lambda>c. c \<noteq> CHR '':'') tx_rx_queue
     in if after_colon = [] then (num_listeners, 0)
        else let (tmp, success) = ConvertString (tl after_colon);
          rx_queue = (if success then max rx_queue tmp else rx_queue)
          in case found of [] \<Rightarrow> (num_listeners, rx_queue)
             | c # rest \<Rightarrow> rx_loop pat (strstr rest pat) tx_rx_queue num_listeners rx_queue)"
  by pat_completeness auto

termination
proof (relation "measure (\<lambda>(_, m, _, _, _). case m of None \<Rightarrow> 0 | Some t \<Rightarrow> length t + 1)", goal_cases)
  case (2 pat found tx num rx n w tx' a x tmp success rx' c rest)
  then show ?case by (auto split: option.split dest: strstr_shorter)
qed simp

text \<open>
  \<open>ip_add\<close> is what \<open>inet_addr\<close> makes of the address, \<open>file\<close> what \<open>fread\<close> gets from
  \<open>/proc/net/udp\<close> (None when it cannot be opened), at most one MiB, and \<open>stack\<close> what the array
  \<open>tx_rx_queue\<close> holds before it is written.
\<close>

definition rx_pattern :: "u32 \<Rightarrow> u16 \<Rightarrow> string" where
  "rx_pattern ip_add port = hex_upper (unat ip_add) @ '':'' @ hex_upper (unat port)"

definition get_rx_queue :: "string \<Rightarrow> string option \<Rightarrow> u32 \<Rightarrow> u16 \<Rightarrow> nat \<times> u64" where
  "get_rx_queue stack file ip_add port = (case file of None \<Rightarrow> (0, 0)
     | Some contents \<Rightarrow> let buffer = take 1048576 contents in
         if buffer = [] \<or> length buffer = 1048576 then (0, 0)
         else let pat = rx_pattern ip_add port in rx_loop pat (strstr buffer pat) stack 0 0)"

definition get_rx_dropped :: "(string \<Rightarrow> string option) \<Rightarrow> string \<Rightarrow> int" where
  "get_rx_dropped read_file interface =
     (if interface = [] then 0
      else case read_file (''/sys/class/net/'' @ interface @ ''/statistics/rx_dropped'') of
        None \<Rightarrow> - 1
      | Some contents \<Rightarrow> let buffer = take 1024 contents in
          if buffer = [] \<or> length buffer = 1024 then - 1 else atol buffer)"

section \<open>Priorities\<close>

datatype policy = SCHED_RR | SCHED_OTHER

text \<open>\<open>setsched\<close> is the result of \<open>pthread_setschedparam\<close>; the model also gives the call it made.\<close>

definition setPolicyAndPriority :: "(policy \<Rightarrow> int \<Rightarrow> int) \<Rightarrow> int \<Rightarrow> int \<times> (policy \<times> int) option" where
  "setPolicyAndPriority setsched priority =
     (if 0 < priority then (setsched SCHED_RR priority, Some (SCHED_RR, priority))
      else if priority = 0 then (setsched SCHED_OTHER 0, Some (SCHED_OTHER, 0))
      else (0, None))"

text \<open>\<open>getsched\<close> is what \<open>pthread_getschedparam\<close> returns and the priority it found.\<close>

definition getPriority :: "int \<times> int \<Rightarrow> int \<Rightarrow> int \<times> int" where
  "getPriority getsched priority =
     (fst getsched, if fst getsched \<noteq> 0 then priority else snd getsched)"

section \<open>Correctness\<close>

lemma ipow_loop_power: "ipow_loop r b e = r * b ^ unat e"
proof (induction r b e rule: ipow_loop.induct)
  case (1 r b e)
  show ?case
  proof (cases "e = 0")
    case True
    then show ?thesis by (simp add: ipow_loop.simps)
  next
    case False
    have half: "(b * b) ^ (unat e div 2) = b ^ (2 * (unat e div 2))"
      by (simp add: power_mult power2_eq_square)
    have low: "(e AND 1 \<noteq> 0) \<longleftrightarrow> odd (unat e)"
    proof -
      have "unat (e AND 1) = unat e AND 1" by (simp only: unsigned_and_eq unsigned_1)
      then have "unat (e AND 1) = unat e mod 2" by (simp only: and_one_eq)
      then have "(e AND 1 = 0) \<longleftrightarrow> even (unat e)"
        by (metis even_iff_mod_2_eq_zero unsigned_0 unsigned_eq_0_iff)
      then show ?thesis by simp
    qed
    have split: "b ^ unat e = (if odd (unat e) then b else 1) * b ^ (2 * (unat e div 2))"
      by (cases "odd (unat e)") (simp_all flip: power_Suc)
    have "ipow_loop r b e = ipow_loop (if odd (unat e) then r * b else r) (b * b) (drop_bit 1 e)"
      using False low by (simp only: ipow_loop.simps [of r b e] if_False)
    also have "\<dots> = (if odd (unat e) then r * b else r) * b ^ (2 * (unat e div 2))"
      using 1 [OF False] half low by (simp only: unat_drop_bit_1)
    also have "\<dots> = r * b ^ unat e"
      by (simp only: split) (cases "odd (unat e)"; simp only: if_True if_False mult.assoc mult_1_left not_False_eq_True simp_thms)
    finally show ?thesis .
  qed
qed

text \<open>\<open>ipow\<close> is exponentiation modulo two to the 64, its loop returning for every exponent.\<close>

theorem ipow_is_power: "ipow b e = b ^ unat e"
  by (simp add: ipow_def ipow_loop_power)

lemma ConvertString_hex: "ConvertString (hex_upper (unat w)) = (w, True)"
proof -
  have "unat w < 2 ^ 64" using unsigned_less [of w, where 'a = nat] by simp
  then have "\<not> 2 ^ 64 \<le> int (unat w)" by (metis not_less of_nat_less_iff of_nat_numeral of_nat_power)
  then show ?thesis
    by (simp add: ConvertString_def hex_upper_xdigits hex_upper_value)
qed

lemma ipow_2_and: "j < 2 ^ 64 \<Longrightarrow> ipow 2 (of_nat j) AND w \<noteq> 0 \<longleftrightarrow> bit w j" for w :: u64
  by (simp add: ipow_def ipow_loop_power unat_of_nat and.commute [of _ w] and_exp_eq_0_iff_not_bit)

lemma cpus_of_mask_bits: "cpus_of_mask w = filter (bit w) [0 ..< 64]"
proof -
  have "cpus_of_mask w = filter (bit w) [0 ..< CPU_SETSIZE]"
    unfolding cpus_of_mask_def by (rule filter_cong) (auto simp: ipow_2_and CPU_SETSIZE_def)
  also have "[0 ..< CPU_SETSIZE] = [0 ..< 64] @ [64 ..< CPU_SETSIZE]"
    using upt_add_eq_append [of 0 64 960] by (simp add: CPU_SETSIZE_def)
  also have "filter (bit w) ([0 ..< 64] @ [64 ..< CPU_SETSIZE]) = filter (bit w) [0 ..< 64]"
    by (auto simp: filter_empty_conv dest: bit_imp_le_length)
  finally show ?thesis .
qed

lemma mask_of_cpus_bit: "bit (mask_of_cpus isset) k \<longleftrightarrow> isset k \<and> k < 64"
proof -
  have "bit (foldl (\<lambda>m j. if isset j then m OR ipow 2 (of_nat j) else m) 0 [0 ..< n]) k
      \<longleftrightarrow> isset k \<and> k < 64 \<and> k < n" if "n \<le> 1024" for n
    using that
  proof (induction n)
    case (Suc n)
    have "bit (ipow 2 (of_nat n)) k \<longleftrightarrow> n = k \<and> k < 64"
      using Suc.prems by (auto simp: ipow_def ipow_loop_power unat_of_nat bit_exp_iff possible_bit_def)
    then show ?case using Suc by (auto simp: bit_or_iff less_Suc_eq)
  qed simp
  from this [of CPU_SETSIZE] show ?thesis by (auto simp: mask_of_cpus_def CPU_SETSIZE_def)
qed

text \<open>C39: The mask \<open>getAffinity\<close> prints, given to \<open>setAffinity\<close>, selects exactly those of the
  processors it was made from that have a number below 64: the others, which the loops over the
  1024 possible ones also visit, are lost without an error.\<close>

theorem affinity_round_trip:
  "setAffinity setaffinity (getAffinity (Some isset)) =
     (if setaffinity (filter isset [0 ..< 64]) \<noteq> 0 then - 1 else 0, Some (filter isset [0 ..< 64]))"
proof -
  have "filter (bit (mask_of_cpus isset)) [0 ..< 64] = filter isset [0 ..< 64]"
    by (rule filter_cong) (auto simp: mask_of_cpus_bit)
  then show ?thesis
    by (simp add: setAffinity_def getAffinity_def ConvertString_hex cpus_of_mask_bits)
qed

section \<open>The statistics of the sockets\<close>

text \<open>The rows of the file that the pattern finds, and the queue length each one reports.\<close>

fun occurrences :: "string \<Rightarrow> string \<Rightarrow> string list" where
  "occurrences pat [] = []"
| "occurrences pat (c # t) = (if is_prefix pat (c # t) then [c # t] else []) @ occurrences pat t"

definition queue_field :: "string \<Rightarrow> string" where
  "queue_field row = dropWhile (\<lambda>c. c \<noteq> CHR '':'') (nth_word 3 row)"

definition row_queue :: "string \<Rightarrow> u64" where
  "row_queue row = fst (ConvertString (tl (queue_field row)))"

lemma ConvertString_fails: "\<not> snd (ConvertString w) \<Longrightarrow> fst (ConvertString w) = 0"
  by (auto simp: ConvertString_def split: if_splits)

lemma rx_loop_occurrences:
  assumes "pat \<noteq> []" and "\<forall>row\<in>set (occurrences pat t). queue_field row \<noteq> []"
  shows "rx_loop pat (strstr t pat) tx n q =
    (n + length (occurrences pat t), foldl max q (map row_queue (occurrences pat t)))"
  using assms(2)
proof (induction t arbitrary: tx n q)
  case Nil
  then show ?case using assms(1) by simp
next
  case (Cons c t)
  show ?case
  proof (cases "is_prefix pat (c # t)")
    case False
    then show ?thesis using Cons by simp
  next
    case True
    with Cons.prems have row: "queue_field (c # t) \<noteq> []" by simp
    then have word: "nth_word 3 (c # t) \<noteq> []" by (auto simp: queue_field_def)
    obtain v ok where conv: "ConvertString (tl (queue_field (c # t))) = (v, ok)"
      by (cases "ConvertString (tl (queue_field (c # t)))")
    have queue: "(if ok then max q v else q) = max q (row_queue (c # t))"
      using conv ConvertString_fails [of "tl (queue_field (c # t))"] by (auto simp: row_queue_def)
    have "rx_loop pat (Some (c # t)) tx n q =
        rx_loop pat (strstr t pat) (nth_word 3 (c # t)) (n + 1) (if ok then max q v else q)"
      using word row conv unfolding queue_field_def
      by (simp only: rx_loop.simps Let_def list.case if_False prod.case)
    then show ?thesis
      using Cons True queue by simp
  qed
qed

text \<open>What \<open>get_rx_queue\<close> reports for a file it reads completely in which each occurrence of
  the pattern starts a row with a queue field: the number of occurrences, and the largest queue
  among them, zero if there are none.\<close>

theorem rx_queue_is_maximum:
  assumes "contents \<noteq> []" and "length contents < 1048576"
    and "\<forall>row\<in>set (occurrences (rx_pattern ip port) contents). queue_field row \<noteq> []"
  shows "get_rx_queue stack (Some contents) ip port =
    (let rows = occurrences (rx_pattern ip port) contents
     in (length rows, foldl max 0 (map row_queue rows)))"
  using assms rx_loop_occurrences [of "rx_pattern ip port" contents stack 0 0]
  by (simp add: get_rx_queue_def rx_pattern_def Let_def)

definition sample_rows :: string where
  "sample_rows = ''0100007F:7337 00000000:0000 07 00000000:0000001C 00 0100007F:7337 0 07 0:2F''"

lemma xdigit_table:
  "xdigit 0 = CHR ''0''" "xdigit (Suc 0) = CHR ''1''" "xdigit 3 = CHR ''3''" "xdigit 7 = CHR ''7''"
  "xdigit 8 = CHR ''8''" "xdigit 14 = CHR ''E''" "xdigit 15 = CHR ''F''"
  by code_simp+

lemma rx_queue_is_maximum_witness:
  "get_rx_queue [] (Some sample_rows) 0x100007F 0x7337 = (2, 0x2F)"
proof -
  have pat: "rx_pattern 0x100007F 0x7337 = ''100007F:7337''"
    by (simp add: rx_pattern_def hex_upper.simps xdigit_table)
  have rows: "length (occurrences ''100007F:7337'' sample_rows) = 2"
    "\<forall>row\<in>set (occurrences ''100007F:7337'' sample_rows). queue_field row \<noteq> []"
    "foldl max 0 (map row_queue (occurrences ''100007F:7337'' sample_rows)) = 0x2F" by code_simp+
  show ?thesis
    using rx_queue_is_maximum [of sample_rows "0x100007F" "0x7337" "[]"] rows
    by (simp add: pat Let_def sample_rows_def)
qed

text \<open>
  The rows of the kernel's table print the port with four digits, \<open>get_rx_queue\<close> prints it without
  leading zeros.
\<close>

definition hex4 :: "nat \<Rightarrow> string" where
  "hex4 n = [xdigit (n div 4096 mod 16), xdigit (n div 256 mod 16), xdigit (n div 16 mod 16), xdigit (n mod 16)]"

definition udp_row :: "string \<Rightarrow> nat \<Rightarrow> string" where
  "udp_row address port = address @ '':'' @ hex4 port @ '' 00000000:0000 07 00000000:00000042 00''"

lemma get_rx_queue_row:
  "get_rx_queue stack (Some (udp_row ''0100007F'' p)) 0x100007F port =
    rx_loop (''100007F:'' @ hex_upper (unat port))
      (strstr (udp_row ''0100007F'' p) (''100007F:'' @ hex_upper (unat port))) stack 0 0"
proof -
  have pat: "rx_pattern 0x100007F port = ''100007F:'' @ hex_upper (unat port)"
    by (simp add: rx_pattern_def hex_upper.simps [of 16777343] hex_upper.simps [of 1048583]
        hex_upper.simps [of 65536] hex_upper.simps [of 4096] hex_upper.simps [of 256]
        hex_upper.simps [of 16] hex_upper.simps [of "Suc 0"] xdigit_table)
  have "length (udp_row ''0100007F'' p) = 51" by (simp add: udp_row_def hex4_def)
  then show ?thesis unfolding get_rx_queue_def pat by (auto simp: Let_def)
qed

text \<open>The socket bound to port 1000 (3E8 in hexadecimal) of 127.0.0.1 is not found in its own row,
  the one bound to port 4096 is, and asking for port 256 finds the row of port 4096.\<close>

theorem rx_queue_port_padding:
  "get_rx_queue stack (Some (udp_row ''0100007F'' 1000)) 0x100007F 1000 = (0, 0)
   \<and> get_rx_queue stack (Some (udp_row ''0100007F'' 4096)) 0x100007F 4096 = (1, 0x42)
   \<and> get_rx_queue stack (Some (udp_row ''0100007F'' 4096)) 0x100007F 256 = (1, 0x42)"
proof -
  have ports: "hex_upper (unat (1000::u16)) = ''3E8''" "hex_upper (unat (4096::u16)) = ''1000''"
    "hex_upper (unat (256::u16)) = ''100''" "hex4 1000 = ''03E8''" "hex4 4096 = ''1000''"
    by (simp_all add: hex_upper.simps hex4_def xdigit_table)
  show ?thesis
    unfolding get_rx_queue_row unfolding udp_row_def unfolding ports by (intro conjI; code_simp)
qed

end
