(* ===== verification/Property_Structs.thy ===== *)
theory Property_Structs
  imports C_Strings Binary64
begin

text \<open>
  \<open>struct_props.h\<close>: the structs of the component's properties, their default values, and the three
  operators of each: extraction from a CORBA value, insertion into one, and comparison. CORBA
  values and the property map are the framework's; their operations are the record \<open>corba_values\<close>.
\<close>

section \<open>The property structs\<close>

record advanced_optimizations =
  buffer_size :: u32
  udp_socket_buffer_size :: u32
  pkts_per_socket_read :: u16
  sdds_pkts_per_bulkio_push :: u16
  socket_read_thread_affinity :: string
  sdds_to_bulkio_thread_affinity :: string
  socket_read_thread_priority :: int
  sdds_to_bulkio_thread_priority :: int
  check_for_duplicate_sender :: bool

definition new_advanced_optimizations :: advanced_optimizations where
  "new_advanced_optimizations = \<lparr>buffer_size = 20000, udp_socket_buffer_size = 134217728,
     pkts_per_socket_read = 500, sdds_pkts_per_bulkio_push = 1000, socket_read_thread_affinity = '''',
     sdds_to_bulkio_thread_affinity = '''', socket_read_thread_priority = - 1,
     sdds_to_bulkio_thread_priority = - 1, check_for_duplicate_sender = False\<rparr>"

record attachment_override =
  enabled :: bool
  ip_address :: string
  override_vlan :: u16
  override_port :: u16
  override_endianness :: string

definition new_attachment_override :: attachment_override where
  "new_attachment_override = \<lparr>enabled = False, ip_address = ''127.0.0.1'', override_vlan = 0,
     override_port = 29495, override_endianness = ''4321''\<rparr>"

record advanced_configuration =
  push_on_ttv :: bool
  wait_on_ttv :: bool

definition new_advanced_configuration :: advanced_configuration where
  "new_advanced_configuration = \<lparr>push_on_ttv = False, wait_on_ttv = False\<rparr>"

record status =
  expected_sequence_number :: u16
  dropped_packets :: u32
  bits_per_sample :: u16
  empty_buffers_available :: string
  buffers_to_work :: string
  udp_socket_buffer_queue :: string
  num_udp_socket_readers :: int
  input_address :: string
  input_port :: int
  input_vlan :: int
  input_endianness :: string
  input_samplerate :: dbl
  input_stream_id :: string
  status_time_slips :: int
  num_packets_dropped_by_nic :: int
  status_interface :: string

text \<open>The constructor of the status.\<close>

definition new_status :: status where
  "new_status = \<lparr>expected_sequence_number = 0, dropped_packets = 0, bits_per_sample = 0,
     empty_buffers_available = '''', buffers_to_work = '''', udp_socket_buffer_queue = '''',
     num_udp_socket_readers = 0, input_address = '''', input_port = 0, input_vlan = 0,
     input_endianness = ''4321'', input_samplerate = Fin 0, input_stream_id = '''', status_time_slips = 0,
     num_packets_dropped_by_nic = 0, status_interface = ''''\<rparr>"

section \<open>CORBA values\<close>

text \<open>
  \<open>get_\<close> is the extraction of a member, None when it fails; \<open>get_props\<close> extracts a property map, as
  the function from its keys, and \<open>of_props\<close> makes a value from the entries of one.
\<close>

record 'any corba_values =
  get_props :: "'any \<Rightarrow> (string \<rightharpoonup> 'any) option"
  of_props :: "(string \<times> 'any) list \<Rightarrow> 'any"
  get_ulong :: "'any \<Rightarrow> u32 option"
  of_ulong :: "u32 \<Rightarrow> 'any"
  get_ushort :: "'any \<Rightarrow> u16 option"
  of_ushort :: "u16 \<Rightarrow> 'any"
  get_long :: "'any \<Rightarrow> int option"
  of_long :: "int \<Rightarrow> 'any"
  get_longlong :: "'any \<Rightarrow> int option"
  of_longlong :: "int \<Rightarrow> 'any"
  get_double :: "'any \<Rightarrow> dbl option"
  of_double :: "dbl \<Rightarrow> 'any"
  get_string :: "'any \<Rightarrow> string option"
  of_string :: "string \<Rightarrow> 'any"
  get_bool :: "'any \<Rightarrow> bool option"
  of_bool_any :: "bool \<Rightarrow> 'any"

text \<open>
  One member: nothing once an extraction has failed; a key that is absent leaves the member. The
  flag is the result of the operator.
\<close>

definition member_of ::
    "(string \<rightharpoonup> 'any) \<Rightarrow> string \<Rightarrow> ('any \<Rightarrow> 'v option) \<Rightarrow> ('v \<Rightarrow> 's \<Rightarrow> 's) \<Rightarrow> bool \<times> 's \<Rightarrow> bool \<times> 's" where
  "member_of props key extract store x =
     (if \<not> fst x then x
      else case props key of None \<Rightarrow> x
        | Some a \<Rightarrow> (case extract a of None \<Rightarrow> (False, snd x) | Some v \<Rightarrow> (True, store v (snd x))))"

section \<open>Advanced optimizations\<close>

definition extract_advanced_optimizations :: "'any corba_values \<Rightarrow> 'any \<Rightarrow> advanced_optimizations \<Rightarrow> bool \<times> advanced_optimizations" where
  "extract_advanced_optimizations A a s = (case get_props A a of None \<Rightarrow> (False, s)
     | Some props \<Rightarrow> (let
       x = (True, s);
       x = member_of props ''advanced_optimizations::buffer_size'' (get_ulong A)
         (\<lambda>v s. s\<lparr>buffer_size := v\<rparr>) x;
       x = member_of props ''advanced_optimizations::udp_socket_buffer_size'' (get_ulong A)
         (\<lambda>v s. s\<lparr>udp_socket_buffer_size := v\<rparr>) x;
       x = member_of props ''advanced_optimizations::pkts_per_socket_read'' (get_ushort A)
         (\<lambda>v s. s\<lparr>pkts_per_socket_read := v\<rparr>) x;
       x = member_of props ''advanced_optimizations::sdds_pkts_per_bulkio_push'' (get_ushort A)
         (\<lambda>v s. s\<lparr>sdds_pkts_per_bulkio_push := v\<rparr>) x;
       x = member_of props ''advanced_optimizations::socket_read_thread_affinity'' (get_string A)
         (\<lambda>v s. s\<lparr>socket_read_thread_affinity := v\<rparr>) x;
       x = member_of props ''advanced_optimizations::work_thread_affinity'' (get_string A)
         (\<lambda>v s. s\<lparr>sdds_to_bulkio_thread_affinity := v\<rparr>) x;
       x = member_of props ''advanced_optimizations::socket_read_thread_priority'' (get_long A)
         (\<lambda>v s. s\<lparr>socket_read_thread_priority := v\<rparr>) x;
       x = member_of props ''advanced_optimizations::sdds_to_bulkio_thread_priority'' (get_long A)
         (\<lambda>v s. s\<lparr>sdds_to_bulkio_thread_priority := v\<rparr>) x;
       x = member_of props ''advanced_optimizations::check_for_duplicate_sender'' (get_bool A)
         (\<lambda>v s. s\<lparr>check_for_duplicate_sender := v\<rparr>) x
       in x))"

definition insert_advanced_optimizations :: "'any corba_values \<Rightarrow> advanced_optimizations \<Rightarrow> 'any" where
  "insert_advanced_optimizations A s = of_props A [
     (''advanced_optimizations::buffer_size'', of_ulong A (buffer_size s)),
     (''advanced_optimizations::udp_socket_buffer_size'', of_ulong A (udp_socket_buffer_size s)),
     (''advanced_optimizations::pkts_per_socket_read'', of_ushort A (pkts_per_socket_read s)),
     (''advanced_optimizations::sdds_pkts_per_bulkio_push'', of_ushort A (sdds_pkts_per_bulkio_push s)),
     (''advanced_optimizations::socket_read_thread_affinity'', of_string A (socket_read_thread_affinity s)),
     (''advanced_optimizations::work_thread_affinity'', of_string A (sdds_to_bulkio_thread_affinity s)),
     (''advanced_optimizations::socket_read_thread_priority'', of_long A (socket_read_thread_priority s)),
     (''advanced_optimizations::sdds_to_bulkio_thread_priority'', of_long A (sdds_to_bulkio_thread_priority s)),
     (''advanced_optimizations::check_for_duplicate_sender'', of_bool_any A (check_for_duplicate_sender s))]"

definition same_advanced_optimizations :: "advanced_optimizations \<Rightarrow> advanced_optimizations \<Rightarrow> bool" where
  "same_advanced_optimizations s1 s2 =
     (if buffer_size s1 \<noteq> buffer_size s2 then False else
     (if udp_socket_buffer_size s1 \<noteq> udp_socket_buffer_size s2 then False else
     (if pkts_per_socket_read s1 \<noteq> pkts_per_socket_read s2 then False else
     (if sdds_pkts_per_bulkio_push s1 \<noteq> sdds_pkts_per_bulkio_push s2 then False else
     (if socket_read_thread_affinity s1 \<noteq> socket_read_thread_affinity s2 then False else
     (if sdds_to_bulkio_thread_affinity s1 \<noteq> sdds_to_bulkio_thread_affinity s2 then False else
     (if socket_read_thread_priority s1 \<noteq> socket_read_thread_priority s2 then False else
     (if sdds_to_bulkio_thread_priority s1 \<noteq> sdds_to_bulkio_thread_priority s2 then False else
     (if check_for_duplicate_sender s1 \<noteq> check_for_duplicate_sender s2 then False else
     True)))))))))"

section \<open>Attachment override\<close>

definition extract_attachment_override :: "'any corba_values \<Rightarrow> 'any \<Rightarrow> attachment_override \<Rightarrow> bool \<times> attachment_override" where
  "extract_attachment_override A a s = (case get_props A a of None \<Rightarrow> (False, s)
     | Some props \<Rightarrow> (let
       x = (True, s);
       x = member_of props ''attachment_override::enabled'' (get_bool A)
         (\<lambda>v s. s\<lparr>enabled := v\<rparr>) x;
       x = member_of props ''attachment_override::ip_address'' (get_string A)
         (\<lambda>v s. s\<lparr>ip_address := v\<rparr>) x;
       x = member_of props ''attachment_override::vlan'' (get_ushort A)
         (\<lambda>v s. s\<lparr>override_vlan := v\<rparr>) x;
       x = member_of props ''attachment_override:port'' (get_ushort A)
         (\<lambda>v s. s\<lparr>override_port := v\<rparr>) x;
       x = member_of props ''attachment_override:endianness'' (get_string A)
         (\<lambda>v s. s\<lparr>override_endianness := v\<rparr>) x
       in x))"

definition insert_attachment_override :: "'any corba_values \<Rightarrow> attachment_override \<Rightarrow> 'any" where
  "insert_attachment_override A s = of_props A [
     (''attachment_override::enabled'', of_bool_any A (enabled s)),
     (''attachment_override::ip_address'', of_string A (ip_address s)),
     (''attachment_override::vlan'', of_ushort A (override_vlan s)),
     (''attachment_override:port'', of_ushort A (override_port s)),
     (''attachment_override:endianness'', of_string A (override_endianness s))]"

definition same_attachment_override :: "attachment_override \<Rightarrow> attachment_override \<Rightarrow> bool" where
  "same_attachment_override s1 s2 =
     (if enabled s1 \<noteq> enabled s2 then False else
     (if ip_address s1 \<noteq> ip_address s2 then False else
     (if override_vlan s1 \<noteq> override_vlan s2 then False else
     (if override_port s1 \<noteq> override_port s2 then False else
     (if override_endianness s1 \<noteq> override_endianness s2 then False else
     True)))))"

section \<open>Advanced configuration\<close>

definition extract_advanced_configuration :: "'any corba_values \<Rightarrow> 'any \<Rightarrow> advanced_configuration \<Rightarrow> bool \<times> advanced_configuration" where
  "extract_advanced_configuration A a s = (case get_props A a of None \<Rightarrow> (False, s)
     | Some props \<Rightarrow> (let
       x = (True, s);
       x = member_of props ''advanced_configuration::push_on_ttv'' (get_bool A)
         (\<lambda>v s. s\<lparr>push_on_ttv := v\<rparr>) x;
       x = member_of props ''advanced_configuration::wait_on_ttv'' (get_bool A)
         (\<lambda>v s. s\<lparr>wait_on_ttv := v\<rparr>) x
       in x))"

definition insert_advanced_configuration :: "'any corba_values \<Rightarrow> advanced_configuration \<Rightarrow> 'any" where
  "insert_advanced_configuration A s = of_props A [
     (''advanced_configuration::push_on_ttv'', of_bool_any A (push_on_ttv s)),
     (''advanced_configuration::wait_on_ttv'', of_bool_any A (wait_on_ttv s))]"

definition same_advanced_configuration :: "advanced_configuration \<Rightarrow> advanced_configuration \<Rightarrow> bool" where
  "same_advanced_configuration s1 s2 =
     (if push_on_ttv s1 \<noteq> push_on_ttv s2 then False else
     (if wait_on_ttv s1 \<noteq> wait_on_ttv s2 then False else
     True))"

section \<open>Status\<close>

definition extract_status :: "'any corba_values \<Rightarrow> 'any \<Rightarrow> status \<Rightarrow> bool \<times> status" where
  "extract_status A a s = (case get_props A a of None \<Rightarrow> (False, s)
     | Some props \<Rightarrow> (let
       x = (True, s);
       x = member_of props ''status::expected_sequence_number'' (get_ushort A)
         (\<lambda>v s. s\<lparr>expected_sequence_number := v\<rparr>) x;
       x = member_of props ''status::dropped_packets'' (get_ulong A)
         (\<lambda>v s. s\<lparr>dropped_packets := v\<rparr>) x;
       x = member_of props ''status::bits_per_sample'' (get_ushort A)
         (\<lambda>v s. s\<lparr>bits_per_sample := v\<rparr>) x;
       x = member_of props ''status::empty_buffers_available'' (get_string A)
         (\<lambda>v s. s\<lparr>empty_buffers_available := v\<rparr>) x;
       x = member_of props ''status::buffers_to_work'' (get_string A)
         (\<lambda>v s. s\<lparr>buffers_to_work := v\<rparr>) x;
       x = member_of props ''status::udp_socket_buffer_queue'' (get_string A)
         (\<lambda>v s. s\<lparr>udp_socket_buffer_queue := v\<rparr>) x;
       x = member_of props ''status::num_udp_socket_readers'' (get_long A)
         (\<lambda>v s. s\<lparr>num_udp_socket_readers := v\<rparr>) x;
       x = member_of props ''status::input_address'' (get_string A)
         (\<lambda>v s. s\<lparr>input_address := v\<rparr>) x;
       x = member_of props ''status::input_port'' (get_long A)
         (\<lambda>v s. s\<lparr>input_port := v\<rparr>) x;
       x = member_of props ''status::input_vlan'' (get_long A)
         (\<lambda>v s. s\<lparr>input_vlan := v\<rparr>) x;
       x = member_of props ''status::input_endianness'' (get_string A)
         (\<lambda>v s. s\<lparr>input_endianness := v\<rparr>) x;
       x = member_of props ''status::input_samplerate'' (get_double A)
         (\<lambda>v s. s\<lparr>input_samplerate := v\<rparr>) x;
       x = member_of props ''status::input_stream_id'' (get_string A)
         (\<lambda>v s. s\<lparr>input_stream_id := v\<rparr>) x;
       x = member_of props ''status::time_slips'' (get_longlong A)
         (\<lambda>v s. s\<lparr>status_time_slips := v\<rparr>) x;
       x = member_of props ''status::num_packets_dropped_by_nic'' (get_long A)
         (\<lambda>v s. s\<lparr>num_packets_dropped_by_nic := v\<rparr>) x;
       x = member_of props ''status::interface'' (get_string A)
         (\<lambda>v s. s\<lparr>status_interface := v\<rparr>) x
       in x))"

definition status_entries :: "'any corba_values \<Rightarrow> status \<Rightarrow> (string \<times> 'any) list" where
  "status_entries A s = [
     (''status::expected_sequence_number'', of_ushort A (expected_sequence_number s)),
     (''status::dropped_packets'', of_ulong A (dropped_packets s)),
     (''status::bits_per_sample'', of_ushort A (bits_per_sample s)),
     (''status::empty_buffers_available'', of_string A (empty_buffers_available s)),
     (''status::buffers_to_work'', of_string A (buffers_to_work s)),
     (''status::udp_socket_buffer_queue'', of_string A (udp_socket_buffer_queue s)),
     (''status::num_udp_socket_readers'', of_long A (num_udp_socket_readers s)),
     (''status::input_address'', of_string A (input_address s)),
     (''status::input_port'', of_long A (input_port s)),
     (''status::input_vlan'', of_long A (input_vlan s)),
     (''status::input_endianness'', of_string A (input_endianness s)),
     (''status::input_samplerate'', of_double A (input_samplerate s)),
     (''status::input_stream_id'', of_string A (input_stream_id s)),
     (''status::time_slips'', of_longlong A (status_time_slips s)),
     (''status::num_packets_dropped_by_nic'', of_long A (num_packets_dropped_by_nic s)),
     (''status::interface'', of_string A (status_interface s))]"

definition insert_status :: "'any corba_values \<Rightarrow> status \<Rightarrow> 'any" where
  "insert_status A s = of_props A (status_entries A s)"

definition same_status :: "status \<Rightarrow> status \<Rightarrow> bool" where
  "same_status s1 s2 =
     (if expected_sequence_number s1 \<noteq> expected_sequence_number s2 then False else
     (if dropped_packets s1 \<noteq> dropped_packets s2 then False else
     (if bits_per_sample s1 \<noteq> bits_per_sample s2 then False else
     (if empty_buffers_available s1 \<noteq> empty_buffers_available s2 then False else
     (if buffers_to_work s1 \<noteq> buffers_to_work s2 then False else
     (if udp_socket_buffer_queue s1 \<noteq> udp_socket_buffer_queue s2 then False else
     (if num_udp_socket_readers s1 \<noteq> num_udp_socket_readers s2 then False else
     (if input_address s1 \<noteq> input_address s2 then False else
     (if input_port s1 \<noteq> input_port s2 then False else
     (if input_vlan s1 \<noteq> input_vlan s2 then False else
     (if input_endianness s1 \<noteq> input_endianness s2 then False else
     (if \<not> deq (input_samplerate s1) (input_samplerate s2) then False else
     (if input_stream_id s1 \<noteq> input_stream_id s2 then False else
     (if status_time_slips s1 \<noteq> status_time_slips s2 then False else
     (if num_packets_dropped_by_nic s1 \<noteq> num_packets_dropped_by_nic s2 then False else
     (if status_interface s1 \<noteq> status_interface s2 then False else
     True))))))))))))))))"

section \<open>IDs, formats and inequality\<close>

definition getId_advanced_optimizations :: string where "getId_advanced_optimizations = ''advanced_optimizations''"
definition getId_attachment_override :: string where "getId_attachment_override = ''attachment_override''"
definition getId_advanced_configuration :: string where "getId_advanced_configuration = ''advanced_configuration''"
definition getId_status :: string where "getId_status = ''status''"

definition getFormat_advanced_optimizations :: string where "getFormat_advanced_optimizations = ''IIHHssiib''"
definition getFormat_attachment_override :: string where "getFormat_attachment_override = ''bsHHs''"
definition getFormat_advanced_configuration :: string where "getFormat_advanced_configuration = ''bb''"
definition getFormat_status :: string where "getFormat_status = ''HIHsssisiisdslis''"

lemmas getId_defs = getId_advanced_optimizations_def getId_attachment_override_def
  getId_advanced_configuration_def getId_status_def

lemmas getFormat_defs = getFormat_advanced_optimizations_def getFormat_attachment_override_def
  getFormat_advanced_configuration_def getFormat_status_def

definition differ_advanced_optimizations :: "advanced_optimizations \<Rightarrow> advanced_optimizations \<Rightarrow> bool" where
  "differ_advanced_optimizations s1 s2 \<longleftrightarrow> \<not> same_advanced_optimizations s1 s2"

definition differ_attachment_override :: "attachment_override \<Rightarrow> attachment_override \<Rightarrow> bool" where
  "differ_attachment_override s1 s2 \<longleftrightarrow> \<not> same_attachment_override s1 s2"

definition differ_advanced_configuration :: "advanced_configuration \<Rightarrow> advanced_configuration \<Rightarrow> bool" where
  "differ_advanced_configuration s1 s2 \<longleftrightarrow> \<not> same_advanced_configuration s1 s2"

definition differ_status :: "status \<Rightarrow> status \<Rightarrow> bool" where
  "differ_status s1 s2 \<longleftrightarrow> \<not> same_status s1 s2"

text \<open>The values that are just the letter of their type: an insertion then gives the list of the types
  of a struct's members, which is its format.\<close>

definition type_letters :: "string corba_values" where
  "type_letters = \<lparr>get_props = (\<lambda>_. None), of_props = concat \<circ> map snd, get_ulong = (\<lambda>_. None), of_ulong = (\<lambda>_. ''I''),
     get_ushort = (\<lambda>_. None), of_ushort = (\<lambda>_. ''H''), get_long = (\<lambda>_. None), of_long = (\<lambda>_. ''i''),
     get_longlong = (\<lambda>_. None), of_longlong = (\<lambda>_. ''l''), get_double = (\<lambda>_. None), of_double = (\<lambda>_. ''d''),
     get_string = (\<lambda>_. None), of_string = (\<lambda>_. ''s''), get_bool = (\<lambda>_. None), of_bool_any = (\<lambda>_. ''b'')\<rparr>"

lemma formats_list_members:
  "insert_advanced_optimizations type_letters o1 = getFormat_advanced_optimizations"
  "insert_attachment_override type_letters o2 = getFormat_attachment_override"
  "insert_advanced_configuration type_letters o3 = getFormat_advanced_configuration"
  "insert_status type_letters o4 = getFormat_status"
  by (simp_all add: type_letters_def getFormat_defs insert_advanced_optimizations_def insert_attachment_override_def
      insert_advanced_configuration_def insert_status_def status_entries_def)

section \<open>Correctness\<close>

text \<open>What the framework promises of its values: what was inserted is extracted again.\<close>

definition signed_range :: "nat \<Rightarrow> int \<Rightarrow> bool" where
  "signed_range n v \<longleftrightarrow> - (2 ^ (n - 1)) \<le> v \<and> v < 2 ^ (n - 1)"

definition values_kept :: "'any corba_values \<Rightarrow> bool" where
  "values_kept A \<longleftrightarrow> (\<forall>ps. distinct (map fst ps) \<longrightarrow> get_props A (of_props A ps) = Some (map_of ps))
     \<and> (\<forall>v. get_ulong A (of_ulong A v) = Some v) \<and> (\<forall>v. get_ushort A (of_ushort A v) = Some v)
     \<and> (\<forall>v. signed_range 32 v \<longrightarrow> get_long A (of_long A v) = Some v)
     \<and> (\<forall>v. signed_range 64 v \<longrightarrow> get_longlong A (of_longlong A v) = Some v)
     \<and> (\<forall>v. get_double A (of_double A v) = Some v) \<and> (\<forall>v. get_string A (of_string A v) = Some v)
     \<and> (\<forall>v. get_bool A (of_bool_any A v) = Some v)"

lemma kept:
  assumes "values_kept A"
  shows "distinct (map fst ps) \<Longrightarrow> get_props A (of_props A ps) = Some (map_of ps)"
    "get_ulong A (of_ulong A u) = Some u" "get_ushort A (of_ushort A h) = Some h"
    "signed_range 32 i \<Longrightarrow> get_long A (of_long A i) = Some i"
    "signed_range 64 i \<Longrightarrow> get_longlong A (of_longlong A i) = Some i"
    "get_double A (of_double A d) = Some d" "get_string A (of_string A t) = Some t"
    "get_bool A (of_bool_any A b) = Some b"
  using assms by (auto simp: values_kept_def)

text \<open>A member that is there is stored, one that is not is kept, and after a failure nothing changes.\<close>

lemma member_of_cases:
  "props key = Some a \<Longrightarrow> extract a = Some v \<Longrightarrow> member_of props key extract store (True, s) = (True, store v s)"
  "props key = None \<Longrightarrow> member_of props key extract store x = x"
  "member_of props key extract store (False, s) = (False, s)"
  "props key = Some a \<Longrightarrow> extract a = None \<Longrightarrow> member_of props key extract store (True, s) = (False, s)"
  by (simp_all add: member_of_def)

text \<open>C28:
  Each of the three structs the component can be configured with is the same after it has been
  inserted into a CORBA value and extracted again, whatever the struct held that receives it.
\<close>

theorem structs_round_trip:
  assumes "values_kept A"
    and "signed_range 32 (socket_read_thread_priority s)" "signed_range 32 (sdds_to_bulkio_thread_priority s)"
  shows "extract_advanced_optimizations A (insert_advanced_optimizations A s) s0 = (True, s)
    \<and> extract_attachment_override A (insert_attachment_override A ov) ov0 = (True, ov)
    \<and> extract_advanced_configuration A (insert_advanced_configuration A cf) cf0 = (True, cf)"
proof (intro conjI)
  note k = kept [OF assms(1)] member_of_cases(1)
  show "extract_advanced_optimizations A (insert_advanced_optimizations A s) s0 = (True, s)"
    using assms(2,3)
    by (simp add: extract_advanced_optimizations_def insert_advanced_optimizations_def k)
  show "extract_attachment_override A (insert_attachment_override A ov) ov0 = (True, ov)"
    by (simp add: extract_attachment_override_def insert_attachment_override_def k)
  show "extract_advanced_configuration A (insert_advanced_configuration A cf) cf0 = (True, cf)"
    by (simp add: extract_advanced_configuration_def insert_advanced_configuration_def k)
qed

text \<open>The same of the status, whose numbers have two widths.\<close>

lemma status_round_trip:
  assumes "values_kept A" "signed_range 32 (num_udp_socket_readers s)" "signed_range 32 (input_port s)"
    "signed_range 32 (input_vlan s)" "signed_range 64 (status_time_slips s)"
    "signed_range 32 (num_packets_dropped_by_nic s)"
  shows "extract_status A (insert_status A s) s0 = (True, s)"
proof -
  define P where "P = map_of (status_entries A s)"
  have P: "get_props A (insert_status A s) = Some P"
    unfolding P_def insert_status_def by (rule kept(1) [OF assms(1)]) (simp add: status_entries_def)
  have m: "P ''status::expected_sequence_number'' = Some (of_ushort A (expected_sequence_number s))"
    "P ''status::dropped_packets'' = Some (of_ulong A (dropped_packets s))"
    "P ''status::bits_per_sample'' = Some (of_ushort A (bits_per_sample s))"
    "P ''status::empty_buffers_available'' = Some (of_string A (empty_buffers_available s))"
    "P ''status::buffers_to_work'' = Some (of_string A (buffers_to_work s))"
    "P ''status::udp_socket_buffer_queue'' = Some (of_string A (udp_socket_buffer_queue s))"
    "P ''status::num_udp_socket_readers'' = Some (of_long A (num_udp_socket_readers s))"
    "P ''status::input_address'' = Some (of_string A (input_address s))"
    "P ''status::input_port'' = Some (of_long A (input_port s))"
    "P ''status::input_vlan'' = Some (of_long A (input_vlan s))"
    "P ''status::input_endianness'' = Some (of_string A (input_endianness s))"
    "P ''status::input_samplerate'' = Some (of_double A (input_samplerate s))"
    "P ''status::input_stream_id'' = Some (of_string A (input_stream_id s))"
    "P ''status::time_slips'' = Some (of_longlong A (status_time_slips s))"
    "P ''status::num_packets_dropped_by_nic'' = Some (of_long A (num_packets_dropped_by_nic s))"
    "P ''status::interface'' = Some (of_string A (status_interface s))"
    by (simp_all add: P_def status_entries_def)
  show ?thesis
    using assms(2-) m kept(2-) [OF assms(1)] by (simp add: extract_status_def P member_of_cases(1))
qed

text \<open>
  A value with only some of the members changes only these: here one that is a property map with a
  buffer size and nothing else.
\<close>

lemma partial_configuration:
  assumes "get_props A a = Some [''advanced_optimizations::buffer_size'' \<mapsto> b]" "get_ulong A b = Some n"
  shows "extract_advanced_optimizations A a s = (True, s\<lparr>buffer_size := n\<rparr>)"
  using assms by (simp add: extract_advanced_optimizations_def member_of_cases)

text \<open>An extraction that fails is not undone: the members before the one that failed have changed.\<close>

lemma failed_extraction_not_undone:
  assumes "get_props A a = Some [''advanced_optimizations::buffer_size'' \<mapsto> b,
      ''advanced_optimizations::pkts_per_socket_read'' \<mapsto> c]"
    and "get_ulong A b = Some n" "get_ushort A c = None"
  shows "extract_advanced_optimizations A a s = (False, s\<lparr>buffer_size := n\<rparr>)"
  using assms by (simp add: extract_advanced_optimizations_def member_of_cases)

text \<open>
  The comparisons are equality of the structs; of the status as well, except that a status whose
  sample rate is not a number differs from itself.
\<close>

theorem comparisons_are_equality:
  "(same_advanced_optimizations o1 o2 \<longleftrightarrow> o1 = o2) \<and> (same_attachment_override a1 a2 \<longleftrightarrow> a1 = a2)
    \<and> (same_advanced_configuration c1 c2 \<longleftrightarrow> c1 = c2)
    \<and> (same_status s1 s2 \<longleftrightarrow> s1 = s2 \<and> input_samplerate s1 \<noteq> NaN)"
proof (intro conjI)
  show "same_advanced_optimizations o1 o2 \<longleftrightarrow> o1 = o2"
    by (cases o1; cases o2) (simp add: same_advanced_optimizations_def)
  show "same_attachment_override a1 a2 \<longleftrightarrow> a1 = a2"
    by (cases a1; cases a2) (simp add: same_attachment_override_def)
  show "same_advanced_configuration c1 c2 \<longleftrightarrow> c1 = c2"
    by (cases c1; cases c2) (simp add: same_advanced_configuration_def)
  show "same_status s1 s2 \<longleftrightarrow> s1 = s2 \<and> input_samplerate s1 \<noteq> NaN"
    by (cases s1; cases s2) (simp add: same_status_def deq_def conj_ac)
qed

section \<open>Examples\<close>

datatype sample_any = AnyProps "(string \<times> sample_any) list" | AnyULong u32 | AnyUShort u16
  | AnyLong int | AnyLongLong int | AnyDouble dbl | AnyString string | AnyBool bool

definition sample_values :: "sample_any corba_values" where
  "sample_values = \<lparr>get_props = (\<lambda>a. case a of AnyProps ps \<Rightarrow> Some (map_of ps) | _ \<Rightarrow> None), of_props = AnyProps,
     get_ulong = (\<lambda>a. case a of AnyULong v \<Rightarrow> Some v | _ \<Rightarrow> None), of_ulong = AnyULong,
     get_ushort = (\<lambda>a. case a of AnyUShort v \<Rightarrow> Some v | _ \<Rightarrow> None), of_ushort = AnyUShort,
     get_long = (\<lambda>a. case a of AnyLong v \<Rightarrow> Some v | _ \<Rightarrow> None), of_long = AnyLong,
     get_longlong = (\<lambda>a. case a of AnyLongLong v \<Rightarrow> Some v | _ \<Rightarrow> None), of_longlong = AnyLongLong,
     get_double = (\<lambda>a. case a of AnyDouble v \<Rightarrow> Some v | _ \<Rightarrow> None), of_double = AnyDouble,
     get_string = (\<lambda>a. case a of AnyString v \<Rightarrow> Some v | _ \<Rightarrow> None), of_string = AnyString,
     get_bool = (\<lambda>a. case a of AnyBool v \<Rightarrow> Some v | _ \<Rightarrow> None), of_bool_any = AnyBool\<rparr>"

lemma structs_round_trip_witness:
  "values_kept sample_values
   \<and> extract_advanced_optimizations sample_values
       (insert_advanced_optimizations sample_values new_advanced_optimizations)
       (new_advanced_optimizations\<lparr>buffer_size := 7\<rparr>) = (True, new_advanced_optimizations)"
proof -
  have k: "values_kept sample_values" by (simp add: values_kept_def sample_values_def)
  have "signed_range 32 (socket_read_thread_priority new_advanced_optimizations)"
      "signed_range 32 (sdds_to_bulkio_thread_priority new_advanced_optimizations)"
    by (simp_all add: signed_range_def new_advanced_optimizations_def)
  from structs_round_trip [OF k this, of "new_advanced_optimizations\<lparr>buffer_size := 7\<rparr>"
      new_attachment_override new_attachment_override new_advanced_configuration new_advanced_configuration] k
  show ?thesis by blast
qed

end
