(* ===== verification/Binary32.thy ===== *)
theory Binary32
  imports Binary64 C_Strings
begin

text \<open>
  The C \<open>float\<close>, and the text a stream prints for one with two decimals. The lemmas bound the error of
  a chain of float operations relative to the result.
\<close>

section \<open>Single precision\<close>

text \<open>
  A float is held as a double with 24 digits. An operation on two floats is the operation on doubles
  rounded once more: the 53 digits of a double are more than twice 24, so the result is the same.
\<close>

definition rnd32 :: "rat \<Rightarrow> dbl" where
  "rnd32 x = (if x = 0 then Fin 0 else
     let y = round_at (max (- 149) (ilog2 \<bar>x\<bar> - 23)) x in
     if 2 ^ 128 \<le> y then PInf else if y \<le> - (2 ^ 128) then MInf else Fin y)"

fun to_float :: "dbl \<Rightarrow> dbl" where
  "to_float (Fin x) = rnd32 x"
| "to_float d = d"

section \<open>Printing\<close>

text \<open>
  \<open>std::fixed\<close> with precision 2: the exact value to the nearest hundredth, ties to even; an invalid
  operation gives the NaN with the sign bit set.
\<close>

definition hundredths :: "nat \<Rightarrow> string" where
  "hundredths k = decimal (k div 100) @ ''.'' @ [digit (k div 10 mod 10), digit (k mod 10)]"

fun fixed2 :: "dbl \<Rightarrow> string" where
  "fixed2 (Fin x) = (if x < 0 then ''-'' else '''') @ hundredths (nat (rne (100 * \<bar>x\<bar>)))"
| "fixed2 PInf = ''inf''"
| "fixed2 MInf = ''-inf''"
| "fixed2 NaN = ''-nan''"

definition percent_value :: "nat \<Rightarrow> nat \<Rightarrow> dbl" where
  "percent_value n d = to_float (ddiv (to_float (dmul (Fin 100) (rnd32 (of_nat n)))) (rnd32 (of_nat d)))"

section \<open>The error\<close>

text \<open>\<open>y\<close> is \<open>x\<close> up to the relative error \<open>u\<close>.\<close>

definition near :: "rat \<Rightarrow> rat \<Rightarrow> rat \<Rightarrow> bool" where
  "near u x y \<longleftrightarrow> x * (1 - u) \<le> y \<and> y \<le> x * (1 + u)"

lemma round_at_error: "\<bar>round_at e x - x\<bar> \<le> 2 powi e / 2"
proof -
  have "\<bar>of_int (rne (x / 2 powi e)) - x / 2 powi e\<bar> * 2 powi e \<le> 1 / 2 * 2 powi e"
    by (rule mult_right_mono [OF rne_error]) simp
  moreover have "(of_int (rne (x / 2 powi e)) - x / 2 powi e) * 2 powi e = round_at e x - x"
    by (simp add: round_at_def left_diff_distrib)
  ultimately show ?thesis by (metis abs_mult abs_of_nonneg powi2_nonneg mult.commute times_divide_eq_right mult.right_neutral)
qed

lemma round_at_near:
  assumes "0 < x"
  shows "near (2 powi (- m)) x (round_at (ilog2 x - m + 1) x)"
proof -
  have "2 powi (ilog2 x - m + 1) / 2 = 2 powi ilog2 x * (2 powi (- m) :: rat)"
    by (simp add: power_int_add power_int_diff power_int_minus field_simps)
  also have "\<dots> \<le> x * 2 powi (- m)" using ilog2_bounds [OF assms] by (intro mult_right_mono) auto
  finally have "\<bar>round_at (ilog2 x - m + 1) x - x\<bar> \<le> x * 2 powi (- m)" using order_trans [OF round_at_error] by blast
  then show ?thesis unfolding near_def right_diff_distrib distrib_left mult_1_right by linarith
qed

lemma ilog2_pow_range:
  assumes "2 powi a \<le> x" "x < 2 powi b"
  shows "a \<le> ilog2 x" "ilog2 x < b"
proof -
  have pos: "0 < x" using assms(1) zero_less_power_int [of "2 :: rat" a] by linarith
  show "ilog2 x < b" using assms(2) by (simp only: ilog2_less_iff [OF pos])
  show "a \<le> ilog2 x" using assms(1) ilog2_less_iff [OF pos, of a] by linarith
qed

lemma rnd32_near:
  assumes "2 powi (- 100) \<le> x" "x < 2 powi 100"
  obtains y where "rnd32 x = Fin y" "near (2 powi (- 24)) x y"
proof -
  have pos: "0 < x" using assms(1) zero_less_power_int [of "2 :: rat" "- 100"] by linarith
  have r: "- 100 \<le> ilog2 x" "ilog2 x < 100" using ilog2_pow_range [OF assms] .
  define y where "y = round_at (ilog2 x - 24 + 1) x"
  have near: "near (2 powi (- 24)) x y" unfolding y_def by (rule round_at_near [OF pos])
  have "y \<le> x * 2" using near pos by (auto simp: near_def elim!: order_trans intro!: mult_left_mono)
  also have "\<dots> < 2 ^ 128" using assms(2) by (simp add: power_int_def)
  finally have small: "y < 2 ^ 128" .
  have "0 \<le> x * (1 - 2 powi (- 24))" using pos by simp
  then have "0 \<le> y" using near unfolding near_def by linarith
  then have "rnd32 x = Fin y"
    using pos r small by (auto simp: rnd32_def y_def Let_def not_le max_def)
  then show thesis using near by (rule that)
qed

lemma rnd_near:
  assumes "2 powi (- 100) \<le> x" "x < 2 powi 100"
  obtains y where "rnd x = Fin y" "near (2 powi (- 53)) x y"
proof -
  have pos: "0 < x" using assms(1) zero_less_power_int [of "2 :: rat" "- 100"] by linarith
  have r: "- 100 \<le> ilog2 x" "ilog2 x < 100" using ilog2_pow_range [OF assms] .
  define y where "y = round_at (ilog2 x - 53 + 1) x"
  have near: "near (2 powi (- 53)) x y" unfolding y_def by (rule round_at_near [OF pos])
  have "2 powi 100 \<le> (2 powi 1023 :: rat)" by (rule powi2_mono) simp
  then have "0 \<le> x" "x \<le> 2 powi 1023" using pos assms(2) by linarith+
  from rnd_error [OF this] obtain z where "rnd x = Fin z" by auto
  then have "rnd x = Fin y"
    using pos r by (auto simp: rnd_def ulp_exp_def y_def Let_def max_def split: if_splits)
  then show thesis using near by (rule that)
qed

text \<open>One operation on floats, and a chain of them.\<close>

lemma near_trans:
  assumes "near u x y" "near v y z" "0 \<le> u" "u \<le> 1" "0 \<le> v" "v \<le> 1" "0 \<le> x" "u + v + u * v \<le> w"
  shows "near w x z"
proof -
  have "x * ((1 - u) * (1 - v)) \<le> y * (1 - v)"
    using mult_right_mono [of "x * (1 - u)" y "1 - v"] assms(1,6) by (simp add: near_def mult.assoc)
  moreover have "y * (1 + v) \<le> x * ((1 + u) * (1 + v))"
    using mult_right_mono [of y "x * (1 + u)" "1 + v"] assms(1,5) by (simp add: near_def mult.assoc)
  moreover have "0 \<le> u * v" using assms(3,5) by (rule mult_nonneg_nonneg)
  then have "1 - w \<le> (1 - u) * (1 - v)" "(1 + u) * (1 + v) \<le> 1 + w"
    using assms(8) by (simp_all add: left_diff_distrib right_diff_distrib distrib_left distrib_right)
  then have "x * (1 - w) \<le> x * ((1 - u) * (1 - v))" "x * ((1 + u) * (1 + v)) \<le> x * (1 + w)"
    using assms(7) by (simp_all only: mult_left_mono)
  ultimately show ?thesis using assms(2) unfolding near_def by linarith
qed

lemma near_mult: "near u x y \<Longrightarrow> 0 \<le> c \<Longrightarrow> near u (c * x) (c * y)"
  unfolding near_def mult.assoc by (auto intro: mult_left_mono)

lemma near_pos: "near u x y \<Longrightarrow> 0 < x \<Longrightarrow> u < 1 \<Longrightarrow> 0 < y"
  unfolding near_def using mult_pos_pos [of x "1 - u"] by linarith

lemma float_op_near:
  assumes "2 powi (- 90) \<le> x" "x < 2 powi 90"
  obtains y where "to_float (rnd x) = Fin y" "near (2 powi (- 23)) x y"
proof -
  have wide: "2 powi (- 100) \<le> (2 powi (- 90) :: rat)" "2 powi 90 < (2 powi 100 :: rat)"
    by (rule powi2_mono, simp) simp
  have pos: "0 < x" using assms(1) zero_less_power_int [of "2 :: rat" "- 90"] by linarith
  obtain y where y: "rnd x = Fin y" "near (2 powi (- 53)) x y" by (rule rnd_near [of x]) (use assms wide in linarith)+
  have "x * (1 / 2) \<le> y" "y \<le> x * 2"
    using y(2) pos by (auto simp: near_def elim!: order_trans order_trans [rotated] intro!: mult_left_mono)
  moreover have "2 * 2 powi (- 100) \<le> (2 powi (- 90) :: rat)" "2 * 2 powi 90 < (2 powi 100 :: rat)"
    by (simp, simp add: power_int_def)
  ultimately have range: "2 powi (- 100) \<le> y" "y < 2 powi 100" using assms by linarith+
  obtain z where z: "rnd32 y = Fin z" "near (2 powi (- 24)) y z" by (rule rnd32_near [OF range])
  have "near (2 powi (- 23)) x z" by (rule near_trans [OF y(2) z(2)]) (use pos in simp_all)
  then show thesis using that y(1) z(1) by simp
qed

lemma nat64_range:
  assumes "0 < n" "n < 2 ^ 64"
  shows "0 < (of_nat n :: rat)" "1 \<le> (of_nat n :: rat)" "of_nat n < (2 ^ 64 :: rat)"
proof -
  have "of_nat n < (of_nat (2 ^ 64) :: rat)" using assms(2) by (simp only: of_nat_less_iff)
  then show "of_nat n < (2 ^ 64 :: rat)" by simp
qed (use assms(1) in simp_all)

lemma float_nat_near:
  assumes "0 < n" "n < 2 ^ 64"
  obtains y where "rnd32 (of_nat n) = Fin y" "near (2 powi (- 23)) (of_nat n) y"
proof -
  note n = nat64_range(2,3) [OF assms]
  have wide: "2 powi (- 100) \<le> (1 :: rat)" "2 ^ 64 < (2 powi 100 :: rat)"
    using powi2_mono [of "- 100" 0] by (simp, simp add: power_int_def)
  obtain y where y: "rnd32 (of_nat n) = Fin y" "near (2 powi (- 24)) (of_nat n) y"
    by (rule rnd32_near [of "of_nat n"]) (use n wide in linarith)+
  have "near (2 powi (- 23)) (of_nat n) y"
    by (rule near_trans [OF y(2), of 0]) (simp_all add: near_def)
  then show thesis using that y(1) by blast
qed

lemma near_divide:
  assumes "near u x y" "near v c d" "0 \<le> x" "0 < c" "v < 1" "0 \<le> w" "w \<le> 1"
    "1 + u \<le> (1 + w) * (1 - v)" "(1 - w) * (1 + v) \<le> 1 - u"
  shows "near w (x / c) (y / d)"
proof -
  have d: "0 < d" by (rule near_pos [OF assms(2,4,5)])
  have q: "0 \<le> x / c * (1 + w)" "0 \<le> x / c * (1 - w)" using assms(3,4,6,7) by (auto intro!: mult_nonneg_nonneg)
  have "y \<le> x * ((1 + w) * (1 - v))"
    using assms(1) mult_left_mono [OF assms(8,3)] unfolding near_def by linarith
  also have "\<dots> = x / c * (1 + w) * (c * (1 - v))" using assms(4) by simp
  also have "\<dots> \<le> x / c * (1 + w) * d" using assms(2) by (intro mult_left_mono q(1)) (simp add: near_def)
  finally have up: "y / d \<le> x / c * (1 + w)" using d by (simp only: pos_divide_le_eq)
  have "x / c * (1 - w) * d \<le> x / c * (1 - w) * (c * (1 + v))"
    using assms(2) by (intro mult_left_mono q(2)) (simp add: near_def)
  also have "\<dots> = x * ((1 - w) * (1 + v))" using assms(4) by simp
  also have "\<dots> \<le> y" using assms(1) mult_left_mono [OF assms(9,3)] unfolding near_def by linarith
  finally have "x / c * (1 - w) \<le> y / d" using d by (simp only: pos_le_divide_eq)
  then show ?thesis using up by (simp add: near_def)
qed

lemma near_between: "near (2 powi (- 23)) x y \<Longrightarrow> 0 \<le> x \<Longrightarrow> x / 2 \<le> y \<and> y \<le> 2 * x"
  using mult_left_mono [of "1 / 2" "1 - 2 powi (- 23)" x] mult_left_mono [of "1 + 2 powi (- 23)" 2 x]
  unfolding near_def by simp

lemma hundred_near:
  assumes n: "0 < n" "n < 2 ^ 64"
  obtains b where "to_float (dmul (Fin 100) (rnd32 (of_nat n))) = Fin b" "near (2 powi (- 21)) (100 * of_nat n) b"
proof -
  have wide: "200 * 2 ^ 64 < (2 powi 90 :: rat)" "2 powi (- 90) \<le> (1 :: rat)" by (simp add: power_int_def, simp)
  obtain a where a: "rnd32 (of_nat n) = Fin a" "near (2 powi (- 23)) (of_nat n) a" by (rule float_nat_near [OF n])
  have ab: "of_nat n / 2 \<le> a" "a \<le> 2 * of_nat n" using near_between [OF a(2)] by simp_all
  obtain b where b: "to_float (rnd (100 * a)) = Fin b" "near (2 powi (- 23)) (100 * a) b"
    by (rule float_op_near [of "100 * a"]) (use ab nat64_range [OF n] wide in linarith)+
  have "near (2 powi (- 21)) (100 * of_nat n) b"
    by (rule near_trans [OF near_mult [OF a(2)] b(2)]) (use nat64_range [OF n] in simp_all)
  then show thesis using that a(1) b(1) by simp
qed

lemma percent_near:
  assumes n: "0 < n" "n < 2 ^ 64" and d: "0 < d" "d < 2 ^ 64"
  obtains y where "percent_value n d = Fin y" "near (2 powi (- 20)) (100 * of_nat n / of_nat d) y"
proof -
  note range = nat64_range(2,3) [OF n] nat64_range(2,3) [OF d]
  have big: "(0 :: rat) < of_nat n" "0 < (of_nat d :: rat)" using n d by simp_all
  have wide: "2 powi (- 90) \<le> (50 / 2 ^ 64 :: rat)" "200 * 2 ^ 64 < (2 powi 90 :: rat)" by (simp, simp add: power_int_def)
  obtain b where b: "to_float (dmul (Fin 100) (rnd32 (of_nat n))) = Fin b" "near (2 powi (- 21)) (100 * of_nat n) b"
    by (rule hundred_near [OF n])
  obtain c where c: "rnd32 (of_nat d) = Fin c" "near (2 powi (- 23)) (of_nat d) c" by (rule float_nat_near [OF d])
  have c0: "0 < c" using near_pos [OF c(2)] big by simp
  from near_divide [OF b(2) c(2), of "11 / 2 ^ 24"] have q: "near (11 / 2 ^ 24) (100 * of_nat n / of_nat d) (b / c)"
    using big by simp
  let ?q = "100 * of_nat n / of_nat d :: rat"
  have "100 / 2 ^ 64 * of_nat d \<le> 100 * (of_nat n :: rat)" "100 * of_nat n \<le> 100 * 2 ^ 64 * (of_nat d :: rat)"
    using range by simp_all
  then have lim: "100 / 2 ^ 64 \<le> ?q" "?q \<le> 100 * 2 ^ 64" using big by (simp_all only: pos_le_divide_eq pos_divide_le_eq)
  have quot: "?q / 2 \<le> b / c" "b / c \<le> 2 * ?q"
  proof -
    have "0 \<le> ?q" using big by simp
    then have "?q * (1 / 2) \<le> ?q * (1 - 11 / 2 ^ 24)" "?q * (1 + 11 / 2 ^ 24) \<le> ?q * 2" by (rule mult_left_mono [rotated], simp)+
    then show "?q / 2 \<le> b / c" "b / c \<le> 2 * ?q" using q unfolding near_def by linarith+
  qed
  have "50 / 2 ^ 64 \<le> b / c" using order_trans [OF divide_right_mono [OF lim(1), of 2] quot(1)] by simp
  moreover have "b / c \<le> 200 * 2 ^ 64" using order_trans [OF quot(2) mult_left_mono [OF lim(2), of 2]] by simp
  ultimately have "2 powi (- 90) \<le> b / c" "b / c < 2 powi 90"
    using order_trans [OF wide(1)] le_less_trans [OF _ wide(2)] by blast+
  then obtain y where y: "to_float (rnd (b / c)) = Fin y" "near (2 powi (- 23)) (b / c) y" by (rule float_op_near)
  have "near (2 powi (- 20)) ?q y" by (rule near_trans [OF q y(2)]) (use big in simp_all)
  moreover have "percent_value n d = Fin y"
    using b(1) c(1) c0 y(1) by (simp add: percent_value_def)
  ultimately show thesis using that by blast
qed

text \<open>The text of a percentage: within half a hundredth of the quotient, but for a small relative error.\<close>

lemma percent_text:
  assumes n: "n < 2 ^ 64" and d: "0 < d" "d < 2 ^ 64"
  obtains k where "fixed2 (percent_value n d) = hundredths k"
    "\<bar>of_nat k - 10000 * of_nat n / of_nat d\<bar> \<le> 1 / 2 + of_nat n / of_nat d / (100 :: rat)" "n \<le> d \<Longrightarrow> k \<le> 10000"
proof -
  let ?q = "of_nat n / of_nat d :: rat"
  have q0: "0 \<le> ?q" by simp
  obtain y where y: "percent_value n d = Fin y" "near (2 powi (- 20)) (100 * ?q) y"
  proof (cases "n = 0")
    case True
    obtain c where "rnd32 (of_nat d) = Fin c" "near (2 powi (- 23)) (of_nat d) c" by (rule float_nat_near [OF d])
    moreover from this have "0 < c" using near_pos d(1) by force
    ultimately have "percent_value n d = Fin 0" by (simp add: percent_value_def True rnd32_def)
    then show thesis using that [of 0] True by (simp add: near_def)
  next
    case False
    then show thesis using percent_near [OF _ n d] that by auto
  qed
  have "0 \<le> 100 * ?q * (1 - 2 powi (- 20))" by (rule mult_nonneg_nonneg) simp_all
  then have y0: "0 \<le> y" using y(2) unfolding near_def by linarith
  have "rne 0 \<le> rne (100 * y)" by (rule rne_mono) (use y0 in simp)
  then have r0: "0 \<le> rne (100 * y)" by simp
  define k where "k = nat (rne (100 * y))"
  have k: "of_nat k = (of_int (rne (100 * y)) :: rat)" using r0 by (simp add: k_def)
  have "\<bar>y - 100 * ?q\<bar> \<le> ?q / 10000" using y(2) q0 by (simp add: near_def abs_le_iff algebra_simps)
  moreover have "\<bar>r - 10000 * q\<bar> \<le> 1 / 2 + q / 100" if "\<bar>y - 100 * q\<bar> \<le> q / 10000" "\<bar>r - 100 * y\<bar> \<le> 1 / 2" for q r :: rat
    using that by linarith
  ultimately have err: "\<bar>of_nat k - 10000 * ?q\<bar> \<le> 1 / 2 + ?q / 100"
    using rne_error [of "100 * y"] unfolding k by blast
  show thesis
  proof (rule that)
    show "fixed2 (percent_value n d) = hundredths k" using y0 by (simp add: y(1) k_def)
    show "\<bar>of_nat k - 10000 * of_nat n / of_nat d\<bar> \<le> 1 / 2 + ?q / 100" using err by simp
    assume "n \<le> d"
    then have "?q \<le> 1" using d(1) by simp
    then have "of_nat k < (of_nat 10001 :: rat)" using err unfolding abs_le_iff by simp
    then show "k \<le> 10000" by (simp only: of_nat_less_iff)
  qed
qed

end
