(* ===== verification/Component.thy ===== *)
theory Component
  imports Connection Affinity Sdds_Processor Property_Structs Binary32
begin

text \<open>
  The component \<open>SourceSDDS_i\<close>: its properties and their getters and setters, \<open>start\<close>, \<open>stop\<close>,
  \<open>attach\<close>, \<open>detach\<close>. The CORBA framework, the thread library and the network are a record of the
  results of the calls; logging is left out. What the two worker threads do until they are joined
  is an argument too: the theory \<open>Pipeline\<close> holds it.
\<close>

section \<open>The component and its surroundings\<close>

record attach_stream =
  as_id :: string
  multicastAddress :: string
  as_vlan :: u16
  as_port :: u16
  attached :: bool

datatype worker = SocketReaderThread | SddsToBulkIOThread

datatype thread_call = SetAffinity "nat list" | SetSched policy int

text \<open>
  \<open>c_started\<close> is what the framework's \<open>started()\<close> returns. A thread pointer is None or False when it is
  null; the reader's thread keeps the second argument of \<open>SocketReader::run\<close>. \<open>c_next\<close> is the allocator's
  next packet, \<open>c_thread_calls\<close> the history of the calls into the thread library.
\<close>

record 'a component =
  c_started :: bool
  c_interface :: string
  c_optim :: advanced_optimizations
  c_override :: attachment_override
  c_config :: advanced_configuration
  c_status_interface :: string
  c_attach :: attach_stream
  c_buf :: packet_buffer
  c_next :: ptr
  c_reader_thread :: "bool option"
  c_proc_thread :: bool
  c_reader :: reader
  c_proc :: "'a processor"
  c_thread_calls :: "(worker \<times> thread_call) list"

text \<open>What the worker threads share with the component.\<close>

type_synonym 'a shared = "packet_buffer \<times> reader \<times> 'a processor"

text \<open>
  The surroundings at the time of an operation: the network and the search in the routing table,
  the results of the thread library, \<open>ossie::generateUUID\<close>, \<open>stopThread\<close> of the framework, and for
  each worker what the shared objects are once it has been joined (None: the join never returns).
\<close>

record 'a machine =
  mc_platform :: "'a platform"
  mc_network :: network
  mc_route :: "string \<Rightarrow> string option"
  mc_setaffinity :: "nat list \<Rightarrow> int"
  mc_getaffinity :: "worker \<Rightarrow> (nat \<Rightarrow> bool) option"
  mc_setsched :: "policy \<Rightarrow> int \<Rightarrow> int"
  mc_getsched :: "worker \<Rightarrow> int \<times> int"
  mc_uuid :: string
  mc_stopThread :: bool
  mc_join :: "worker \<Rightarrow> 'a shared \<Rightarrow> 'a shared option"

text \<open>
  The exceptions of the operations; \<open>Unexpected\<close> is the call of \<open>std::unexpected\<close>, which ends the
  program. An operation that never returns is None.
\<close>

datatype comp_error = StartError | StopError | AttachError | DetachError | Unexpected

section \<open>Calls into the thread library\<close>

definition note_call :: "worker \<Rightarrow> thread_call option \<Rightarrow> 'a component \<Rightarrow> 'a component" where
  "note_call w call c = (case call of None \<Rightarrow> c
     | Some call \<Rightarrow> c\<lparr>c_thread_calls := c_thread_calls c @ [(w, call)]\<rparr>)"

definition set_thread_affinity :: "'a machine \<Rightarrow> worker \<Rightarrow> string \<Rightarrow> 'a component \<Rightarrow> 'a component" where
  "set_thread_affinity M w str_mask =
     note_call w (map_option SetAffinity (snd (setAffinity (mc_setaffinity M) str_mask)))"

definition set_thread_priority :: "'a machine \<Rightarrow> worker \<Rightarrow> int \<Rightarrow> 'a component \<Rightarrow> 'a component" where
  "set_thread_priority M w priority =
     note_call w (map_option (\<lambda>(p, n). SetSched p n) (snd (setPolicyAndPriority (mc_setsched M) priority)))"

section \<open>Starting and stopping\<close>

definition with_shared :: "'a shared \<Rightarrow> 'a component \<Rightarrow> 'a component" where
  "with_shared s c = (case s of (b, r, st) \<Rightarrow> c\<lparr>c_buf := b, c_reader := r, c_proc := st\<rparr>)"

definition join_thread :: "'a machine \<Rightarrow> worker \<Rightarrow> 'a component \<Rightarrow> 'a component option" where
  "join_thread M w c = map_option (\<lambda>s. with_shared s c) (mc_join M w (c_buf c, c_reader c, c_proc c))"

definition destroyBuffersAndJoinThreads :: "'a machine \<Rightarrow> 'a component \<Rightarrow> 'a component option" where
  "destroyBuffersAndJoinThreads M c = (let
     c = c\<lparr>c_reader := reader_shutDown (c_reader c), c_proc := shutDown (c_proc c),
       c_buf := shutDown_buffer (c_buf c)\<rparr>
     in case (if c_reader_thread c \<noteq> None
          then map_option (\<lambda>c. c\<lparr>c_reader_thread := None\<rparr>) (join_thread M SocketReaderThread c)
          else Some c) of None \<Rightarrow> None
     | Some c \<Rightarrow> if c_proc_thread c
          then map_option (\<lambda>c. c\<lparr>c_proc_thread := False\<rparr>) (join_thread M SddsToBulkIOThread c)
          else Some c)"

definition setupSocketReaderOptions ::
    "'a machine \<Rightarrow> 'a component \<Rightarrow> (net_error option \<times> 'a component) option" where
  "setupSocketReaderOptions M c = (let ov = c_override c; a = c_attach c in
     case (if enabled ov
        then setConnectionInfo (mc_network M) (mc_route M) (c_interface c) (ip_address ov)
          (override_vlan ov) (override_port ov) (c_reader c)
        else setConnectionInfo (mc_network M) (mc_route M) (c_interface c) (multicastAddress a)
          (as_vlan a) (as_port a) (c_reader c)) of
       None \<Rightarrow> None
     | Some (Some e, r, _) \<Rightarrow> Some (Some e, c\<lparr>c_reader := r\<rparr>)
     | Some (None, r, _) \<Rightarrow>
         (let r = reader_setPktsPerRead (ucast (pkts_per_socket_read (c_optim c))) r
          in Some (None, c\<lparr>c_reader := r, c_status_interface := getInterface r\<rparr>)))"

definition setupSddsToBulkIOOptions :: "'a machine \<Rightarrow> 'a component \<Rightarrow> 'a component" where
  "setupSddsToBulkIOOptions M c = (let
     st = setPktsPerRead (mc_platform M) (ucast (sdds_pkts_per_bulkio_push (c_optim c))) (c_proc c);
     opt = (c_optim c)\<lparr>sdds_pkts_per_bulkio_push := ucast (getPktsPerRead st)\<rparr>;
     st = setPushOnTTV (push_on_ttv (c_config c)) st;
     st = setWaitForTTV (wait_on_ttv (c_config c)) st;
     st = (if enabled (c_override c) then setEndianness (override_endianness (c_override c)) st else st)
     in c\<lparr>c_proc := st, c_optim := opt\<rparr>)"

text \<open>The lines of \<open>_start\<close> that follow the making of a thread.\<close>

definition start_reader_thread :: "'a machine \<Rightarrow> 'a component \<Rightarrow> 'a component" where
  "start_reader_thread M c = (let
     c = c\<lparr>c_reader_thread := Some (check_for_duplicate_sender (c_optim c))\<rparr>;
     affinity = socket_read_thread_affinity (c_optim c);
     c = (if affinity \<noteq> [] then set_thread_affinity M SocketReaderThread affinity c else c);
     c = c\<lparr>c_optim := (c_optim c)\<lparr>socket_read_thread_affinity := getAffinity (mc_getaffinity M SocketReaderThread)\<rparr>\<rparr>
     in set_thread_priority M SocketReaderThread (socket_read_thread_priority (c_optim c)) c)"

definition start_proc_thread :: "'a machine \<Rightarrow> 'a component \<Rightarrow> 'a component" where
  "start_proc_thread M c = (let
     c = c\<lparr>c_proc_thread := True\<rparr>;
     affinity = sdds_to_bulkio_thread_affinity (c_optim c);
     c = (if affinity \<noteq> [] then set_thread_affinity M SddsToBulkIOThread affinity c else c);
     c = c\<lparr>c_optim := (c_optim c)\<lparr>sdds_to_bulkio_thread_affinity := getAffinity (mc_getaffinity M SddsToBulkIOThread)\<rparr>\<rparr>
     in set_thread_priority M SddsToBulkIOThread (sdds_to_bulkio_thread_priority (c_optim c)) c)"

definition start_workers :: "'a machine \<Rightarrow> 'a component \<Rightarrow> (comp_error option \<times> 'a component) option" where
  "start_workers M c = (case destroyBuffersAndJoinThreads M c of None \<Rightarrow> None
     | Some c \<Rightarrow> (let
         (n, b) = initialize (unat (buffer_size (c_optim c))) (c_next c) (c_buf c);
         c = c\<lparr>c_next := n, c_buf := b\<rparr>
         in case setupSocketReaderOptions M c of None \<Rightarrow> None
          | Some (Some Terminate, c) \<Rightarrow> Some (Some Unexpected, c)
          | Some (Some BadParameterError3, c) \<Rightarrow> Some (Some Unexpected, c)
          | Some (Some BadParameterError, c) \<Rightarrow> Some (Some StartError, c)
          | Some (None, c) \<Rightarrow> Some (None,
              start_proc_thread M (setupSddsToBulkIOOptions M (start_reader_thread M c)))))"

text \<open>The base class: the framework's \<open>Component::start\<close> and \<open>stop\<close> set what \<open>started()\<close> returns.\<close>

definition base_start :: "'a component \<Rightarrow> comp_error option \<times> 'a component" where
  [simp]: "base_start c = (None, c\<lparr>c_started := True\<rparr>)"

definition base_stop :: "'a machine \<Rightarrow> 'a component \<Rightarrow> comp_error option \<times> 'a component" where
  [simp]: "base_stop M c = (if mc_stopThread M then None else Some StopError, c\<lparr>c_started := False\<rparr>)"

text \<open>The component's own \<open>start\<close> and \<open>stop\<close>, and the release, which ignores a failing stop.\<close>

definition start :: "'a machine \<Rightarrow> 'a component \<Rightarrow> (comp_error option \<times> 'a component) option" where
  "start M c =
     (if c_started c then Some (None, c)
      else case (if \<not> attached (c_attach c) \<and> \<not> enabled (c_override c) then Some (None, c)
         else start_workers M c) of
        Some (None, c) \<Rightarrow> Some (base_start c)
      | r \<Rightarrow> r)"

definition stop :: "'a machine \<Rightarrow> 'a component \<Rightarrow> (comp_error option \<times> 'a component) option" where
  "stop M c = (case destroyBuffersAndJoinThreads M c of None \<Rightarrow> None
     | Some c \<Rightarrow> Some (base_stop M c))"

definition releaseObject :: "'a machine \<Rightarrow> 'a component \<Rightarrow> 'a component option" where
  "releaseObject M c = map_option snd (stop M c)"

section \<open>Attaching and detaching\<close>

text \<open>The definition of the stream: its ID, address, VLAN and port. The result is the attach ID.\<close>

definition attach ::
    "'a machine \<Rightarrow> string \<Rightarrow> string \<Rightarrow> u16 \<Rightarrow> u16 \<Rightarrow> 'a component
      \<Rightarrow> ((comp_error + string) \<times> 'a component) option" where
  "attach M sid address vlan port c =
     (if attached (c_attach c) then Some (Inl AttachError, c)
      else let
        i = (if sid = [] then mc_uuid M else sid);
        c = c\<lparr>c_attach := \<lparr>as_id = i, multicastAddress = address, as_vlan = vlan, as_port = port, attached = True\<rparr>\<rparr>
        in if c_started c \<and> \<not> enabled (c_override c)
           then case start_workers M c of None \<Rightarrow> None
             | Some (Some StartError, c) \<Rightarrow>
                 Some (Inl AttachError, c\<lparr>c_attach := (c_attach c)\<lparr>attached := False\<rparr>\<rparr>)
             | Some (Some e, c) \<Rightarrow> Some (Inl e, c)
             | Some (None, c) \<Rightarrow> Some (Inr (as_id (c_attach c)), c)
           else Some (Inr i, c))"

definition detach :: "'a machine \<Rightarrow> string \<Rightarrow> 'a component \<Rightarrow> (comp_error option \<times> 'a component) option" where
  "detach M attachId c =
     (if attachId \<noteq> as_id (c_attach c) then Some (Some DetachError, c)
      else let restart = c_started c \<and> \<not> enabled (c_override c) in
        case (if restart then stop M c else Some (None, c)) of None \<Rightarrow> None
        | Some (Some e, c) \<Rightarrow> Some (Some e, c)
        | Some (None, c) \<Rightarrow> (let
            c = c\<lparr>c_proc := unsetUpstreamSri (c_proc c), c_attach := (c_attach c)\<lparr>attached := False\<rparr>\<rparr>
            in if restart then start M c else Some (None, c)))"

definition newSriListener :: "'a StreamSRI \<Rightarrow> 'a component \<Rightarrow> 'a component" where
  "newSriListener sri c = c\<lparr>c_proc := setUpstreamSri sri (c_proc c)\<rparr>"

section \<open>Property setters and getters\<close>

definition set_advanced_configuration_struct ::
    "advanced_configuration \<Rightarrow> 'a component \<Rightarrow> 'a component" where
  "set_advanced_configuration_struct request c = (let
     c = (if c_started c \<and> getPushOnTTV (c_proc c) \<noteq> push_on_ttv request then c
          else c\<lparr>c_proc := setPushOnTTV (push_on_ttv request) (c_proc c)\<rparr>)
     in if c_started c \<and> getWaitOnTTV (c_proc c) \<noteq> wait_on_ttv request then c
        else c\<lparr>c_proc := setWaitForTTV (wait_on_ttv request) (c_proc c)\<rparr>)"

definition get_advanced_configuration_struct :: "'a component \<Rightarrow> advanced_configuration" where
  "get_advanced_configuration_struct c =
     \<lparr>push_on_ttv = getPushOnTTV (c_proc c), wait_on_ttv = getWaitOnTTV (c_proc c)\<rparr>"

text \<open>
  The setter of the optimizations, in the order of its lines. The socket buffer size is a 32-bit
  unsigned number that is passed as an \<open>int\<close>.
\<close>

definition set_packet_counts :: "'a machine \<Rightarrow> advanced_optimizations \<Rightarrow> 'a component \<Rightarrow> 'a component" where
  "set_packet_counts M request c =
     (if c_started c then c
      else c\<lparr>c_optim := (c_optim c)\<lparr>pkts_per_socket_read := pkts_per_socket_read request,
             sdds_pkts_per_bulkio_push := sdds_pkts_per_bulkio_push request\<rparr>,
           c_reader := reader_setPktsPerRead (ucast (pkts_per_socket_read request)) (c_reader c),
           c_proc := setPktsPerRead (mc_platform M) (ucast (sdds_pkts_per_bulkio_push request)) (c_proc c)\<rparr>)"

definition set_affinities :: "'a machine \<Rightarrow> advanced_optimizations \<Rightarrow> 'a component \<Rightarrow> 'a component" where
  "set_affinities M request c = (let
     c = (if c_started c \<and> c_proc_thread c
       then (set_thread_affinity M SddsToBulkIOThread (sdds_to_bulkio_thread_affinity request) c)
         \<lparr>c_optim := (c_optim c)\<lparr>sdds_to_bulkio_thread_affinity := getAffinity (mc_getaffinity M SddsToBulkIOThread)\<rparr>\<rparr>
       else c\<lparr>c_optim := (c_optim c)\<lparr>sdds_to_bulkio_thread_affinity := sdds_to_bulkio_thread_affinity request\<rparr>\<rparr>)
     in if c_started c \<and> c_reader_thread c \<noteq> None
       then (set_thread_affinity M SocketReaderThread (socket_read_thread_affinity request) c)
         \<lparr>c_optim := (c_optim c)\<lparr>socket_read_thread_affinity := getAffinity (mc_getaffinity M SocketReaderThread)\<rparr>\<rparr>
       else c\<lparr>c_optim := (c_optim c)\<lparr>socket_read_thread_affinity := socket_read_thread_affinity request\<rparr>\<rparr>)"

definition set_priorities :: "'a machine \<Rightarrow> advanced_optimizations \<Rightarrow> 'a component \<Rightarrow> 'a component" where
  "set_priorities M request c = (let
     c = c\<lparr>c_optim := (c_optim c)\<lparr>socket_read_thread_priority := socket_read_thread_priority request\<rparr>\<rparr>;
     c = (if c_reader_thread c \<noteq> None
       then set_thread_priority M SocketReaderThread (socket_read_thread_priority request) c else c);
     c = c\<lparr>c_optim := (c_optim c)\<lparr>sdds_to_bulkio_thread_priority := sdds_to_bulkio_thread_priority request\<rparr>\<rparr>
     in if c_proc_thread c
       then set_thread_priority M SddsToBulkIOThread (sdds_to_bulkio_thread_priority request) c else c)"

definition set_advanced_optimization_struct ::
    "'a machine \<Rightarrow> advanced_optimizations \<Rightarrow> 'a component \<Rightarrow> 'a component" where
  "set_advanced_optimization_struct M request c = (let
     c = (if c_started c \<and> buffer_size (c_optim c) \<noteq> buffer_size request then c
          else c\<lparr>c_optim := (c_optim c)\<lparr>buffer_size := buffer_size request\<rparr>\<rparr>);
     c = set_packet_counts M request c;
     c = set_affinities M request c;
     c = (if c_started c then c
          else c\<lparr>c_reader := setSocketBufferSize (sint (udp_socket_buffer_size request)) (c_reader c)\<rparr>);
     c = set_priorities M request c
     in if c_started c then c
        else c\<lparr>c_optim := (c_optim c)\<lparr>check_for_duplicate_sender := check_for_duplicate_sender request\<rparr>\<rparr>)"

text \<open>The getter also refreshes the priorities the component keeps.\<close>

definition refresh_priorities :: "'a machine \<Rightarrow> 'a component \<Rightarrow> 'a component" where
  "refresh_priorities M c = (let
     c = (if \<not> c_proc_thread c then c
          else c\<lparr>c_optim := (c_optim c)\<lparr>sdds_to_bulkio_thread_priority :=
            snd (getPriority (mc_getsched M SddsToBulkIOThread) (sdds_to_bulkio_thread_priority (c_optim c)))\<rparr>\<rparr>)
     in if c_reader_thread c = None then c
        else c\<lparr>c_optim := (c_optim c)\<lparr>socket_read_thread_priority :=
            snd (getPriority (mc_getsched M SocketReaderThread) (socket_read_thread_priority (c_optim c)))\<rparr>\<rparr>)"

definition get_advanced_optimizations_struct ::
    "'a machine \<Rightarrow> 'a component \<Rightarrow> advanced_optimizations \<times> 'a component" where
  "get_advanced_optimizations_struct M c = (let c = refresh_priorities M c in
     ((c_optim c)\<lparr>pkts_per_socket_read := ucast (reader_getPktsPerRead (c_reader c)),
        sdds_pkts_per_bulkio_push := ucast (getPktsPerRead (c_proc c)),
        udp_socket_buffer_size := ucast (getSocketBufferSize (c_reader c))\<rparr>, c))"

text \<open>
  The status. \<open>udp\<close> is what can be read of \<open>/proc/net/udp\<close>, \<open>stack\<close> what an array of \<open>get_rx_queue\<close> holds before it
  is written, \<open>read_file\<close> the contents of the files under \<open>/sys\<close>.
\<close>

definition long32 :: "int \<Rightarrow> int" where
  "long32 n = sint (of_int n :: u32)"

definition input_source :: "'a component \<Rightarrow> string \<times> u16 \<times> u16" where
  "input_source c = (let ov = c_override c; a = c_attach c in
     (if enabled ov then (ip_address ov, override_port ov, override_vlan ov)
      else (multicastAddress a, as_port a, as_vlan a)))"

definition percent :: "nat \<Rightarrow> nat \<Rightarrow> string" where
  "percent n d = fixed2 (percent_value n d)"

definition fill_text :: "string \<Rightarrow> string \<Rightarrow> string" where
  "fill_text n p = n @ '' ('' @ p @ ''%)''"

definition get_status_struct ::
    "'a machine \<Rightarrow> string \<Rightarrow> string option \<Rightarrow> (string \<Rightarrow> string option) \<Rightarrow> 'a component \<Rightarrow> status" where
  "get_status_struct M stack udp read_file c = (let
     st = c_proc c; size = unat (buffer_size (c_optim c));
     full = get_num_full_buffers (c_buf c); empty = get_num_empty_buffers (c_buf c);
     (address, port, vlan) = input_source c;
     (listeners, rx_queue) = get_rx_queue stack udp (nt_addr (mc_network M) address) port;
     sock = unat (getSocketBufferSize (c_reader c))
     in \<lparr>expected_sequence_number = getExpectedSequenceNumber st, dropped_packets = ucast (getNumDropped st),
       bits_per_sample = getBps_processor st,
       empty_buffers_available = fill_text (decimal empty) (percent empty size),
       buffers_to_work = fill_text (decimal full) (percent full size),
       udp_socket_buffer_queue = fill_text (decimal (unat rx_queue) @ '' / '' @ decimal sock)
         (percent (unat rx_queue) sock),
       num_udp_socket_readers = long32 (int listeners), input_address = address,
       input_port = uint port, input_vlan = uint vlan, input_endianness = getEndianness st,
       input_samplerate = getSampleRate st, input_stream_id = getStreamId st,
       status_time_slips = getTimeSlips st,
       num_packets_dropped_by_nic = long32 (get_rx_dropped read_file (c_status_interface c)),
       status_interface = c_status_interface c\<rparr>)"

section \<open>The constructor\<close>

text \<open>
  \<open>a\<close> is the memory of \<open>m_attach_stream\<close>: strings are empty, the numbers have no initial value.
\<close>

definition new_component :: "'a machine \<Rightarrow> 'a StreamSRI \<Rightarrow> PrecisionUTCTime \<Rightarrow> u16 \<Rightarrow> u16 \<Rightarrow> 'a component" where
  "new_component M up T vlan port = \<lparr>c_started = False, c_interface = ''eth0'',
     c_optim = new_advanced_optimizations, c_override = new_attachment_override,
     c_config = new_advanced_configuration, c_status_interface = '''',
     c_attach = \<lparr>as_id = '''', multicastAddress = '''', as_vlan = vlan, as_port = port, attached = False\<rparr>,
     c_buf = new_packet_buffer, c_next = 0, c_reader_thread = None, c_proc_thread = False,
     c_reader = new_reader, c_proc = new_processor (mc_platform M) up T, c_thread_calls = []\<rparr>"

section \<open>What the steps of starting change\<close>

lemma note_call_frame [simp]:
  "c_started (note_call w k c) = c_started c" "c_interface (note_call w k c) = c_interface c"
  "c_optim (note_call w k c) = c_optim c" "c_override (note_call w k c) = c_override c"
  "c_config (note_call w k c) = c_config c" "c_status_interface (note_call w k c) = c_status_interface c"
  "c_attach (note_call w k c) = c_attach c" "c_buf (note_call w k c) = c_buf c"
  "c_next (note_call w k c) = c_next c" "c_reader_thread (note_call w k c) = c_reader_thread c"
  "c_proc_thread (note_call w k c) = c_proc_thread c" "c_reader (note_call w k c) = c_reader c"
  "c_proc (note_call w k c) = c_proc c"
  by (simp_all add: note_call_def split: option.splits)

lemmas thread_call_defs = set_thread_affinity_def set_thread_priority_def

lemma with_shared_frame [simp]:
  "c_started (with_shared s c) = c_started c" "c_interface (with_shared s c) = c_interface c"
  "c_optim (with_shared s c) = c_optim c" "c_override (with_shared s c) = c_override c"
  "c_config (with_shared s c) = c_config c" "c_status_interface (with_shared s c) = c_status_interface c"
  "c_attach (with_shared s c) = c_attach c" "c_next (with_shared s c) = c_next c"
  "c_reader_thread (with_shared s c) = c_reader_thread c" "c_proc_thread (with_shared s c) = c_proc_thread c"
  by (simp_all add: with_shared_def split: prod.splits)

text \<open>The part of the state that starting and stopping the workers leaves alone.\<close>

definition settings ::
    "'a component \<Rightarrow> bool \<times> string \<times> attachment_override \<times> advanced_configuration \<times> attach_stream" where
  "settings c = (c_started c, c_interface c, c_override c, c_config c, c_attach c)"

lemma destroy_result:
  assumes "destroyBuffersAndJoinThreads M c = Some c'"
  shows "c_reader_thread c' = None" "\<not> c_proc_thread c'" "settings c' = settings c"
    "c_optim c' = c_optim c" "c_next c' = c_next c"
  using assms
  by (auto simp: destroyBuffersAndJoinThreads_def join_thread_def settings_def Let_def
      split: if_splits option.splits)

lemma setup_reader_result:
  assumes "setupSocketReaderOptions M c = Some (e, c')"
  shows "settings c' = settings c" "c_reader_thread c' = c_reader_thread c"
    "c_proc_thread c' = c_proc_thread c" "c_optim c' = c_optim c" "c_buf c' = c_buf c"
    "c_next c' = c_next c" "c_proc c' = c_proc c"
  using assms
  by (auto simp: setupSocketReaderOptions_def settings_def Let_def split: option.splits prod.splits)

lemma start_workers_threads:
  assumes "start_workers M c = Some (e, c')"
  shows "settings c' = settings c" "c_reader_thread c' \<noteq> None \<longleftrightarrow> e = None"
    "c_proc_thread c' \<longleftrightarrow> e = None" "e \<in> {None, Some StartError, Some Unexpected}"
proof -
  obtain d where d: "destroyBuffersAndJoinThreads M c = Some d"
    using assms by (auto simp: start_workers_def split: option.splits)
  let ?i = "initialize (unat (buffer_size (c_optim d))) (c_next d) (c_buf d)"
  let ?d = "d\<lparr>c_next := fst ?i, c_buf := snd ?i\<rparr>"
  have set_d: "settings ?d = settings c" "c_reader_thread ?d = None" "\<not> c_proc_thread ?d"
    using destroy_result [OF d] by (simp_all add: settings_def)
  obtain x f where f: "setupSocketReaderOptions M ?d = Some (x, f)"
    using assms d by (auto simp: start_workers_def Let_def split: option.splits prod.splits)
  have set_f: "settings f = settings c" "c_reader_thread f = None" "\<not> c_proc_thread f"
    using setup_reader_result [OF f] set_d by auto
  have res: "(e, c') = (case x of None \<Rightarrow> (None, start_proc_thread M (setupSddsToBulkIOOptions M (start_reader_thread M f)))
      | Some BadParameterError \<Rightarrow> (Some StartError, f) | Some y \<Rightarrow> (Some Unexpected, f))"
    using assms d f by (auto simp: start_workers_def Let_def split: option.splits prod.splits net_error.splits)
  have sets: "settings (start_proc_thread M (setupSddsToBulkIOOptions M (start_reader_thread M f))) = settings c"
      "c_reader_thread (start_proc_thread M (setupSddsToBulkIOOptions M (start_reader_thread M f))) \<noteq> None"
      "c_proc_thread (start_proc_thread M (setupSddsToBulkIOOptions M (start_reader_thread M f)))"
    using set_f
    by (simp_all add: start_proc_thread_def setupSddsToBulkIOOptions_def start_reader_thread_def
        thread_call_defs settings_def Let_def)
  show "settings c' = settings c" "c_reader_thread c' \<noteq> None \<longleftrightarrow> e = None"
    "c_proc_thread c' \<longleftrightarrow> e = None" "e \<in> {None, Some StartError, Some Unexpected}"
    using res set_f sets by (auto split: option.splits net_error.splits)
qed

lemma set_packet_counts_frame [simp]:
  "settings (set_packet_counts M q c) = settings c" "c_started (set_packet_counts M q c) = c_started c"
  "c_reader_thread (set_packet_counts M q c) = c_reader_thread c"
  "c_proc_thread (set_packet_counts M q c) = c_proc_thread c"
  by (simp_all add: set_packet_counts_def settings_def)

lemma set_affinities_frame [simp]:
  "settings (set_affinities M q c) = settings c" "c_started (set_affinities M q c) = c_started c"
  "c_reader_thread (set_affinities M q c) = c_reader_thread c"
  "c_proc_thread (set_affinities M q c) = c_proc_thread c"
  "c_reader (set_affinities M q c) = c_reader c" "c_proc (set_affinities M q c) = c_proc c"
  "c_buf (set_affinities M q c) = c_buf c"
  by (cases "c_started c"; cases "c_proc_thread c"; cases "c_reader_thread c";
    simp add: set_affinities_def thread_call_defs settings_def)+

lemma set_priorities_frame [simp]:
  "settings (set_priorities M q c) = settings c" "c_started (set_priorities M q c) = c_started c"
  "c_reader_thread (set_priorities M q c) = c_reader_thread c"
  "c_proc_thread (set_priorities M q c) = c_proc_thread c"
  "c_reader (set_priorities M q c) = c_reader c" "c_proc (set_priorities M q c) = c_proc c"
  "c_buf (set_priorities M q c) = c_buf c"
  by (cases "c_proc_thread c"; cases "c_reader_thread c";
    simp add: set_priorities_def thread_call_defs settings_def)+

lemma settings_update [simp]:
  "settings (c\<lparr>c_optim := x\<rparr>) = settings c" "settings (c\<lparr>c_reader := r\<rparr>) = settings c"
  "settings (c\<lparr>c_proc := st\<rparr>) = settings c"
  by (simp_all add: settings_def)

lemma set_optimizations_frame:
  "settings (set_advanced_optimization_struct M q c) = settings c"
  "c_reader_thread (set_advanced_optimization_struct M q c) = c_reader_thread c"
  "c_proc_thread (set_advanced_optimization_struct M q c) = c_proc_thread c"
  by (cases "c_started c"; simp add: set_advanced_optimization_struct_def Let_def)+

lemma set_configuration_frame:
  "settings (set_advanced_configuration_struct q c) = settings c"
  "c_reader_thread (set_advanced_configuration_struct q c) = c_reader_thread c"
  "c_proc_thread (set_advanced_configuration_struct q c) = c_proc_thread c"
  by (simp_all add: set_advanced_configuration_struct_def Let_def)

lemma get_optimizations_frame:
  "settings (snd (get_advanced_optimizations_struct M c)) = settings c"
  "c_reader_thread (snd (get_advanced_optimizations_struct M c)) = c_reader_thread c"
  "c_proc_thread (snd (get_advanced_optimizations_struct M c)) = c_proc_thread c"
  by (cases "c_proc_thread c"; cases "c_reader_thread c";
    simp add: get_advanced_optimizations_struct_def refresh_priorities_def)+

section \<open>The life cycle\<close>

text \<open>
  The operations in any order, each with its own surroundings, and between them anything the
  worker threads do to the shared objects. The program ends at an \<open>Unexpected\<close>. The properties
  \<open>interface\<close> and \<open>attachment_override\<close> have no setter: the framework writes them at any time, also
  while the component is started. It writes the other two members as well, before their setters
  are registered; here at any time. The two parameters say which surroundings and which work of the
  threads are considered.
\<close>

inductive comp_step ::
    "('a machine \<Rightarrow> bool) \<Rightarrow> ('a component \<Rightarrow> 'a shared \<Rightarrow> bool) \<Rightarrow> 'a component \<Rightarrow> 'a component \<Rightarrow> bool"
  for lawful worked where
  starts: "lawful M \<Longrightarrow> start M c = Some (e, c') \<Longrightarrow> e \<noteq> Some Unexpected \<Longrightarrow> comp_step lawful worked c c'"
| stops: "lawful M \<Longrightarrow> stop M c = Some (e, c') \<Longrightarrow> comp_step lawful worked c c'"
| attaches: "lawful M \<Longrightarrow> attach M sid address vlan port c = Some (res, c') \<Longrightarrow> res \<noteq> Inl Unexpected
    \<Longrightarrow> comp_step lawful worked c c'"
| detaches: "lawful M \<Longrightarrow> detach M attachId c = Some (e, c') \<Longrightarrow> e \<noteq> Some Unexpected
    \<Longrightarrow> comp_step lawful worked c c'"
| hears: "comp_step lawful worked c (newSriListener sri c)"
| configures: "comp_step lawful worked c (set_advanced_configuration_struct q c)"
| optimizes: "comp_step lawful worked c (set_advanced_optimization_struct M opt c)"
| queries: "comp_step lawful worked c (snd (get_advanced_optimizations_struct M c))"
| names: "comp_step lawful worked c (c\<lparr>c_interface := i\<rparr>)"
| overrides: "comp_step lawful worked c (c\<lparr>c_override := ov\<rparr>)"
| assigns: "comp_step lawful worked c (c\<lparr>c_optim := opt, c_config := q\<rparr>)"
| works: "c_reader_thread c \<noteq> None \<or> c_proc_thread c \<Longrightarrow> worked c s
    \<Longrightarrow> comp_step lawful worked c (with_shared s c)"
| releases: "lawful M \<Longrightarrow> releaseObject M c = Some c' \<Longrightarrow> comp_step lawful worked c c'"

inductive_cases comp_stepE: "comp_step lawful worked c c'"

definition source_given :: "'a component \<Rightarrow> bool" where
  "source_given c \<longleftrightarrow> attached (c_attach c) \<or> enabled (c_override c)"

text \<open>The state of the workers follows from the settings.\<close>

definition workers_follow :: "'a component \<Rightarrow> bool" where
  "workers_follow c \<longleftrightarrow> (c_reader_thread c \<noteq> None \<longleftrightarrow> c_started c \<and> source_given c)
     \<and> (c_proc_thread c \<longleftrightarrow> c_started c \<and> source_given c)"

lemma settings_fields:
  "settings c' = settings c \<longleftrightarrow> c_started c' = c_started c \<and> c_interface c' = c_interface c
     \<and> c_override c' = c_override c \<and> c_config c' = c_config c \<and> c_attach c' = c_attach c"
  by (auto simp: settings_def)

lemma follow_frame:
  assumes "workers_follow c" "settings c' = settings c" "c_reader_thread c' = c_reader_thread c"
    "c_proc_thread c' = c_proc_thread c"
  shows "workers_follow c'"
  using assms by (simp add: workers_follow_def source_given_def settings_fields)

lemma start_cases:
  assumes "start M c = Some (e, c')"
  obtains (again) "c_started c" "e = None" "c' = c"
  | (hold) "\<not> c_started c" "\<not> source_given c" "e = None" "c' = c\<lparr>c_started := True\<rparr>"
  | (runs) d where "\<not> c_started c" "source_given c" "start_workers M c = Some (None, d)" "e = None"
      "c' = d\<lparr>c_started := True\<rparr>"
  | (fails) y where "\<not> c_started c" "start_workers M c = Some (Some y, c')" "e = Some y"
  using assms unfolding start_def source_given_def
  by (auto split: if_splits option.splits prod.splits)

lemma start_follows:
  assumes "start M c = Some (e, c')" "workers_follow c"
  shows "workers_follow c'"
  using assms(1)
proof (cases rule: start_cases)
  case again
  then show ?thesis using assms(2) by simp
next
  case hold
  then show ?thesis using assms(2) by (simp add: workers_follow_def source_given_def)
next
  case (runs d)
  then show ?thesis using start_workers_threads [OF runs(3)]
    by (simp add: workers_follow_def source_given_def settings_fields)
next
  case (fails y)
  then show ?thesis using start_workers_threads [OF fails(2)]
    by (simp add: workers_follow_def source_given_def settings_fields)
qed

lemma stop_result:
  assumes "stop M c = Some (e, c')"
  shows "\<not> c_started c'" "c_reader_thread c' = None" "\<not> c_proc_thread c'" "c_attach c' = c_attach c"
    "c_override c' = c_override c" "e = None \<longleftrightarrow> mc_stopThread M" "e \<in> {None, Some StopError}"
proof -
  obtain d where d: "destroyBuffersAndJoinThreads M c = Some d"
    using assms by (auto simp: stop_def split: option.splits)
  then have r: "c' = d\<lparr>c_started := False\<rparr>" "e = (if mc_stopThread M then None else Some StopError)"
    using assms by (auto simp: stop_def)
  note dr = destroy_result [OF d, unfolded settings_fields]
  show "\<not> c_started c'" "c_reader_thread c' = None" "\<not> c_proc_thread c'" "c_attach c' = c_attach c"
    "c_override c' = c_override c" "e = None \<longleftrightarrow> mc_stopThread M" "e \<in> {None, Some StopError}"
    using dr by (simp_all add: r)
qed

text \<open>The ways an \<open>attach\<close> can end; \<open>with_stream\<close> is the component with the new stream.\<close>

definition with_stream :: "string \<Rightarrow> string \<Rightarrow> u16 \<Rightarrow> u16 \<Rightarrow> 'a component \<Rightarrow> 'a component" where
  "with_stream i address vlan port c =
     c\<lparr>c_attach := \<lparr>as_id = i, multicastAddress = address, as_vlan = vlan, as_port = port, attached = True\<rparr>\<rparr>"

lemma attach_cases:
  assumes "attach M sid address vlan port c = Some (res, c')"
  defines "i \<equiv> (if sid = [] then mc_uuid M else sid)"
  obtains (taken) "attached (c_attach c)" "res = Inl AttachError" "c' = c"
  | (stored) "\<not> attached (c_attach c)" "\<not> (c_started c \<and> \<not> enabled (c_override c))" "res = Inr i"
      "c' = with_stream i address vlan port c"
  | (runs) "\<not> attached (c_attach c)" "c_started c" "\<not> enabled (c_override c)" "res = Inr i"
      "start_workers M (with_stream i address vlan port c) = Some (None, c')"
  | (undone) d where "\<not> attached (c_attach c)" "c_started c" "\<not> enabled (c_override c)" "res = Inl AttachError"
      "start_workers M (with_stream i address vlan port c) = Some (Some StartError, d)"
      "c' = d\<lparr>c_attach := (c_attach d)\<lparr>attached := False\<rparr>\<rparr>"
  | (ended) "res = Inl Unexpected"
proof -
  let ?c = "with_stream i address vlan port c"
  consider "attached (c_attach c)"
    | "\<not> attached (c_attach c)" "\<not> (c_started c \<and> \<not> enabled (c_override c))"
    | "\<not> attached (c_attach c)" "c_started c" "\<not> enabled (c_override c)" by blast
  then show thesis
  proof cases
    case 1
    then show thesis using assms(1) by (intro taken) (auto simp: attach_def)
  next
    case 2
    then show thesis using assms(1)
      by (intro stored) (auto simp: attach_def Let_def i_def with_stream_def)
  next
    case 3
    then have a: "(case start_workers M ?c of None \<Rightarrow> None
             | Some (Some StartError, c) \<Rightarrow>
                 Some (Inl AttachError, c\<lparr>c_attach := (c_attach c)\<lparr>attached := False\<rparr>\<rparr>)
             | Some (Some e, c) \<Rightarrow> Some (Inl e, c)
             | Some (None, c) \<Rightarrow> Some (Inr (as_id (c_attach c)), c)) = Some (res, c')"
      using assms(1) by (simp add: attach_def Let_def i_def with_stream_def)
    then obtain e d where sw: "start_workers M ?c = Some (e, d)" by (auto split: option.splits)
    note t = start_workers_threads [OF sw, unfolded settings_fields]
    consider "e = None" | "e = Some StartError" | "e = Some Unexpected" using t(4) by auto
    then show thesis
    proof cases
      case 1
      then have "res = Inr i" "c' = d" using a sw t(1) by (auto simp: with_stream_def)
      with 1 3 sw show thesis by (intro runs) auto
    next
      case 2
      with 3 sw a show thesis by (intro undone [of d]) auto
    next
      case 3
      with sw a show thesis by (intro ended) auto
    qed
  qed
qed

lemma attach_follows:
  assumes "attach M sid address vlan port c = Some (res, c')" "workers_follow c" "res \<noteq> Inl Unexpected"
  shows "workers_follow c'"
  using assms(1)
proof (cases rule: attach_cases)
  case taken
  then show ?thesis using assms(2) by simp
next
  case stored
  then show ?thesis using assms(2)
    by (auto simp: workers_follow_def source_given_def with_stream_def)
next
  case runs
  then show ?thesis using start_workers_threads [OF runs(5)]
    by (simp add: workers_follow_def source_given_def settings_fields with_stream_def)
next
  case (undone d)
  then show ?thesis using start_workers_threads [OF undone(5)]
    by (simp add: workers_follow_def source_given_def settings_fields with_stream_def)
next
  case ended
  then show ?thesis using assms(3) by simp
qed

definition drop_stream :: "'a component \<Rightarrow> 'a component" where
  "drop_stream c = c\<lparr>c_proc := unsetUpstreamSri (c_proc c), c_attach := (c_attach c)\<lparr>attached := False\<rparr>\<rparr>"

lemma detach_cases:
  assumes "detach M attachId c = Some (e, c')"
  obtains (unknown) "attachId \<noteq> as_id (c_attach c)" "e = Some DetachError" "c' = c"
  | (idle) "attachId = as_id (c_attach c)" "\<not> (c_started c \<and> \<not> enabled (c_override c))" "e = None"
      "c' = drop_stream c"
  | (stuck) "attachId = as_id (c_attach c)" "c_started c" "\<not> enabled (c_override c)" "e = Some StopError"
      "stop M c = Some (Some StopError, c')"
  | (held) d where "attachId = as_id (c_attach c)" "c_started c" "\<not> enabled (c_override c)" "e = None"
      "stop M c = Some (None, d)" "c' = (drop_stream d)\<lparr>c_started := True\<rparr>"
proof -
  consider "attachId \<noteq> as_id (c_attach c)"
    | "attachId = as_id (c_attach c)" "\<not> (c_started c \<and> \<not> enabled (c_override c))"
    | "attachId = as_id (c_attach c)" "c_started c" "\<not> enabled (c_override c)" by blast
  then show thesis
  proof cases
    case 1
    then show thesis using assms by (intro unknown) (auto simp: detach_def)
  next
    case 2
    then show thesis using assms
      by (intro idle) (auto simp: detach_def Let_def drop_stream_def)
  next
    case 3
    then obtain x d where st: "stop M c = Some (x, d)"
      using assms by (cases "stop M c") (auto simp: detach_def)
    have a: "(case x of Some e \<Rightarrow> Some (Some e, d) | None \<Rightarrow> start M (drop_stream d)) = Some (e, c')"
      using assms 3 st by (cases x) (auto simp: detach_def drop_stream_def)
    note r = stop_result [OF st]
    show thesis
    proof (cases x)
      case (Some y)
      with r(7) have "y = StopError" by auto
      with 3 st a Some show thesis by (intro stuck) auto
    next
      case None
      have "start M (drop_stream d) = Some (None, (drop_stream d)\<lparr>c_started := True\<rparr>)"
        using r 3 by (simp add: start_def drop_stream_def)
      with 3 st a None show thesis by (intro held [of d]) auto
    qed
  qed
qed

lemma stop_follows: "stop M c = Some (e, c') \<Longrightarrow> workers_follow c'"
  using stop_result(1-3) [of M c e c'] by (simp add: workers_follow_def)

lemma detach_follows:
  assumes "detach M attachId c = Some (e, c')" "workers_follow c"
  shows "workers_follow c'"
  using assms(1)
proof (cases rule: detach_cases)
  case unknown
  then show ?thesis using assms(2) by simp
next
  case idle
  then show ?thesis using assms(2)
    by (auto simp: workers_follow_def source_given_def drop_stream_def)
next
  case stuck
  then show ?thesis using stop_follows by blast
next
  case (held d)
  then show ?thesis using stop_result [OF held(5)]
    by (simp add: workers_follow_def source_given_def drop_stream_def)
qed

text \<open>A step that does not turn the override on or off while the component is started.\<close>

definition calm_step ::
    "('a machine \<Rightarrow> bool) \<Rightarrow> ('a component \<Rightarrow> 'a shared \<Rightarrow> bool) \<Rightarrow> 'a component \<Rightarrow> 'a component \<Rightarrow> bool" where
  "calm_step lawful worked c c' \<longleftrightarrow> comp_step lawful worked c c'
     \<and> (c_started c \<longrightarrow> enabled (c_override c') = enabled (c_override c))"

lemma step_follows:
  assumes "calm_step lawful worked c c'" "workers_follow c"
  shows "workers_follow c'"
proof -
  have step: "comp_step lawful worked c c'"
    and calm: "c_started c \<longrightarrow> enabled (c_override c') = enabled (c_override c)"
    using assms(1) by (simp_all add: calm_step_def)
  from step show ?thesis
  proof (cases rule: comp_step.cases)
    case (starts M e)
    then show ?thesis using start_follows assms(2) by blast
  next
    case (stops M e)
    then show ?thesis using stop_follows by blast
  next
    case (attaches M sid address vlan port res)
    then show ?thesis using attach_follows assms(2) by blast
  next
    case (detaches M attachId e)
    then show ?thesis using detach_follows assms(2) by blast
  next
    case (configures q)
    then show ?thesis using follow_frame set_configuration_frame assms(2) by blast
  next
    case (optimizes M opt)
    then show ?thesis using follow_frame set_optimizations_frame assms(2) by blast
  next
    case (queries M)
    then show ?thesis using follow_frame get_optimizations_frame assms(2) by blast
  next
    case (overrides ov)
    then show ?thesis using calm assms(2) by (auto simp: workers_follow_def source_given_def)
  next
    case (releases M)
    then show ?thesis using stop_follows by (auto simp: releaseObject_def)
  qed (use assms(2) in \<open>simp_all add: newSriListener_def workers_follow_def source_given_def\<close>)
qed

lemma calm_follows: "(calm_step lawful worked)\<^sup>*\<^sup>* c c' \<Longrightarrow> workers_follow c \<Longrightarrow> workers_follow c'"
  by (induction rule: rtranclp_induct) (auto intro: step_follows)

lemma calm_reachable: "(calm_step lawful worked)\<^sup>*\<^sup>* c c' \<Longrightarrow> (comp_step lawful worked)\<^sup>*\<^sup>* c c'"
  by (induction rule: rtranclp_induct) (auto simp: calm_step_def)

text \<open>What holds of the workers whenever the override is written.\<close>

definition workers_paired :: "'a component \<Rightarrow> bool" where
  "workers_paired c \<longleftrightarrow> (c_reader_thread c \<noteq> None \<longleftrightarrow> c_proc_thread c) \<and> (c_proc_thread c \<longrightarrow> c_started c)"

lemma follow_paired: "workers_follow c \<Longrightarrow> workers_paired c"
  by (auto simp: workers_follow_def workers_paired_def)

lemma paired_frame:
  assumes "workers_paired c" "settings c' = settings c" "c_reader_thread c' = c_reader_thread c"
    "c_proc_thread c' = c_proc_thread c"
  shows "workers_paired c'"
  using assms by (simp add: workers_paired_def settings_fields)

lemma start_paired:
  assumes "start M c = Some (e, c')" "workers_paired c"
  shows "workers_paired c'"
  using assms(1)
proof (cases rule: start_cases)
  case (runs d)
  then show ?thesis using start_workers_threads(2,3) [OF runs(3)] by (simp add: workers_paired_def)
next
  case (fails y)
  then show ?thesis using start_workers_threads(2,3) [OF fails(2)] by (simp add: workers_paired_def)
qed (use assms(2) in \<open>simp_all add: workers_paired_def\<close>)

lemma attach_paired:
  assumes "attach M sid address vlan port c = Some (res, c')" "workers_paired c" "res \<noteq> Inl Unexpected"
  shows "workers_paired c'"
  using assms(1)
proof (cases rule: attach_cases)
  case runs
  then show ?thesis using start_workers_threads [OF runs(5)]
    by (simp add: workers_paired_def settings_fields with_stream_def)
next
  case (undone d)
  then show ?thesis using start_workers_threads [OF undone(5)] by (simp add: workers_paired_def)
qed (use assms(2,3) in \<open>simp_all add: workers_paired_def with_stream_def\<close>)

lemma detach_paired:
  assumes "detach M attachId c = Some (e, c')" "workers_paired c"
  shows "workers_paired c'"
  using assms(1)
proof (cases rule: detach_cases)
  case stuck
  then show ?thesis using follow_paired stop_follows by blast
next
  case (held d)
  then show ?thesis using stop_result [OF held(5)] by (simp add: workers_paired_def drop_stream_def)
qed (use assms(2) in \<open>simp_all add: workers_paired_def drop_stream_def\<close>)

lemma step_paired:
  assumes "comp_step lawful worked c c'" "workers_paired c"
  shows "workers_paired c'"
  using assms(1)
proof (cases rule: comp_step.cases)
  case (starts M e)
  then show ?thesis using start_paired assms(2) by blast
next
  case (stops M e)
  then show ?thesis using follow_paired stop_follows by blast
next
  case (attaches M sid address vlan port res)
  then show ?thesis using attach_paired assms(2) by blast
next
  case (detaches M attachId e)
  then show ?thesis using detach_paired assms(2) by blast
next
  case (configures q)
  then show ?thesis using paired_frame set_configuration_frame assms(2) by blast
next
  case (optimizes M opt)
  then show ?thesis using paired_frame set_optimizations_frame assms(2) by blast
next
  case (queries M)
  then show ?thesis using paired_frame get_optimizations_frame assms(2) by blast
next
  case (releases M)
  then obtain e where "stop M c = Some (e, c')" by (auto simp: releaseObject_def)
  then show ?thesis using follow_paired stop_follows by blast
qed (use assms(2) in \<open>simp_all add: newSriListener_def workers_paired_def\<close>)

lemma reachable_paired:
  "(comp_step lawful worked)\<^sup>*\<^sup>* (new_component M up T vlan port) c \<Longrightarrow> workers_paired c"
proof (induction rule: rtranclp_induct)
  case base
  show ?case by (simp add: workers_paired_def new_component_def)
qed (rule step_paired)

text \<open>C17:
  Through any sequence of operations, failing ones included and whenever the properties are written,
  the worker threads exist both or neither, and only while the component is started. From any point
  at which it is stopped, for as long as nobody turns the override on or off while it is started,
  they exist exactly while it is started and has a source: an attached stream or the override.
\<close>

theorem workers_run_iff_source:
  assumes "(comp_step lawful worked)\<^sup>*\<^sup>* (new_component M up T vlan port) b"
    and "(calm_step lawful worked)\<^sup>*\<^sup>* b c"
  shows "(c_reader_thread c \<noteq> None \<longleftrightarrow> c_proc_thread c) \<and> (c_proc_thread c \<longrightarrow> c_started c)
    \<and> (\<not> c_started b \<longrightarrow> (c_proc_thread c \<longleftrightarrow> c_started c \<and> source_given c))"
proof -
  have b: "workers_paired b" by (rule reachable_paired [OF assms(1)])
  have "workers_paired c" by (rule reachable_paired [OF rtranclp_trans [OF assms(1) calm_reachable [OF assms(2)]]])
  moreover have "workers_follow c" if "\<not> c_started b"
  proof -
    have "workers_follow b" using b that by (simp add: workers_paired_def workers_follow_def)
    then show ?thesis by (rule calm_follows [OF assms(2)])
  qed
  ultimately show ?thesis by (auto simp: workers_paired_def workers_follow_def)
qed

text \<open>
  The override cannot end the holding pattern: enabling it while the component is started without a
  stream leaves it without workers, whatever is called next of \<open>start\<close> and \<open>attach\<close>, although a
  source is given.
\<close>

theorem override_does_not_end_hold:
  assumes "c_started c" "c_reader_thread c = None" "\<not> c_proc_thread c" "enabled ov"
    and "r \<in> {map_option snd (start M (c\<lparr>c_override := ov\<rparr>)),
      map_option snd (attach M sid address vlan port (c\<lparr>c_override := ov\<rparr>))}"
  shows "\<exists>c'. r = Some c' \<and> c_started c' \<and> source_given c' \<and> c_reader_thread c' = None \<and> \<not> c_proc_thread c'"
  using assms by (auto simp: start_def attach_def source_given_def Let_def)

text \<open>
  A stream can be detached twice: after a detach its ID is still known, and the second detach
  succeeds as well, where the comment promises a \<open>DetachError\<close>.
\<close>

theorem detach_twice_succeeds:
  assumes "detach M attachId c = Some (None, c')" "\<not> c_started c"
  shows "\<not> attached (c_attach c') \<and> detach M attachId c' = Some (None, c')"
  using assms(1)
proof (cases rule: detach_cases)
  case idle
  then show ?thesis using assms(2) by (simp add: drop_stream_def detach_def unsetUpstreamSri_def)
qed (use assms(2) in auto)

text \<open>
  With the attachment override a running component does not stop for a detach, but its byte order is
  reset: an attach and a detach leave the threads as they are, and samples that the override says are
  little endian are from then on swapped.
\<close>

lemma detach_resets_override_endianness:
  assumes "c_started c" "enabled (c_override c)"
    and "attach M sid address vlan port c = Some (Inr i, c1)" "detach M i c1 = Some (e, c')"
  shows "e = None \<and> c_started c' \<and> c_override c' = c_override c
    \<and> c_reader_thread c' = c_reader_thread c \<and> c_proc_thread c' = c_proc_thread c
    \<and> m_endianness (c_proc c') = BIG_ENDIAN_STR"
  using assms(3)
proof (cases rule: attach_cases)
  case stored
  with assms(4) show ?thesis
  proof (cases rule: detach_cases)
    case idle
    then show ?thesis
      using stored assms(1,2) by (simp add: drop_stream_def with_stream_def unsetUpstreamSri_def endian_defs)
  qed (use stored assms(1,2) in \<open>auto simp: with_stream_def\<close>)
qed (use assms(1,2) in simp_all)

section \<open>Settings of the workers\<close>

text \<open>
  What the component relies on in every setting of the two workers: it is locked while the worker
  runs, and stored, perhaps clamped, while it does not. The setters are the workers' own.
\<close>

locale guarded_setting =
  fixes running :: "'s \<Rightarrow> bool"
    and put :: "'v \<Rightarrow> 's \<Rightarrow> 's"
    and fetch :: "'s \<Rightarrow> 'v"
    and clamp :: "'v \<Rightarrow> 'v"
  assumes locked: "running s \<Longrightarrow> put v s = s"
    and stored: "\<not> running s \<Longrightarrow> fetch (put v s) = clamp v"
    and still: "running (put v s) = running s"
begin

lemma locked_for_good: "running s \<Longrightarrow> fold put vs s = s"
  by (induction vs) (simp_all add: locked)

lemma running_unchanged: "running (fold put vs s) = running s"
  by (induction vs arbitrary: s) (simp_all add: still)

lemma the_last_counts:
  assumes "\<not> running s"
  shows "fetch (fold put (vs @ [v]) s) = clamp v"
  using assms by (simp add: stored running_unchanged)

end

definition clamped_push :: "'a platform \<Rightarrow> u64 \<Rightarrow> u64" where
  "clamped_push P n = (if CORBA_MAX_XFER_BYTES P < n * SDDS_DATA_SIZE
     then CORBA_MAX_XFER_BYTES P div SDDS_DATA_SIZE else n)"

interpretation push_size: guarded_setting m_running "setPktsPerRead P" getPktsPerRead "clamped_push P" for P
  by unfold_locales (simp_all add: setPktsPerRead_def getPktsPerRead_def clamped_push_def reserve_def Let_def)

interpretation push_flag: guarded_setting m_running setPushOnTTV getPushOnTTV "\<lambda>v. v"
  by unfold_locales (simp_all add: setPushOnTTV_def getPushOnTTV_def)

interpretation wait_flag: guarded_setting m_running setWaitForTTV getWaitOnTTV "\<lambda>v. v"
  by unfold_locales (simp_all add: setWaitForTTV_def getWaitOnTTV_def)

interpretation read_size: guarded_setting r_running reader_setPktsPerRead reader_getPktsPerRead "\<lambda>v. v"
  by unfold_locales (simp_all add: reader_setPktsPerRead_def reader_getPktsPerRead_def)

interpretation socket_size: guarded_setting r_running setSocketBufferSize "\<lambda>r. sint (getSocketBufferSize r)"
    "\<lambda>v. sint (of_int v :: u64)"
  by unfold_locales (simp_all add: setSocketBufferSize_def getSocketBufferSize_def)

section \<open>What the workers are started with\<close>

text \<open>
  A worker that has been joined is not running. (\<open>Pipeline.joins_of_pipeline\<close> shows it of every
  run of the threads; the reader has ended when the processor is joined.)
\<close>

definition joins_stop :: "'a machine \<Rightarrow> bool" where
  "joins_stop M \<longleftrightarrow>
     (\<forall>b r st b' r' st'. mc_join M SocketReaderThread (b, r, st) = Some (b', r', st') \<longrightarrow> \<not> r_running r')
   \<and> (\<forall>b r st b' r' st'. mc_join M SddsToBulkIOThread (b, r, st) = Some (b', r', st')
        \<longrightarrow> r' = r \<and> \<not> m_running st')"

lemma destroy_quiet:
  assumes "destroyBuffersAndJoinThreads M c = Some d" "joins_stop M"
    "c_reader_thread c \<noteq> None \<longleftrightarrow> c_proc_thread c"
  shows "\<not> r_running (c_reader d)" "\<not> m_running (c_proc d)"
proof -
  let ?s = "(shutDown_buffer (c_buf c), reader_shutDown (c_reader c), shutDown (c_proc c))"
  have "\<not> r_running (c_reader d) \<and> \<not> m_running (c_proc d)"
  proof (cases "c_proc_thread c")
    case False
    then show ?thesis using assms
      by (auto simp: destroyBuffersAndJoinThreads_def reader_shutDown_def shutDown_def)
  next
    case True
    obtain b r st where j: "mc_join M SocketReaderThread ?s = Some (b, r, st)"
      using assms True
      by (cases "mc_join M SocketReaderThread ?s") (auto simp: destroyBuffersAndJoinThreads_def join_thread_def)
    obtain b' r' st' where k: "mc_join M SddsToBulkIOThread (b, r, st) = Some (b', r', st')"
        "c_reader d = r'" "c_proc d = st'"
      using assms True j
      by (cases "mc_join M SddsToBulkIOThread (b, r, st)")
        (auto simp: destroyBuffersAndJoinThreads_def join_thread_def with_shared_def)
    note j k
    then show ?thesis using assms(2) unfolding joins_stop_def by blast
  qed
  then show "\<not> r_running (c_reader d)" "\<not> m_running (c_proc d)" by simp_all
qed

lemma setPktsPerRead_clamps:
  "\<not> m_running st \<Longrightarrow> m_pkts_per_read (setPktsPerRead P n st) = clamped_push P n"
  "m_running (setPktsPerRead P n st) = m_running st"
  "m_push_on_ttv (setPktsPerRead P n st) = m_push_on_ttv st"
  "m_wait_for_ttv (setPktsPerRead P n st) = m_wait_for_ttv st"
  "m_endianness (setPktsPerRead P n st) = m_endianness st"
  using push_size.stored [of st P n]
  by (simp_all add: getPktsPerRead_def push_size.still) (simp_all add: setPktsPerRead_def reserve_def Let_def)

lemma start_proc_thread_result:
  "c_proc (start_proc_thread M c) = c_proc c" "c_reader (start_proc_thread M c) = c_reader c"
  "c_buf (start_proc_thread M c) = c_buf c" "c_reader_thread (start_proc_thread M c) = c_reader_thread c"
  "c_status_interface (start_proc_thread M c) = c_status_interface c" "c_proc_thread (start_proc_thread M c)"
  by (simp_all add: start_proc_thread_def thread_call_defs Let_def)

lemma start_reader_thread_result:
  "c_proc (start_reader_thread M c) = c_proc c" "c_reader (start_reader_thread M c) = c_reader c"
  "c_buf (start_reader_thread M c) = c_buf c" "c_config (start_reader_thread M c) = c_config c"
  "c_override (start_reader_thread M c) = c_override c"
  "c_status_interface (start_reader_thread M c) = c_status_interface c"
  "c_reader_thread (start_reader_thread M c) = Some (check_for_duplicate_sender (c_optim c))"
  "sdds_pkts_per_bulkio_push (c_optim (start_reader_thread M c)) = sdds_pkts_per_bulkio_push (c_optim c)"
  by (simp_all add: start_reader_thread_def thread_call_defs Let_def)

lemma setup_proc_result:
  assumes "\<not> m_running (c_proc c)" "c' = setupSddsToBulkIOOptions M c"
  shows "c_reader c' = c_reader c" "c_buf c' = c_buf c" "c_reader_thread c' = c_reader_thread c"
    "c_status_interface c' = c_status_interface c"
    "m_push_on_ttv (c_proc c') = push_on_ttv (c_config c)" "m_wait_for_ttv (c_proc c') = wait_on_ttv (c_config c)"
    "m_pkts_per_read (c_proc c') = clamped_push (mc_platform M) (ucast (sdds_pkts_per_bulkio_push (c_optim c)))"
    "\<not> enabled (c_override c) \<Longrightarrow> m_endianness (c_proc c') = m_endianness (c_proc c)"
  using assms
  by (simp_all add: setupSddsToBulkIOOptions_def setPushOnTTV_def setWaitForTTV_def setEndianness_def
      setPktsPerRead_clamps Let_def)

lemma setup_reader_connects:
  assumes "setupSocketReaderOptions M c = Some (None, f)" "\<not> r_running (c_reader c)"
    "nt_socket (mc_network M) \<noteq> 0"
  shows "open_socks (c_reader f) = [nt_socket (mc_network M)]"
    "r_pkts_per_read (c_reader f) = ucast (pkts_per_socket_read (c_optim c))"
    "c_status_interface f = r_interface (c_reader f)"
proof -
  obtain ip vlan port r shut where s: "setConnectionInfo (mc_network M) (mc_route M) (c_interface c) ip vlan port
        (c_reader c) = Some (None, r, shut)"
      "c_reader f = reader_setPktsPerRead (ucast (pkts_per_socket_read (c_optim c))) r"
      "c_status_interface f = r_interface (c_reader f)"
    using assms(1)
    by (cases "enabled (c_override c)")
      (auto simp: setupSocketReaderOptions_def getInterface_def Let_def split: option.splits prod.splits)
  have same: "open_socks (r\<lparr>r_pkts_per_read := n\<rparr>) = open_socks r" for r n by (simp add: open_socks_def)
  have "ip \<noteq> []" using s(1) assms(2) by (auto simp: setConnectionInfo_def)
  then have "open_socks r = [nt_socket (mc_network M)]"
    using connection_settles [OF s(1) assms(2) _ assms(3)] by simp
  moreover have "\<not> r_running r" using connection_frame(1) [OF s(1)] assms(2) by simp
  ultimately show "open_socks (c_reader f) = [nt_socket (mc_network M)]"
    "r_pkts_per_read (c_reader f) = ucast (pkts_per_socket_read (c_optim c))"
    "c_status_interface f = r_interface (c_reader f)"
    using s same by (simp_all add: reader_setPktsPerRead_def)
qed

text \<open>The state in which a start that succeeds leaves the component, step by step.\<close>

lemma start_workers_succeeds:
  assumes "start_workers M c = Some (None, c')"
  obtains d e f where "destroyBuffersAndJoinThreads M c = Some d"
    "e = d\<lparr>c_next := c_next d + unat (buffer_size (c_optim d)),
       c_buf := (c_buf d)\<lparr>buf_shuttingDown := False, buf_empty := [c_next d ..< c_next d + unat (buffer_size (c_optim d))]\<rparr>\<rparr>"
    "setupSocketReaderOptions M e = Some (None, f)"
    "c' = start_proc_thread M (setupSddsToBulkIOOptions M (start_reader_thread M f))"
proof -
  obtain d where d: "destroyBuffersAndJoinThreads M c = Some d"
    using assms by (auto simp: start_workers_def split: option.splits)
  let ?e = "d\<lparr>c_next := c_next d + unat (buffer_size (c_optim d)),
       c_buf := (c_buf d)\<lparr>buf_shuttingDown := False, buf_empty := [c_next d ..< c_next d + unat (buffer_size (c_optim d))]\<rparr>\<rparr>"
  have "(case setupSocketReaderOptions M ?e of None \<Rightarrow> None
          | Some (Some Terminate, c) \<Rightarrow> Some (Some Unexpected, c)
          | Some (Some BadParameterError3, c) \<Rightarrow> Some (Some Unexpected, c)
          | Some (Some BadParameterError, c) \<Rightarrow> Some (Some StartError, c)
          | Some (None, c) \<Rightarrow> Some (None,
              start_proc_thread M (setupSddsToBulkIOOptions M (start_reader_thread M c)))) = Some (None, c')"
    using assms d by (simp add: start_workers_def initialize_def)
  then obtain f where "setupSocketReaderOptions M ?e = Some (None, f)"
      "c' = start_proc_thread M (setupSddsToBulkIOOptions M (start_reader_thread M f))"
    by (auto split: option.splits net_error.splits)
  with d show thesis by (intro that) auto
qed

text \<open>The workers after a start, from the component \<open>d\<close> whose threads have been joined.\<close>

lemma start_workers_configured:
  assumes "start_workers M c = Some (None, c')" "destroyBuffersAndJoinThreads M c = Some d"
    and "\<not> r_running (c_reader d)" "\<not> m_running (c_proc d)" "nt_socket (mc_network M) \<noteq> 0"
  shows "c_reader_thread c' = Some (check_for_duplicate_sender (c_optim c)) \<and> c_proc_thread c'
    \<and> open_socks (c_reader c') = [nt_socket (mc_network M)]
    \<and> c_status_interface c' = r_interface (c_reader c')
    \<and> buf_empty (c_buf c') = [c_next c ..< c_next c + unat (buffer_size (c_optim c))]
    \<and> \<not> buf_shuttingDown (c_buf c')
    \<and> r_pkts_per_read (c_reader c') = ucast (pkts_per_socket_read (c_optim c))
    \<and> m_pkts_per_read (c_proc c') = clamped_push (mc_platform M) (ucast (sdds_pkts_per_bulkio_push (c_optim c)))
    \<and> m_push_on_ttv (c_proc c') = push_on_ttv (c_config c)
    \<and> m_wait_for_ttv (c_proc c') = wait_on_ttv (c_config c)"
    "c_buf c' = (c_buf d)\<lparr>buf_shuttingDown := False, buf_empty := [c_next c ..< c_next c + unat (buffer_size (c_optim c))]\<rparr>"
    "\<exists>g. c_proc c' = c_proc (setupSddsToBulkIOOptions M g) \<and> c_proc g = c_proc d"
proof -
  obtain d' e f where d': "destroyBuffersAndJoinThreads M c = Some d'"
    and e': "e = d'\<lparr>c_next := c_next d' + unat (buffer_size (c_optim d')),
       c_buf := (c_buf d')\<lparr>buf_shuttingDown := False, buf_empty := [c_next d' ..< c_next d' + unat (buffer_size (c_optim d'))]\<rparr>\<rparr>"
    and f: "setupSocketReaderOptions M e = Some (None, f)"
    and c': "c' = start_proc_thread M (setupSddsToBulkIOOptions M (start_reader_thread M f))"
    using assms(1) by (rule start_workers_succeeds)
  have "d' = d" using d' assms(2) by simp
  note e = e' [unfolded this]
  note dr = destroy_result [OF assms(2), unfolded settings_fields] and q = assms(3,4)
  note fr = setup_reader_result [OF f, unfolded settings_fields]
  have er: "\<not> r_running (c_reader e)" using q e by simp
  note fc = setup_reader_connects [OF f er assms(5)]
  have pr: "\<not> m_running (c_proc (start_reader_thread M f))"
    using q e fr by (simp add: start_reader_thread_result)
  note p = setup_proc_result [OF pr refl, of M]
  show "c_reader_thread c' = Some (check_for_duplicate_sender (c_optim c)) \<and> c_proc_thread c'
    \<and> open_socks (c_reader c') = [nt_socket (mc_network M)]
    \<and> c_status_interface c' = r_interface (c_reader c')
    \<and> buf_empty (c_buf c') = [c_next c ..< c_next c + unat (buffer_size (c_optim c))]
    \<and> \<not> buf_shuttingDown (c_buf c')
    \<and> r_pkts_per_read (c_reader c') = ucast (pkts_per_socket_read (c_optim c))
    \<and> m_pkts_per_read (c_proc c') = clamped_push (mc_platform M) (ucast (sdds_pkts_per_bulkio_push (c_optim c)))
    \<and> m_push_on_ttv (c_proc c') = push_on_ttv (c_config c)
    \<and> m_wait_for_ttv (c_proc c') = wait_on_ttv (c_config c)"
    unfolding c' using dr fr fc p e
    by (simp add: start_proc_thread_result start_reader_thread_result)
  show "c_buf c' = (c_buf d)\<lparr>buf_shuttingDown := False, buf_empty := [c_next c ..< c_next c + unat (buffer_size (c_optim c))]\<rparr>"
    unfolding c' using dr fr p e by (simp add: start_proc_thread_result start_reader_thread_result)
  have "c_proc (start_reader_thread M f) = c_proc d" using fr e by (simp add: start_reader_thread_result)
  then show "\<exists>g. c_proc c' = c_proc (setupSddsToBulkIOOptions M g) \<and> c_proc g = c_proc d"
    unfolding c' start_proc_thread_result by blast
qed

text \<open>C18:
  When \<open>_start\<close> succeeds, the reader holds one socket, the buffer has the configured number of new
  empty packets, the threads are made, and the packets per read, the packets per push (clamped to
  what CORBA can carry) and the time tag options are those of the properties.
\<close>

theorem start_configures_workers:
  assumes "start_workers M c = Some (None, c')" "joins_stop M"
    and "c_reader_thread c \<noteq> None \<longleftrightarrow> c_proc_thread c" "nt_socket (mc_network M) \<noteq> 0"
  shows "c_reader_thread c' = Some (check_for_duplicate_sender (c_optim c)) \<and> c_proc_thread c'
    \<and> open_socks (c_reader c') = [nt_socket (mc_network M)]
    \<and> c_status_interface c' = r_interface (c_reader c')
    \<and> buf_empty (c_buf c') = [c_next c ..< c_next c + unat (buffer_size (c_optim c))]
    \<and> \<not> buf_shuttingDown (c_buf c')
    \<and> r_pkts_per_read (c_reader c') = ucast (pkts_per_socket_read (c_optim c))
    \<and> m_pkts_per_read (c_proc c') = clamped_push (mc_platform M) (ucast (sdds_pkts_per_bulkio_push (c_optim c)))
    \<and> m_push_on_ttv (c_proc c') = push_on_ttv (c_config c)
    \<and> m_wait_for_ttv (c_proc c') = wait_on_ttv (c_config c)"
proof -
  obtain d where d: "destroyBuffersAndJoinThreads M c = Some d"
    using assms(1) by (auto simp: start_workers_def split: option.splits)
  from start_workers_configured(1) [OF assms(1) d destroy_quiet [OF d assms(2,3)] assms(4)] show ?thesis .
qed

section \<open>Settings\<close>

lemma thread_call_frame [simp]:
  "c_optim (set_thread_affinity M w a c) = c_optim c" "c_started (set_thread_affinity M w a c) = c_started c"
  "c_reader_thread (set_thread_affinity M w a c) = c_reader_thread c"
  "c_proc_thread (set_thread_affinity M w a c) = c_proc_thread c"
  "c_optim (set_thread_priority M w n c) = c_optim c"
  "c_reader_thread (set_thread_priority M w n c) = c_reader_thread c"
  "c_proc_thread (set_thread_priority M w n c) = c_proc_thread c"
  by (simp_all add: thread_call_defs)

text \<open>What the parts of the setter do to the stored optimizations.\<close>

lemma set_affinities_optim:
  "buffer_size (c_optim (set_affinities M q c)) = buffer_size (c_optim c)"
  "pkts_per_socket_read (c_optim (set_affinities M q c)) = pkts_per_socket_read (c_optim c)"
  "sdds_pkts_per_bulkio_push (c_optim (set_affinities M q c)) = sdds_pkts_per_bulkio_push (c_optim c)"
  "udp_socket_buffer_size (c_optim (set_affinities M q c)) = udp_socket_buffer_size (c_optim c)"
  "check_for_duplicate_sender (c_optim (set_affinities M q c)) = check_for_duplicate_sender (c_optim c)"
  "sdds_to_bulkio_thread_affinity (c_optim (set_affinities M q c)) = (if c_started c \<and> c_proc_thread c
     then getAffinity (mc_getaffinity M SddsToBulkIOThread) else sdds_to_bulkio_thread_affinity q)"
  "socket_read_thread_affinity (c_optim (set_affinities M q c)) = (if c_started c \<and> c_reader_thread c \<noteq> None
     then getAffinity (mc_getaffinity M SocketReaderThread) else socket_read_thread_affinity q)"
  by (cases "c_started c"; cases "c_proc_thread c"; cases "c_reader_thread c"; simp add: set_affinities_def)+

lemma set_priorities_optim:
  "c_optim (set_priorities M q c) = (c_optim c)\<lparr>socket_read_thread_priority := socket_read_thread_priority q,
     sdds_to_bulkio_thread_priority := sdds_to_bulkio_thread_priority q\<rparr>"
  by (cases "c_proc_thread c"; cases "c_reader_thread c"; simp add: set_priorities_def)

text \<open>C26:
  While the component is started - with its workers or in the holding pattern, where there are none -
  the setter changes neither worker, nor the buffer, nor the buffer size, the packets per read and
  per push, the size of the socket's buffer and the check for duplicate senders, whatever is
  requested. It stores the priorities and the affinities; where a thread exists its stored
  affinity is what the thread library then reports.
\<close>

theorem settings_locked_while_started:
  assumes "c_started c" and "c' = set_advanced_optimization_struct M request c"
  shows "c_reader c' = c_reader c \<and> c_proc c' = c_proc c \<and> c_buf c' = c_buf c
    \<and> c_optim c' = (c_optim c)
       \<lparr>socket_read_thread_affinity := (if c_reader_thread c \<noteq> None
          then getAffinity (mc_getaffinity M SocketReaderThread) else socket_read_thread_affinity request),
        sdds_to_bulkio_thread_affinity := (if c_proc_thread c
          then getAffinity (mc_getaffinity M SddsToBulkIOThread) else sdds_to_bulkio_thread_affinity request),
        socket_read_thread_priority := socket_read_thread_priority request,
        sdds_to_bulkio_thread_priority := sdds_to_bulkio_thread_priority request\<rparr>"
proof -
  define d where "d = (if buffer_size (c_optim c) \<noteq> buffer_size request then c
     else c\<lparr>c_optim := (c_optim c)\<lparr>buffer_size := buffer_size request\<rparr>\<rparr>)"
  have d: "c_started d" "c_reader_thread d = c_reader_thread c" "c_proc_thread d = c_proc_thread c"
      "c_optim d = c_optim c" "c_reader d = c_reader c" "c_proc d = c_proc c" "c_buf d = c_buf c"
    using assms(1) by (simp_all add: d_def)
  have eq: "c' = set_priorities M request (set_affinities M request d)"
    using assms(1) d(1) unfolding assms(2) set_advanced_optimization_struct_def
    by (simp add: set_packet_counts_def d_def Let_def)
  have "c_optim (set_affinities M request d) = (c_optim c)
       \<lparr>socket_read_thread_affinity := (if c_reader_thread c \<noteq> None
          then getAffinity (mc_getaffinity M SocketReaderThread) else socket_read_thread_affinity request),
        sdds_to_bulkio_thread_affinity := (if c_proc_thread c
          then getAffinity (mc_getaffinity M SddsToBulkIOThread) else sdds_to_bulkio_thread_affinity request)\<rparr>"
    using d by (cases "c_proc_thread c"; cases "c_reader_thread c"; simp add: set_affinities_def)
  then show ?thesis using d by (simp add: eq set_priorities_optim)
qed

text \<open>The component is stopped, and so are the workers, as a join leaves them.\<close>

definition idle :: "'a component \<Rightarrow> bool" where
  "idle c \<longleftrightarrow> \<not> c_started c \<and> c_reader_thread c = None \<and> \<not> c_proc_thread c
     \<and> \<not> r_running (c_reader c) \<and> \<not> m_running (c_proc c)"

lemma idle_set:
  assumes "idle c" "c' = set_advanced_optimization_struct M request c"
  shows "c_proc c' = setPktsPerRead (mc_platform M) (ucast (sdds_pkts_per_bulkio_push request)) (c_proc c)"
    "c_reader c' = setSocketBufferSize (sint (udp_socket_buffer_size request))
       (reader_setPktsPerRead (ucast (pkts_per_socket_read request)) (c_reader c))"
    "c_optim c' = request\<lparr>udp_socket_buffer_size := udp_socket_buffer_size (c_optim c)\<rparr>" "idle c'"
proof -
  have i: "\<not> c_started c" "c_reader_thread c = None" "\<not> c_proc_thread c" "\<not> r_running (c_reader c)"
    "\<not> m_running (c_proc c)" using assms(1) by (simp_all add: idle_def)
  show p: "c_proc c' = setPktsPerRead (mc_platform M) (ucast (sdds_pkts_per_bulkio_push request)) (c_proc c)"
    and r: "c_reader c' = setSocketBufferSize (sint (udp_socket_buffer_size request))
       (reader_setPktsPerRead (ucast (pkts_per_socket_read request)) (c_reader c))"
    using i unfolding assms(2) by (simp_all add: set_advanced_optimization_struct_def set_packet_counts_def Let_def)
  show "c_optim c' = request\<lparr>udp_socket_buffer_size := udp_socket_buffer_size (c_optim c)\<rparr>"
    using i unfolding assms(2)
    by (simp add: set_advanced_optimization_struct_def set_priorities_optim set_packet_counts_def
        set_affinities_def Let_def)
  have "\<not> c_started c'" "c_reader_thread c' = None" "\<not> c_proc_thread c'"
    using i set_optimizations_frame [of M request c] unfolding assms(2) by (simp_all add: settings_fields)
  then show "idle c'"
    using i by (simp add: idle_def p r push_size.still socket_size.still read_size.still)
qed

lemma idle_fold: "idle c \<Longrightarrow> idle (fold (set_advanced_optimization_struct M) requests c)"
  by (induction requests arbitrary: c) (simp_all add: idle_set(4) [OF _ refl])

text \<open>C27:
  Of any requests made while the component is stopped the last one reads back as it was made, the
  unsigned socket buffer size through an \<open>int\<close> and a \<open>size_t\<close>; only the packets per push are clamped.
\<close>

theorem optimizations_round_trip:
  assumes "idle c"
  shows "fst (get_advanced_optimizations_struct M
      (fold (set_advanced_optimization_struct M) (requests @ [request]) c))
    = request\<lparr>sdds_pkts_per_bulkio_push :=
        ucast (clamped_push (mc_platform M) (ucast (sdds_pkts_per_bulkio_push request)))\<rparr>"
proof -
  let ?d = "fold (set_advanced_optimization_struct M) requests c"
  let ?c = "set_advanced_optimization_struct M request ?d"
  have un: "ucast (scast w :: u64) = w" for w :: u32
    by (rule bit_word_eqI) (simp add: bit_simps)
  have pk: "ucast (ucast p :: u64) = p" for p :: u16
    by (rule bit_word_eqI) (simp add: bit_simps)
  have d: "idle ?d" using idle_fold assms by blast
  then have q: "\<not> r_running (c_reader ?d)" "\<not> m_running (c_proc ?d)" by (simp_all add: idle_def)
  note c = idle_set [OF d refl, of M request]
  have push: "getPktsPerRead (c_proc ?c) = clamped_push (mc_platform M) (ucast (sdds_pkts_per_bulkio_push request))"
    using push_size.stored q by (simp add: c)
  have size: "getSocketBufferSize (c_reader ?c) = scast (udp_socket_buffer_size request)"
      "reader_getPktsPerRead (c_reader ?c) = ucast (pkts_per_socket_read request)"
    using q
    by (simp_all add: c getSocketBufferSize_def setSocketBufferSize_def reader_getPktsPerRead_def reader_setPktsPerRead_def)
  have "refresh_priorities M ?c = ?c"
    using c(4) by (simp add: refresh_priorities_def idle_def)
  then show ?thesis
    by (simp add: get_advanced_optimizations_struct_def push size un pk c(3))
qed

section \<open>Attaching\<close>


section \<open>Examples\<close>

definition sample_machine :: "string machine" where
  "sample_machine = \<lparr>mc_platform = sample_platform, mc_network = example_network,
     mc_route = (\<lambda>_. Some ''em4''), mc_setaffinity = (\<lambda>_. 0), mc_getaffinity = (\<lambda>_. None),
     mc_setsched = (\<lambda>_ _. 0), mc_getsched = (\<lambda>_. (0, 5)), mc_uuid = ''uuid'', mc_stopThread = True,
     mc_join = (\<lambda>w (b, r, st). Some (b, if w = SocketReaderThread then r\<lparr>r_running := False\<rparr> else r,
       st\<lparr>m_running := False, m_first_packet := True\<rparr>))\<rparr>"

text \<open>The component with the interface \<open>.12\<close> and a stream, before and after it is started.\<close>

definition sample_component :: "string component" where
  "sample_component = with_stream ''s'' ''234.168.104.5'' 0 29495
     ((new_component sample_machine initial_sri
        (m_bulkio_time_stamp sample_processor) 0 0)\<lparr>c_interface := ''.12''\<rparr>)"

lemma example_connects:
  "setConnectionInfo example_network route ''.12'' ''234.168.104.5'' 0 29495 (reader_shutDown new_reader)
   = Some (None, (reader_shutDown new_reader)\<lparr>r_multicast_sock := 7, r_interface := ''em4''\<rparr>, [])"
proof -
  have t: "takes_multicast example_network ''234.168.104.5''"
    by (simp add: takes_multicast_def example_network_def word_le_nat_alt)
  have m: "multicast_client example_network ''.12'' ''234.168.104.5'' 29495
      = Inr (\<lparr>cn_sock = 7, cn_addr = 0x0568A8EA, cn_port = 29495\<rparr>, ''em4'')"
    by (simp add: multicast_client_def multicast_open_def example_network_def device_match_def
        vlan_match_def multicast_try_def flag_bits joins_def base_name_def no_conn_def Let_def bit_numeral_rec)
  show ?thesis
    using t m
    by (simp add: setConnectionInfo_def reader_shutDown_def new_reader_def vlan_interface_def
        open_socks_def no_socks_def finish_connection_def)
qed

lemma sample_starts: "\<exists>d. start_workers sample_machine sample_component = Some (None, d)"
proof -
  have "c_reader sample_component = new_reader" "c_interface sample_component = ''.12''"
      "\<not> enabled (c_override sample_component)" "c_reader_thread sample_component = None"
      "\<not> c_proc_thread sample_component" "multicastAddress (c_attach sample_component) = ''234.168.104.5''"
      "as_vlan (c_attach sample_component) = 0" "as_port (c_attach sample_component) = 29495"
    by (simp_all add: sample_component_def with_stream_def new_component_def new_attachment_override_def)
  moreover have "mc_network sample_machine = example_network" by (simp add: sample_machine_def)
  ultimately show ?thesis
    by (simp add: start_workers_def destroyBuffersAndJoinThreads_def setupSocketReaderOptions_def
        initialize_def example_connects Let_def)
qed

lemma sample_joins_stop: "joins_stop sample_machine"
  by (simp add: joins_stop_def sample_machine_def)

lemma sample_state:
  "\<not> c_started sample_component" "attached (c_attach sample_component)" "c_reader_thread sample_component = None"
  "\<not> c_proc_thread sample_component" "as_id (c_attach sample_component) = ''s''"
  "\<not> enabled (c_override sample_component)" "\<not> r_running (c_reader sample_component)"
  "\<not> m_running (c_proc sample_component)"
  by (simp_all add: sample_component_def with_stream_def new_component_def new_attachment_override_def
      new_reader_def new_processor_def reserve_def)

lemma workers_run_iff_source_witness:
  "\<exists>c. (comp_step (\<lambda>_. True) (\<lambda>_ _. True))\<^sup>*\<^sup>* (new_component sample_machine initial_sri (m_bulkio_time_stamp sample_processor) 0 0) c
    \<and> c_started c \<and> c_reader_thread c \<noteq> None \<and> c_proc_thread c"
proof -
  let ?new = "new_component sample_machine initial_sri (m_bulkio_time_stamp sample_processor) 0 0"
  obtain d where d: "start_workers sample_machine sample_component = Some (None, d)" using sample_starts by blast
  let ?step = "calm_step (\<lambda>_. True) (\<lambda>_ _. True) :: string component \<Rightarrow> string component \<Rightarrow> bool"
  have s1: "?step ?new (?new\<lparr>c_interface := ''.12''\<rparr>)" by (simp add: calm_step_def names)
  have s2: "?step (?new\<lparr>c_interface := ''.12''\<rparr>) sample_component"
    unfolding calm_step_def
    by (rule conjI, rule attaches [where M = sample_machine and sid = "''s''" and address = "''234.168.104.5''"
          and vlan = 0 and port = 29495 and res = "Inr ''s''"])
      (simp_all add: attach_def sample_component_def with_stream_def new_component_def Let_def)
  have "start sample_machine sample_component = Some (None, d\<lparr>c_started := True\<rparr>)"
    using sample_state d by (simp add: start_def)
  from starts [OF _ this] have s3: "?step sample_component (d\<lparr>c_started := True\<rparr>)"
    using sample_state(1) by (simp add: calm_step_def)
  have r: "?step\<^sup>*\<^sup>* ?new (d\<lparr>c_started := True\<rparr>)"
    by (rule converse_rtranclp_into_rtranclp [of ?step, OF s1
          converse_rtranclp_into_rtranclp [of ?step, OF s2 r_into_rtranclp [of ?step, OF s3]]])
  have "source_given (d\<lparr>c_started := True\<rparr>)"
    using start_workers_threads(1) [OF d, unfolded settings_fields] sample_state
    by (simp add: source_given_def)
  moreover have "\<not> c_started ?new" by (simp add: new_component_def)
  ultimately show ?thesis
    using workers_run_iff_source [OF rtranclp.rtrancl_refl r] calm_reachable [OF r] by auto
qed

lemma override_does_not_end_hold_witness:
  "\<exists>c'. start sample_machine (sample_component\<lparr>c_started := True, c_override := new_attachment_override\<lparr>enabled := True\<rparr>\<rparr>)
      = Some (None, c')
    \<and> c_started c' \<and> source_given c' \<and> c_reader_thread c' = None \<and> \<not> c_proc_thread c'"
proof -
  let ?c = "sample_component\<lparr>c_started := True\<rparr>" and ?ov = "new_attachment_override\<lparr>enabled := True\<rparr>"
  have h: "c_started ?c" "c_reader_thread ?c = None" "\<not> c_proc_thread ?c" "enabled ?ov"
    using sample_state by simp_all
  have s: "start sample_machine (?c\<lparr>c_override := ?ov\<rparr>) = Some (None, ?c\<lparr>c_override := ?ov\<rparr>)"
    by (simp add: start_def)
  have "map_option snd (start sample_machine (?c\<lparr>c_override := ?ov\<rparr>))
      \<in> {map_option snd (start sample_machine (?c\<lparr>c_override := ?ov\<rparr>)),
         map_option snd (attach sample_machine ''s'' ''x'' 0 0 (?c\<lparr>c_override := ?ov\<rparr>))}" by simp
  from override_does_not_end_hold [OF h this] s show ?thesis by auto
qed

lemma detach_twice_succeeds_witness:
  "detach sample_machine ''s'' sample_component = Some (None, drop_stream sample_component)
    \<and> \<not> attached (c_attach (drop_stream sample_component))
    \<and> detach sample_machine ''s'' (drop_stream sample_component) = Some (None, drop_stream sample_component)"
proof -
  have "detach sample_machine ''s'' sample_component = Some (None, drop_stream sample_component)"
    using sample_state by (simp add: detach_def drop_stream_def)
  from detach_twice_succeeds [OF this sample_state(1)] this show ?thesis by blast
qed

lemma start_configures_workers_witness:
  "\<exists>c'. start_workers sample_machine sample_component = Some (None, c')
    \<and> c_proc_thread c' \<and> open_socks (c_reader c') = [7]"
proof -
  obtain d where d: "start_workers sample_machine sample_component = Some (None, d)" using sample_starts by blast
  have s: "nt_socket (mc_network sample_machine) = 7" by (simp add: sample_machine_def example_network_def)
  have "c_reader_thread sample_component \<noteq> None \<longleftrightarrow> c_proc_thread sample_component"
      "nt_socket (mc_network sample_machine) \<noteq> 0"
    using sample_state s by simp_all
  from start_configures_workers [OF d sample_joins_stop this] d s show ?thesis by auto
qed

lemma settings_locked_while_started_witness:
  "\<exists>c'. c' = set_advanced_optimization_struct sample_machine
        (new_advanced_optimizations\<lparr>pkts_per_socket_read := 7\<rparr>) (sample_component\<lparr>c_started := True\<rparr>)
    \<and> c_reader c' = new_reader \<and> pkts_per_socket_read (c_optim c') = 500
    \<and> socket_read_thread_priority (c_optim c') = - 1"
proof -
  have "c_started (sample_component\<lparr>c_started := True\<rparr>)" by simp
  from settings_locked_while_started [OF this refl, of sample_machine "new_advanced_optimizations\<lparr>pkts_per_socket_read := 7\<rparr>"]
  show ?thesis
    by (simp add: new_advanced_optimizations_def sample_component_def with_stream_def new_component_def)
qed

lemma optimizations_round_trip_witness:
  "fst (get_advanced_optimizations_struct sample_machine
      (fold (set_advanced_optimization_struct sample_machine)
        ([new_advanced_optimizations\<lparr>buffer_size := 7\<rparr>] @ [new_advanced_optimizations]) sample_component))
    = new_advanced_optimizations\<lparr>sdds_pkts_per_bulkio_push :=
        ucast (clamped_push sample_platform (ucast (sdds_pkts_per_bulkio_push new_advanced_optimizations)))\<rparr>"
proof -
  have "idle sample_component" using sample_state by (simp add: idle_def)
  from optimizations_round_trip [OF this, of sample_machine "[new_advanced_optimizations\<lparr>buffer_size := 7\<rparr>]"
      new_advanced_optimizations]
  show ?thesis by (simp add: sample_machine_def)
qed


end
