(* ===== verification/Life_Cycle.thy ===== *)
theory Life_Cycle
  imports Component Pipeline
begin

text \<open>
  The component through its whole life, with the running pipeline as its worker threads: what the
  threads do between two operations is a run of the pipeline, and what they leave behind when they are
  joined follows the laws that \<open>Pipeline.joins_of_pipeline\<close> shows of every run. So whenever the
  component starts its workers, the pipeline begins in a state its theorems are about.
\<close>

section \<open>Lawful surroundings\<close>

text \<open>The laws of a join, beside those of \<open>joins_stop\<close>: the processor stays well-formed, and its end
  makes the next packet a first one. Of the buffer nothing is asked: a start shuts it down again.\<close>

definition joins_keep :: "'a machine \<Rightarrow> bool" where
  "joins_keep M \<longleftrightarrow> joins_stop M \<and> (\<forall>w b r st b' r' st'. mc_join M w (b, r, st) = Some (b', r', st')
     \<longrightarrow> (proc_ok st \<longrightarrow> proc_ok st')
         \<and> (w = SddsToBulkIOThread \<longrightarrow> m_first_packet st'))"

text \<open>What the threads have done to the objects they share with the component.\<close>

definition shared_of :: "'a system \<Rightarrow> 'a shared" where
  "shared_of s = (sy_buf s, sy_reader s, sy_proc s)"

definition pipeline_worked :: "'a component \<Rightarrow> 'a shared \<Rightarrow> bool" where
  "pipeline_worked c sh \<longleftrightarrow> (\<exists>P confirm s evs s'. sys_run P confirm s evs s'
     \<and> shared_of s = (c_buf c, c_reader c, c_proc c) \<and> shared_of s' = sh)"

abbreviation life_step :: "'a component \<Rightarrow> 'a component \<Rightarrow> bool" where
  "life_step \<equiv> comp_step joins_keep pipeline_worked"

section \<open>The processor stays well-formed\<close>

lemma setters_keep_proc_ok [simp]:
  "proc_ok (setPktsPerRead P n st) = proc_ok st" "proc_ok (setPushOnTTV w st) = proc_ok st"
  "proc_ok (setWaitForTTV w st) = proc_ok st" "proc_ok st \<Longrightarrow> proc_ok (setEndianness e st)"
  by (simp_all add: setPktsPerRead_def setPushOnTTV_def setWaitForTTV_def setEndianness_def reserve_def
      proc_ok_def coherent_def Let_def)

lemma setup_keeps_proc_ok:
  "proc_ok (c_proc g) \<Longrightarrow> proc_ok (c_proc (setupSddsToBulkIOOptions M g))"
  by (simp add: setupSddsToBulkIOOptions_def Let_def)

lemma new_processor_ok: "proc_ok (new_processor P up T)"
  by (simp add: proc_ok_def coherent_def bps_ok_def new_processor_def reserve_def ENDIAN_DEFAULT_def)

lemma shut_buffer: "shutDown_buffer b = \<lparr>buf_shuttingDown = True, buf_empty = [], buf_full = []\<rparr>"
  by (simp add: shutDown_buffer_def shutDown_flag_def shutDown_full_def shutDown_empty_def)

lemma destroy_keeps:
  assumes "destroyBuffersAndJoinThreads M c = Some d" "joins_keep M" "proc_ok (c_proc c)"
  shows "proc_ok (c_proc d)"
proof -
  have join: "proc_ok (c_proc d')" if "join_thread M w d = Some d'" "proc_ok (c_proc d)" for w d d'
    using that assms(2) by (auto simp: join_thread_def joins_keep_def with_shared_def)
  have "proc_ok (c_proc (c\<lparr>c_reader := reader_shutDown (c_reader c), c_proc := shutDown (c_proc c),
      c_buf := shutDown_buffer (c_buf c)\<rparr>))" using assms(3) by simp
  then show ?thesis
    using assms(1) join
    by (auto simp: destroyBuffersAndJoinThreads_def Let_def split: if_splits option.splits)
qed

lemma start_workers_keeps:
  assumes "start_workers M c = Some (e, c')" "joins_keep M" "proc_ok (c_proc c)"
  shows "proc_ok (c_proc c')"
proof -
  obtain d where d: "destroyBuffersAndJoinThreads M c = Some d"
    using assms(1) by (auto simp: start_workers_def split: option.splits)
  let ?i = "initialize (unat (buffer_size (c_optim d))) (c_next d) (c_buf d)"
  let ?d = "d\<lparr>c_next := fst ?i, c_buf := snd ?i\<rparr>"
  obtain x f where f: "setupSocketReaderOptions M ?d = Some (x, f)"
    using assms(1) d by (auto simp: start_workers_def Let_def split: option.splits prod.splits)
  have "c' = f \<or> c' = start_proc_thread M (setupSddsToBulkIOOptions M (start_reader_thread M f))"
    using assms(1) d f by (auto simp: start_workers_def Let_def split: option.splits prod.splits net_error.splits)
  moreover have "proc_ok (c_proc f)"
    using setup_reader_result(7) [OF f] destroy_keeps [OF d assms(2,3)] by simp
  ultimately show ?thesis
    using setup_keeps_proc_ok [of "start_reader_thread M f" M]
    by (auto simp: start_proc_thread_result start_reader_thread_result)
qed

lemma stop_keeps:
  assumes "stop M c = Some (e, c')" "joins_keep M" "proc_ok (c_proc c)"
  shows "proc_ok (c_proc c')"
proof -
  obtain d where d: "destroyBuffersAndJoinThreads M c = Some d" using assms(1) by (auto simp: stop_def split: option.splits)
  with assms destroy_keeps [OF d assms(2,3)] show ?thesis by (auto simp: stop_def)
qed

lemma start_keeps:
  assumes "start M c = Some (e, c')" "joins_keep M" "proc_ok (c_proc c)"
  shows "proc_ok (c_proc c')"
  using assms(1) by (cases rule: start_cases) (use assms(2,3) start_workers_keeps in auto)

text \<open>Operations that leave the shared objects alone, or only change settings of the processor.\<close>

lemma settings_keep:
  "proc_ok (c_proc (with_stream i a v p c)) = proc_ok (c_proc c)"
  "proc_ok (c_proc c) \<Longrightarrow> proc_ok (c_proc (drop_stream c))"
  "proc_ok (c_proc c) \<Longrightarrow> proc_ok (c_proc (newSriListener sri c))"
  "proc_ok (c_proc c) \<Longrightarrow> proc_ok (c_proc (set_advanced_configuration_struct q c))"
  by (simp_all add: with_stream_def drop_stream_def newSriListener_def set_advanced_configuration_struct_def Let_def)

text \<open>The optimizations touch the processor at most through the packets per push.\<close>

lemma optimizations_proc:
  "\<exists>n. c_proc (set_advanced_optimization_struct M opt c) \<in> {c_proc c, setPktsPerRead (mc_platform M) n (c_proc c)}"
  "c_proc (snd (get_advanced_optimizations_struct M c)) = c_proc c"
proof -
  have counts: "\<exists>n. c_proc (set_packet_counts M opt d) \<in> {c_proc d, setPktsPerRead (mc_platform M) n (c_proc d)}" for d
    by (cases "c_started d"; auto simp: set_packet_counts_def)
  have "c_proc (set_advanced_optimization_struct M opt c) = c_proc (set_packet_counts M opt
      (if c_started c \<and> buffer_size (c_optim c) \<noteq> buffer_size opt then c
       else c\<lparr>c_optim := (c_optim c)\<lparr>buffer_size := buffer_size opt\<rparr>\<rparr>))"
    by (cases "c_started c"; simp add: set_advanced_optimization_struct_def Let_def)
  then show "\<exists>n. c_proc (set_advanced_optimization_struct M opt c) \<in> {c_proc c, setPktsPerRead (mc_platform M) n (c_proc c)}"
    using counts [of c] counts [of "c\<lparr>c_optim := (c_optim c)\<lparr>buffer_size := buffer_size opt\<rparr>\<rparr>"] by (auto split: if_splits)
  show "c_proc (snd (get_advanced_optimizations_struct M c)) = c_proc c"
    by (cases "c_proc_thread c"; cases "c_reader_thread c";
      simp add: get_advanced_optimizations_struct_def refresh_priorities_def)
qed

lemma optimizations_keep:
  "proc_ok (c_proc (set_advanced_optimization_struct M opt c)) = proc_ok (c_proc c)"
  "proc_ok (c_proc (snd (get_advanced_optimizations_struct M c))) = proc_ok (c_proc c)"
  using optimizations_proc(1) [of M opt c] optimizations_proc(2) [of M c] by auto

lemma attach_keeps:
  assumes "attach M sid address vlan port c = Some (res, c')" "res \<noteq> Inl Unexpected" "joins_keep M" "proc_ok (c_proc c)"
  shows "proc_ok (c_proc c')"
  using assms(1)
proof (cases rule: attach_cases)
  case runs
  from start_workers_keeps [OF runs(5) assms(3)] assms(4) show ?thesis by (simp add: settings_keep)
next
  case (undone d)
  from start_workers_keeps [OF undone(5) assms(3)] assms(4) undone(6) show ?thesis by (simp add: settings_keep)
qed (use assms in \<open>simp_all add: settings_keep\<close>)

lemma worked_keeps: "pipeline_worked c s \<Longrightarrow> proc_ok (c_proc c) \<Longrightarrow> proc_ok (c_proc (with_shared s c))"
  unfolding pipeline_worked_def shared_of_def with_shared_def by (auto dest!: run_proc_ok split: prod.splits)

lemma life_step_keeps: "life_step c c' \<Longrightarrow> proc_ok (c_proc c) \<Longrightarrow> proc_ok (c_proc c')"
proof (erule comp_stepE, goal_cases)
  case (1 M e)
  then show ?case using start_keeps by blast
next
  case (2 M e)
  then show ?case using stop_keeps by blast
next
  case (3 M sid address vlan port res)
  then show ?case using attach_keeps by blast
next
  case (4 M attachId e)
  from 4(3) show ?case
    by (cases rule: detach_cases) (use 4(1,2) in \<open>auto intro!: settings_keep(2) intro: stop_keeps\<close>)
next
  case (8 M)
  then show ?case by (simp add: optimizations_keep)
next
  case (12 s)
  then show ?case using worked_keeps by blast
next
  case (13 M)
  then show ?case using stop_keeps by (auto simp: releaseObject_def)
qed (simp_all add: settings_keep optimizations_keep)

lemma life_keeps:
  assumes "life_step\<^sup>*\<^sup>* (new_component M up T vlan port) c"
  shows "proc_ok (c_proc c)"
  using assms
proof induction
  case base
  show ?case by (simp add: new_component_def new_processor_ok)
next
  case (step c c')
  then show ?case using life_step_keeps by blast
qed

section \<open>The next packet is a first one\<close>

text \<open>Without a processing thread the processor waits for the first packet of a stream.\<close>

definition at_rest :: "'a component \<Rightarrow> bool" where
  "at_rest c \<longleftrightarrow> (c_reader_thread c \<noteq> None \<longrightarrow> c_proc_thread c) \<and> (c_proc_thread c \<or> m_first_packet (c_proc c))"

lemma destroy_rests:
  assumes "destroyBuffersAndJoinThreads M c = Some d" "joins_keep M" "at_rest c"
  shows "m_first_packet (c_proc d)"
proof (cases "c_proc_thread c")
  case True
  have "c_proc_thread e' = c_proc_thread e" if "join_thread M w e = Some e'" for w e e'
    using that by (auto simp: join_thread_def with_shared_def)
  with True obtain e d' where "join_thread M SddsToBulkIOThread e = Some d'" "c_proc d = c_proc d'"
    using assms(1) by (auto simp: destroyBuffersAndJoinThreads_def Let_def split: option.splits if_splits)
  then show ?thesis using assms(2) by (auto simp: join_thread_def joins_keep_def with_shared_def)
next
  case False
  then have "c_reader_thread c = None" "m_first_packet (c_proc c)" using assms(3) by (simp_all add: at_rest_def)
  then show ?thesis using False assms(1) by (auto simp: destroyBuffersAndJoinThreads_def shutDown_def)
qed

lemma start_workers_rests:
  assumes "start_workers M c = Some (e, c')" "joins_keep M" "at_rest c"
  shows "at_rest c'"
proof (cases "e = None")
  case True
  then show ?thesis using start_workers_threads(2,3) [OF assms(1)] by (simp add: at_rest_def)
next
  case False
  obtain d where d: "destroyBuffersAndJoinThreads M c = Some d"
    using assms(1) by (auto simp: start_workers_def split: option.splits)
  let ?i = "initialize (unat (buffer_size (c_optim d))) (c_next d) (c_buf d)"
  obtain x where "setupSocketReaderOptions M (d\<lparr>c_next := fst ?i, c_buf := snd ?i\<rparr>) = Some (x, c')"
    using assms(1) d False by (auto simp: start_workers_def Let_def split: option.splits prod.splits net_error.splits)
  then have "c_proc c' = c_proc d" using setup_reader_result(7) by fastforce
  then show ?thesis
    using False start_workers_threads(2,3) [OF assms(1)] destroy_rests [OF d assms(2,3)] by (simp add: at_rest_def)
qed

lemma stop_rests:
  assumes "stop M c = Some (e, c')" "joins_keep M" "at_rest c"
  shows "at_rest c'"
proof -
  obtain d where d: "destroyBuffersAndJoinThreads M c = Some d" using assms(1) by (auto simp: stop_def split: option.splits)
  then have "c_proc c' = c_proc d" using assms(1) by (auto simp: stop_def)
  then show ?thesis using destroy_rests [OF d assms(2,3)] stop_result(2) [OF assms(1)] by (simp add: at_rest_def)
qed

lemma rest_frame:
  "c_reader_thread c' = c_reader_thread c \<Longrightarrow> c_proc_thread c' = c_proc_thread c
    \<Longrightarrow> m_first_packet (c_proc c') = m_first_packet (c_proc c) \<Longrightarrow> at_rest c' = at_rest c"
  by (simp add: at_rest_def)

lemma settings_rest:
  "at_rest (with_stream i a v p c) = at_rest c" "at_rest (drop_stream c) = at_rest c" "at_rest (newSriListener sri c) = at_rest c"
  "at_rest (c\<lparr>c_interface := n\<rparr>) = at_rest c" "at_rest (c\<lparr>c_override := ov\<rparr>) = at_rest c"
  "at_rest (c\<lparr>c_optim := opt, c_config := q\<rparr>) = at_rest c"
  "at_rest (c\<lparr>c_attach := x\<rparr>) = at_rest c" "at_rest (c\<lparr>c_started := y\<rparr>) = at_rest c"
  by (simp_all add: at_rest_def with_stream_def drop_stream_def unsetUpstreamSri_def newSriListener_def setUpstreamSri_def)

lemma setters_keep_first [simp]:
  "m_first_packet (setPktsPerRead P n st) = m_first_packet st" "m_first_packet (setPushOnTTV w st) = m_first_packet st"
  "m_first_packet (setWaitForTTV w st) = m_first_packet st" "m_first_packet (setEndianness e st) = m_first_packet st"
  by (simp_all add: setPktsPerRead_def setPushOnTTV_def setWaitForTTV_def setEndianness_def reserve_def Let_def)

lemma configuration_rest: "at_rest (set_advanced_configuration_struct q c) = at_rest c"
  using set_configuration_frame by (rule_tac rest_frame) (simp_all add: set_advanced_configuration_struct_def Let_def)

lemma optimizations_first:
  "m_first_packet (c_proc (set_advanced_optimization_struct M opt c)) = m_first_packet (c_proc c)"
  "m_first_packet (c_proc (snd (get_advanced_optimizations_struct M c))) = m_first_packet (c_proc c)"
  using optimizations_proc(1) [of M opt c] optimizations_proc(2) [of M c] by auto

lemma optimizations_rest:
  "at_rest (set_advanced_optimization_struct M opt c) = at_rest c"
  "at_rest (snd (get_advanced_optimizations_struct M c)) = at_rest c"
  by (intro rest_frame set_optimizations_frame get_optimizations_frame optimizations_first)+

lemma start_rests:
  assumes "start M c = Some (e, c')" "joins_keep M" "at_rest c"
  shows "at_rest c'"
  using assms(1) by (cases rule: start_cases) (use assms(2,3) start_workers_rests in \<open>auto simp: settings_rest\<close>)

lemma attach_rests:
  assumes "attach M sid address vlan port c = Some (res, c')" "res \<noteq> Inl Unexpected" "joins_keep M" "at_rest c"
  shows "at_rest c'"
  using assms(1)
proof (cases rule: attach_cases)
  case runs
  from start_workers_rests [OF runs(5) assms(3)] assms(4) show ?thesis by (simp add: settings_rest)
next
  case (undone d)
  from start_workers_rests [OF undone(5) assms(3)] assms(4) undone(6) show ?thesis by (simp add: settings_rest)
qed (use assms in \<open>simp_all add: settings_rest\<close>)

lemma life_step_rests: "life_step c c' \<Longrightarrow> at_rest c \<Longrightarrow> at_rest c'"
proof (erule comp_stepE, goal_cases)
  case (1 M e)
  then show ?case using start_rests by blast
next
  case (2 M e)
  then show ?case using stop_rests by blast
next
  case (3 M sid address vlan port res)
  then show ?case using attach_rests by blast
next
  case (4 M attachId e)
  from 4(3) show ?case
    by (cases rule: detach_cases) (use 4(1,2) in \<open>auto simp: settings_rest intro: stop_rests\<close>)
next
  case (12 s)
  then show ?case by (auto simp: at_rest_def with_shared_def split: prod.splits)
next
  case (13 M)
  then show ?case using stop_rests by (auto simp: releaseObject_def)
qed (simp_all add: settings_rest configuration_rest optimizations_rest)

lemma life_rests:
  assumes "life_step\<^sup>*\<^sup>* (new_component M up T vlan port) c"
  shows "at_rest c"
  using assms
proof induction
  case base
  show ?case by (simp add: at_rest_def new_component_def new_processor_def reserve_def)
next
  case (step c c')
  then show ?case using life_step_rests by blast
qed

section \<open>Every start\<close>

lemma setters_keep_upstream:
  "m_upstream_sri_set (setPktsPerRead P n st) = m_upstream_sri_set st" "m_new_upstream_sri (setPktsPerRead P n st) = m_new_upstream_sri st"
  "m_upstream_sri_set (setPushOnTTV w st) = m_upstream_sri_set st" "m_new_upstream_sri (setPushOnTTV w st) = m_new_upstream_sri st"
  "m_upstream_sri_set (setWaitForTTV w st) = m_upstream_sri_set st" "m_new_upstream_sri (setWaitForTTV w st) = m_new_upstream_sri st"
  "m_upstream_sri_set (setEndianness e st) = m_upstream_sri_set st" "m_new_upstream_sri (setEndianness e st) = m_new_upstream_sri st"
  by (simp_all add: setPktsPerRead_def setPushOnTTV_def setWaitForTTV_def setEndianness_def reserve_def Let_def)

lemma setup_keeps_first:
  "m_first_packet (c_proc (setupSddsToBulkIOOptions M g)) = m_first_packet (c_proc g)"
  "m_upstream_sri_set (c_proc (setupSddsToBulkIOOptions M g)) = m_upstream_sri_set (c_proc g)"
  "m_new_upstream_sri (c_proc (setupSddsToBulkIOOptions M g)) = m_new_upstream_sri (c_proc g)"
  by (simp_all add: setupSddsToBulkIOOptions_def setters_keep_upstream Let_def)

lemma start_hands_over:
  assumes "start_workers M c = Some (None, c')" "c_reader_thread c = None" "\<not> c_proc_thread c"
    and "nt_socket (mc_network M) \<noteq> 0" "proc_ok (c_proc c)" "\<forall>p. wf_packet (mem p)"
    and "capacity = unat (buffer_size (c_optim c))" "n = unat (pkts_per_socket_read (c_optim c))"
    and "np = clamped_push (mc_platform M) (ucast (sdds_pkts_per_bulkio_push (c_optim c)))"
  shows "c_buf c' = sy_buf (started (c_next c) capacity mem (c_reader c') (c_proc c'))"
    and "start_ok n np mem (c_reader c') (c_proc c')"
    and "m_first_packet (c_proc c') = m_first_packet (c_proc c)" "m_upstream_sri_set (c_proc c') = m_upstream_sri_set (c_proc c)"
      "m_new_upstream_sri (c_proc c') = m_new_upstream_sri (c_proc c)"
proof -
  let ?d = "c\<lparr>c_reader := reader_shutDown (c_reader c), c_proc := shutDown (c_proc c),
    c_buf := shutDown_buffer (c_buf c)\<rparr>"
  have d: "destroyBuffersAndJoinThreads M c = Some ?d"
    using assms(2,3) by (simp add: destroyBuffersAndJoinThreads_def)
  have q: "\<not> r_running (c_reader ?d)" "\<not> m_running (c_proc ?d)"
    by (simp_all add: reader_shutDown_def shutDown_def)
  note s = start_workers_configured [OF assms(1) d q assms(4)]
  show "c_buf c' = sy_buf (started (c_next c) capacity mem (c_reader c') (c_proc c'))"
    using s(2) assms(7) by (simp add: started_def initialize_def new_packet_buffer_def shut_buffer)
  obtain g where g: "c_proc c' = c_proc (setupSddsToBulkIOOptions M g)" "c_proc g = c_proc ?d"
    using s(3) by blast
  show "m_first_packet (c_proc c') = m_first_packet (c_proc c)" "m_upstream_sri_set (c_proc c') = m_upstream_sri_set (c_proc c)"
      "m_new_upstream_sri (c_proc c') = m_new_upstream_sri (c_proc c)"
    using setup_keeps_first [of M g] g by (simp_all add: shutDown_def)
  have "proc_ok (c_proc ?d)" using assms(5) by simp
  then have "proc_ok (c_proc c')" using setup_keeps_proc_ok g by metis
  moreover have "unat (ucast (pkts_per_socket_read (c_optim c)) :: u64) = n"
    using assms(8) unsigned_less [of "pkts_per_socket_read (c_optim c)", where 'a = nat]
    by (simp add: unsigned_ucast_eq take_bit_nat_eq_self)
  ultimately show "start_ok n np mem (c_reader c') (c_proc c')"
    using s(1) assms(6,9) by (simp add: start_ok_def)
qed

section \<open>Properties\<close>

text \<open>C9: Whatever is done to the component - any sequence of its operations, failing ones included,
  with any work of its threads in between and any outcome of joining them that the pipeline allows -
  its processor stays well-formed: the three stream handles agree, the bits per sample never make a
  division fail, and the endianness is one of the two known values.\<close>

theorem component_stays_well_formed:
  assumes "life_step\<^sup>*\<^sup>* (new_component M up T vlan port) c"
  shows "coherent (c_proc c) \<and> bps_ok (m_bps (c_proc c))
    \<and> m_endianness (c_proc c) \<in> {BIG_ENDIAN_STR, LITTLE_ENDIAN_STR}"
  using life_keeps [OF assms] by (simp add: proc_ok_def)

text \<open>A release: the workers are gone and the component is stopped, even where the framework reports
  that its own thread did not die, which is ignored.\<close>

lemma release_stops_workers:
  assumes "releaseObject M c = Some c'"
  shows "c_reader_thread c' = None \<and> \<not> c_proc_thread c' \<and> \<not> c_started c'"
  using assms stop_result(1-3) by (fastforce simp: releaseObject_def)

section \<open>A sample life\<close>

lemma sample_joins_keep: "joins_keep sample_machine"
  using sample_joins_stop by (auto simp: joins_keep_def sample_machine_def proc_ok_def coherent_def split: prod.splits)

lemma sample_life:
  "life_step\<^sup>*\<^sup>* (new_component sample_machine initial_sri (m_bulkio_time_stamp sample_processor) 0 0) sample_component"
proof -
  let ?new = "new_component sample_machine initial_sri (m_bulkio_time_stamp sample_processor) 0 0"
  have s1: "life_step ?new (?new\<lparr>c_interface := ''.12''\<rparr>)" by (rule names)
  have s2: "life_step (?new\<lparr>c_interface := ''.12''\<rparr>) sample_component"
    by (rule attaches [where M = sample_machine and sid = "''s''" and address = "''234.168.104.5''"
          and vlan = 0 and port = 29495 and res = "Inr ''s''"])
      (simp_all add: attach_def sample_component_def with_stream_def new_component_def Let_def sample_joins_keep)
  from converse_rtranclp_into_rtranclp [of life_step, OF s1 r_into_rtranclp [of life_step, OF s2]] show ?thesis .
qed

lemma component_stays_well_formed_witness:
  "\<exists>c. life_step\<^sup>*\<^sup>* (new_component sample_machine initial_sri (m_bulkio_time_stamp sample_processor) 0 0) c
    \<and> c_started c \<and> coherent (c_proc c)"
proof -
  obtain d where "start_workers sample_machine sample_component = Some (None, d)" using sample_starts by blast
  then have "start sample_machine sample_component = Some (None, d\<lparr>c_started := True\<rparr>)"
    using sample_state by (simp add: start_def)
  then have step: "life_step sample_component (d\<lparr>c_started := True\<rparr>)"
    by (intro starts [where M = sample_machine and e = None]) (simp_all add: sample_joins_keep)
  have life: "life_step\<^sup>*\<^sup>* (new_component sample_machine initial_sri (m_bulkio_time_stamp sample_processor) 0 0) (d\<lparr>c_started := True\<rparr>)"
    by (rule rtranclp.rtrancl_into_rtrancl [OF sample_life step])
  from component_stays_well_formed [OF life] life show ?thesis by (intro exI [of _ "d\<lparr>c_started := True\<rparr>"]) simp
qed

end
