(* ===== verification/Base_Class.thy ===== *)
theory Base_Class
  imports Component
begin

text \<open>
  What ties the component to its framework: the generated base class \<open>SourceSDDS_base\<close> with its ports and
  properties, the registrations in \<open>SourceSDDS_i::constructor\<close>, and the destructors. What is registered
  decides which properties are guarded while the component runs. (\<open>start\<close>, \<open>stop\<close> and \<open>releaseObject\<close> of the
  base class are in \<open>Component\<close>.)
\<close>

section \<open>Ports and properties\<close>

datatype port_class = InSDDSPort | OutOctetPort | OutShortPort | OutFloatPort

definition base_ports :: "(string \<times> port_class) list" where
  "base_ports = [(''dataSddsIn'', InSDDSPort), (''dataOctetOut'', OutOctetPort),
     (''dataShortOut'', OutShortPort), (''dataFloatOut'', OutFloatPort)]"

datatype property_name = Interface | AdvancedOptimizations | AttachmentOverride | AdvancedConfiguration | Status

record property_entry =
  pe_id :: string
  pe_name :: string
  pe_mode :: string

text \<open>\<open>addProperty\<close> gives each member its default value and makes an entry for it.\<close>

definition loadProperties :: "'a component \<Rightarrow> 'a component \<times> (property_name \<times> property_entry) list" where
  "loadProperties c = (c\<lparr>c_interface := ''eth0'', c_optim := new_advanced_optimizations,
       c_override := new_attachment_override, c_config := new_advanced_configuration,
       c_status_interface := status_interface new_status\<rparr>,
     [(Interface, \<lparr>pe_id = ''interface'', pe_name = ''interface'', pe_mode = ''readwrite''\<rparr>),
      (AdvancedOptimizations, \<lparr>pe_id = ''advanced_optimizations'', pe_name = '''', pe_mode = ''readwrite''\<rparr>),
      (AttachmentOverride, \<lparr>pe_id = ''attachment_override'', pe_name = '''', pe_mode = ''readwrite''\<rparr>),
      (AdvancedConfiguration, \<lparr>pe_id = ''advanced_configuration'', pe_name = '''', pe_mode = ''readwrite''\<rparr>),
      (Status, \<lparr>pe_id = ''status'', pe_name = '''', pe_mode = ''readonly''\<rparr>)])"

section \<open>Registrations\<close>

record registrations =
  query_impl :: "property_name list"
  configure_impl :: "property_name list"
  attach_detach_callback :: bool
  new_sri_listener :: bool
  sri_change_listener :: bool

definition constructor :: "'a component \<Rightarrow> 'a component \<times> registrations" where
  "constructor c = (c\<lparr>c_attach := (c_attach c)\<lparr>attached := False\<rparr>\<rparr>,
     \<lparr>query_impl = [AdvancedConfiguration, AdvancedOptimizations, Status],
      configure_impl = [AdvancedConfiguration, AdvancedOptimizations],
      attach_detach_callback = True, new_sri_listener = True, sri_change_listener = True\<rparr>)"

text \<open>The component has no service function: the framework's own thread ends at once.\<close>

definition serviceFunction :: int where "serviceFunction = - 1"

text \<open>The destructors of the members shut the two workers down; no thread is joined.\<close>

definition delete_component :: "'a component \<Rightarrow> 'a component" where
  "delete_component c = c\<lparr>c_proc := shutDown (c_proc c), c_reader := reader_shutDown (c_reader c)\<rparr>"

section \<open>Properties\<close>

text \<open>A new component is as the base class and \<open>constructor\<close> leave it.\<close>

lemma new_component_constructed:
  "fst (constructor (fst (loadProperties (new_component M up T vlan port)))) = new_component M up T vlan port"
  by (simp add: constructor_def loadProperties_def new_component_def new_status_def)

text \<open>Of the properties that can be written, those without a setter of the component's own: the framework
  writes the interface and the override in place, whatever the component is doing.\<close>

definition unguarded :: "(property_name \<times> property_entry) list \<Rightarrow> registrations \<Rightarrow> property_name list" where
  "unguarded entries reg = map fst (filter (\<lambda>(p, e). pe_mode e = ''readwrite'' \<and> p \<notin> set (configure_impl reg)) entries)"

lemma unguarded_properties:
  "unguarded (snd (loadProperties c)) (snd (constructor c)) = [Interface, AttachmentOverride]"
  by (simp add: unguarded_def loadProperties_def constructor_def)

text \<open>The entries carry the IDs of the structs.\<close>

lemma entries_have_struct_ids:
  "map (pe_id \<circ> snd) (tl (snd (loadProperties c)))
     = [getId_advanced_optimizations, getId_attachment_override, getId_advanced_configuration, getId_status]"
  by (simp add: loadProperties_def getId_defs)

end
