(* ===== verification/Status_Text.thy ===== *)
theory Status_Text
  imports Component
begin

text \<open>
  The status of the component: the texts of the fill levels, with a percentage that is computed in
  single precision.
\<close>

section \<open>Percentages\<close>

text \<open>A percentage of nothing is the division of a positive number by zero, or of zero by zero.\<close>

lemma percent_of_nothing:
  assumes "n < 2 ^ 64"
  shows "percent n 0 = (if n = 0 then ''-nan'' else ''inf'')"
proof (cases "n = 0")
  case True
  then show ?thesis by (simp add: percent_def percent_value_def rnd32_def inf_sgn_def)
next
  case False
  obtain b where b: "to_float (dmul (Fin 100) (rnd32 (of_nat n))) = Fin b" "near (2 powi (- 21)) (100 * of_nat n) b"
    using hundred_near [OF _ assms] False by auto
  then have "0 < b" using near_pos False by force
  then show ?thesis using b(1) False by (simp add: percent_def percent_value_def rnd32_def inf_sgn_def)
qed

text \<open>The text \<open>p\<close> is \<open>n\<close> in percent of \<open>d\<close>, to the hundredth but for a small relative error.\<close>

definition good_percent :: "nat \<Rightarrow> nat \<Rightarrow> string \<Rightarrow> bool" where
  "good_percent n d p \<longleftrightarrow> (if d = 0 then p = (if n = 0 then ''-nan'' else ''inf'')
     else \<exists>k. p = hundredths k \<and> \<bar>of_nat k - 10000 * of_nat n / of_nat d\<bar> \<le> 1 / 2 + of_nat n / of_nat d / (100 :: rat)
       \<and> (n \<le> d \<longrightarrow> k \<le> 10000))"

lemma percent_good: "n < 2 ^ 64 \<Longrightarrow> d < 2 ^ 64 \<Longrightarrow> good_percent n d (percent n d)"
  using percent_text [of n d] percent_of_nothing [of n] unfolding good_percent_def percent_def by (metis gr0I)

lemma word_below: "unat (w :: 'a::len word) < 2 ^ 64" if "LENGTH('a) \<le> 64"
  using unsigned_less [of w, where 'a = nat] power_increasing [OF that, of "2 :: nat"] by linarith

section \<open>Properties\<close>

text \<open>C23: The fill levels in the status are right: the texts for the packets that wait, the free packets and
  the socket's queue name the number and, in brackets, what it is in percent of the whole: the nearest
  hundredth of a percent but for an error of at most a hundredth of the share itself (from the
  single precision arithmetic), and never more than 100.00 for a part of the whole. When the whole
  is zero the text is that of an infinity or of the invalid number.\<close>

theorem status_fill_levels:
  assumes "get_num_full_buffers (c_buf c) < 2 ^ 64" "get_num_empty_buffers (c_buf c) < 2 ^ 64"
  shows "\<exists>p q r queue. let st = get_status_struct M stack udp read_file c; size = unat (buffer_size (c_optim c));
      sock = unat (getSocketBufferSize (c_reader c)) in
      buffers_to_work st = decimal (get_num_full_buffers (c_buf c)) @ '' ('' @ p @ ''%)''
    \<and> good_percent (get_num_full_buffers (c_buf c)) size p
    \<and> empty_buffers_available st = decimal (get_num_empty_buffers (c_buf c)) @ '' ('' @ q @ ''%)''
    \<and> good_percent (get_num_empty_buffers (c_buf c)) size q
    \<and> udp_socket_buffer_queue st = decimal queue @ '' / '' @ decimal sock @ '' ('' @ r @ ''%)''
    \<and> good_percent queue sock r"
proof -
  obtain address port vlan where source: "input_source c = (address, port, vlan)" by (rule prod_cases3)
  obtain listeners rx_queue where rx: "get_rx_queue stack udp (nt_addr (mc_network M) address) port = (listeners, rx_queue)"
    by (rule prod.exhaust)
  have below: "unat (buffer_size (c_optim c)) < 2 ^ 64" "unat (getSocketBufferSize (c_reader c)) < 2 ^ 64" "unat rx_queue < 2 ^ 64"
    by (rule word_below; simp)+
  show ?thesis
    using percent_good [OF assms(1) below(1)] percent_good [OF assms(2) below(1)] percent_good [OF below(3,2)]
    by (simp add: get_status_struct_def source rx fill_text_def Let_def) blast
qed


lemma status_fill_levels_witness:
  "\<exists>p. buffers_to_work (get_status_struct sample_machine '''' None (\<lambda>_. None)
      (sample_component\<lparr>c_buf := \<lparr>buf_shuttingDown = False, buf_empty = [1, 2, 3], buf_full = [0]\<rparr>\<rparr>)) = ''1 ('' @ p @ ''%)''
    \<and> good_percent 1 20000 p"
proof -
  let ?c = "sample_component\<lparr>c_buf := \<lparr>buf_shuttingDown = False, buf_empty = [1, 2, 3], buf_full = [0]\<rparr>\<rparr>"
  have "get_num_full_buffers (c_buf ?c) = 1" "get_num_empty_buffers (c_buf ?c) = 3" "unat (buffer_size (c_optim ?c)) = 20000"
    by (simp_all add: get_num_full_buffers_def get_num_empty_buffers_def sample_component_def with_stream_def new_component_def
        new_advanced_optimizations_def)
  moreover have "decimal 1 = ''1''" by code_simp
  ultimately show ?thesis using status_fill_levels [of ?c sample_machine "''''" None "\<lambda>_. None"] by (auto simp: Let_def)
qed

end
