(* ===== verification/Sdds_Shooter.thy ===== *)
theory Sdds_Shooter
  imports Processor_Stream Binary32
begin

text \<open>
  The test tool \<open>sddsShooter.c\<close>: it sends SDDS packets at a given rate for a given time. It declares
  the packet a second time, with fields of its own; the declaration is shown to agree with that of
  \<open>sddspacket.h\<close> byte for byte. The calls into the system (the time, \<open>sendto\<close>, \<open>gettimeofday\<close>) are the
  inputs of a turn of its loop; opening the socket and sleeping are left out. The numbers on its
  packets are those the component expects.
\<close>

section \<open>The packet\<close>

record SDDS_Packet =
  sp_dmode :: "3 word"
  sp_ss :: bool
  sp_of :: bool
  sp_pp :: bool
  sp_sos :: bool
  sp_sf :: bool
  sp_bps :: "5 word"
  sp_vw :: bool
  sp_snp :: bool
  sp_cx :: bool
  sp_seq :: u16
  sp_msptr :: u16
  sp_msdel :: u16
  sp_ttag :: u64
  sp_ttage :: u32
  sp_dFdT :: u32
  sp_freq :: u64
  sp_ssd :: "u16 \<times> u16"
  sp_aad :: "u8 list"
  sp_d :: "u8 list"

text \<open>What \<open>sendto\<close> reads: the bytes of the struct, bit fields from the least significant bit.\<close>

definition wire :: "SDDS_Packet \<Rightarrow> u8 list" where
  "wire p = [ucast (sp_dmode p) OR flag 3 (sp_ss p) OR flag 4 (sp_of p) OR flag 5 (sp_pp p)
       OR flag 6 (sp_sos p) OR flag 7 (sp_sf p),
     ucast (sp_bps p) OR flag 5 (sp_vw p) OR flag 6 (sp_snp p) OR flag 7 (sp_cx p)]
     @ le_store 2 (sp_seq p) @ le_store 2 (sp_msptr p) @ le_store 2 (sp_msdel p) @ le_store 8 (sp_ttag p)
     @ le_store 4 (sp_ttage p) @ le_store 4 (sp_dFdT p) @ le_store 8 (sp_freq p)
     @ le_store 2 (fst (sp_ssd p)) @ le_store 2 (snd (sp_ssd p)) @ sp_aad p @ sp_d p"

definition initial_packet :: SDDS_Packet where
  "initial_packet = \<lparr>sp_dmode = 1, sp_ss = True, sp_of = False, sp_pp = False, sp_sos = False, sp_sf = True,
     sp_bps = 8, sp_vw = False, sp_snp = False, sp_cx = False, sp_seq = 0, sp_msptr = 0, sp_msdel = 0,
     sp_ttag = 0, sp_ttage = 0, sp_dFdT = 0, sp_freq = ucast (htonl (60000000 :: u32)), sp_ssd = (0, 0),
     sp_aad = replicate 20 0, sp_d = replicate 1024 0\<rparr>"

section \<open>The loop\<close>

record shooter =
  sh_p :: SDDS_Packet
  sh_p_seq :: u16
  sh_p_ttag :: u64
  sh_p_sent :: u64
  sh_tot_sent :: u64
  sh_t_milli_start :: u64
  sh_t_wait :: dbl
  sh_pkts_per_sleep :: u64
  sh_a_rate :: dbl

definition max_pkts_per_sleep :: u64 where "max_pkts_per_sleep = 10000"

text \<open>The wait before the first packet: doubled with the packets per sleep until it is long enough.\<close>

partial_function (option) spread :: "dbl \<Rightarrow> u64 \<Rightarrow> (dbl \<times> u64) option" where
  [code]: "spread t_wait pkts_per_sleep =
     (if dless t_wait (Fin 100) \<or> max_pkts_per_sleep \<le> pkts_per_sleep
      then spread (to_float (dmul t_wait (Fin 2))) (pkts_per_sleep * 2)
      else Some (t_wait, pkts_per_sleep))"

definition first_wait :: "dbl \<Rightarrow> dbl" where
  "first_wait d_rate = to_float (ddiv (dmul (Fin 1000000) (Fin 1080)) d_rate)"

definition milliseconds :: "int \<Rightarrow> int \<Rightarrow> u64" where
  "milliseconds tv_sec tv_usec = of_int tv_sec * 1000 + of_int tv_usec div 1000"

text \<open>The lines before the loop; \<open>a_rate\<close> has no initial value. None: \<open>spread\<close> does not return.\<close>

definition shooter_start :: "dbl \<Rightarrow> dbl \<Rightarrow> int \<Rightarrow> int \<Rightarrow> shooter option" where
  "shooter_start d_rate a_rate tv_sec tv_usec = map_option (\<lambda>(t_wait, pkts_per_sleep).
     \<lparr>sh_p = initial_packet, sh_p_seq = 0, sh_p_ttag = 0, sh_p_sent = 0, sh_tot_sent = 0,
      sh_t_milli_start = milliseconds tv_sec tv_usec, sh_t_wait = t_wait,
      sh_pkts_per_sleep = pkts_per_sleep, sh_a_rate = a_rate\<rparr>) (spread (first_wait d_rate) 1)"

text \<open>The next packet: \<open>htonl\<close> takes and gives 32 bits, the comparison with 65536 is one of \<open>int\<close>.\<close>

definition next_packet :: "shooter \<Rightarrow> shooter" where
  "next_packet s = (let
     p_seq = sh_p_seq s + 1; p_ttag = sh_p_ttag s + 1;
     p = (sh_p s)\<lparr>sp_ttag := ucast (htonl (ucast p_ttag :: u32))\<rparr>;
     p = (if uint p_seq = 65536 then p\<lparr>sp_ss := False\<rparr> else p);
     p_seq = (if p_seq \<noteq> 0 \<and> p_seq mod 32 = 31 then p_seq + 1 else p_seq);
     p = p\<lparr>sp_seq := htons p_seq\<rparr>
     in s\<lparr>sh_p := p, sh_p_seq := p_seq, sh_p_ttag := p_ttag\<rparr>)"

text \<open>Every half second the wait is adjusted to the rate that was reached.\<close>

definition retune :: "dbl \<Rightarrow> u64 \<Rightarrow> shooter \<Rightarrow> shooter" where
  "retune d_rate t_milli_end s =
     (if t_milli_end - sh_t_milli_start s \<le> 500 then s
      else let
        a_rate = rnd32 (of_nat (unat (1000 * sh_tot_sent s div (t_milli_end - sh_t_milli_start s))));
        s = s\<lparr>sh_a_rate := a_rate, sh_t_milli_start := t_milli_end, sh_tot_sent := 0\<rparr>;
        rate_diff = to_float (ddiv (to_float (dsub a_rate d_rate)) d_rate)
        in if \<not> dless (rnd (1 / 20)) (dabs rate_diff) then s
           else let t_wait = to_float (dadd (sh_t_wait s) (to_float (dmul (sh_t_wait s) rate_diff)))
             in if dless t_wait (Fin 100) \<and> sh_pkts_per_sleep s < max_pkts_per_sleep
                then s\<lparr>sh_pkts_per_sleep := sh_pkts_per_sleep s * 2, sh_t_wait := to_float (dmul t_wait (Fin (3 / 2)))\<rparr>
                else s\<lparr>sh_t_wait := t_wait\<rparr>)"

text \<open>
  The inputs of one turn: what \<open>time\<close> returns, what \<open>sendto\<close> returns, and the reading of
  \<open>gettimeofday\<close>. The ends of the program: the time is up, \<open>error\<close> after a failed \<open>sendto\<close>, and the
  remainder by zero packets per sleep.
\<close>

record turn_input =
  ti_time :: int
  ti_sendto :: int
  ti_tv_sec :: int
  ti_tv_usec :: int

datatype shot_end = TimeUp | SendFailed | RemainderByZero

definition shoot_turn ::
    "dbl \<Rightarrow> int \<Rightarrow> u64 \<Rightarrow> turn_input \<Rightarrow> shooter \<Rightarrow> u8 list list \<times> (shot_end + shooter)" where
  "shoot_turn d_rate run_time start_time i s =
     (if of_int run_time < of_int (ti_time i) - start_time then ([], Inl TimeUp)
      else let
        sent = (if 0 \<le> ti_sendto i then [wire (sh_p s)] else []);
        s = s\<lparr>sh_p_sent := sh_p_sent s + 1\<rparr>
        in if sh_pkts_per_sleep s = 0 then (sent, Inl RemainderByZero)
           else if ti_sendto i < 0 then (sent, Inl SendFailed)
           else let s = next_packet (s\<lparr>sh_tot_sent := sh_tot_sent s + of_int (ti_sendto i)\<rparr>)
             in (sent, Inr (retune d_rate (milliseconds (ti_tv_sec i) (ti_tv_usec i)) s)))"

text \<open>The datagrams that leave in the turns with inputs \<open>is\<close>, and how the last turn ended.\<close>

fun shoot :: "dbl \<Rightarrow> int \<Rightarrow> u64 \<Rightarrow> turn_input list \<Rightarrow> shooter \<Rightarrow> u8 list list \<times> (shot_end + shooter)" where
  "shoot d_rate run_time start_time [] s = ([], Inr s)"
| "shoot d_rate run_time start_time (i # is) s = (case shoot_turn d_rate run_time start_time i s of
     (sent, Inl e) \<Rightarrow> (sent, Inl e)
   | (sent, Inr s) \<Rightarrow> (case shoot d_rate run_time start_time is s of (later, e) \<Rightarrow> (sent @ later, e)))"

section \<open>The two declarations of the packet\<close>

definition as_packet :: "SDDS_Packet \<Rightarrow> SDDSpacket" where
  "as_packet p = \<lparr>pkt_dmode = sp_dmode p, pkt_ss = sp_ss p, pkt_of = sp_of p, pkt_pp = sp_pp p,
     pkt_sos = sp_sos p, pkt_sf = sp_sf p, pkt_bps = sp_bps p, pkt_vw = sp_vw p, pkt_snp = sp_snp p,
     pkt_cx = sp_cx p, pkt_seq = sp_seq p, pkt_msptr = sp_msptr p, pkt_msdel = sp_msdel p,
     pkt_ttag = sp_ttag p, pkt_ttage = sp_ttage p, pkt_dFdT = sp_dFdT p, pkt_freq = sp_freq p,
     pkt_ssd0 = fst (sp_ssd p), pkt_ssd1 = snd (sp_ssd p), pkt_aad = sp_aad p, pkt_d = sp_d p\<rparr>"

lemma wire_as_packet: "wire p = bytes_of_packet (as_packet p)"
  by (simp add: wire_def bytes_of_packet_def byte0_def byte1_def as_packet_def)

section \<open>What is sent\<close>

text \<open>The \<open>n\<close>-th packet.\<close>

definition shot_packet :: "nat \<Rightarrow> SDDS_Packet" where
  "shot_packet n = initial_packet\<lparr>sp_seq := htons (of_nat (n + n div 31)), sp_ttag := ucast (htonl (of_nat n :: u32))\<rparr>"

lemma initial_shot: "shot_packet 0 = initial_packet"
  by (simp add: shot_packet_def initial_packet_def net16.swap_0 net32.swap_0)

definition shooting :: "nat \<Rightarrow> shooter \<Rightarrow> bool" where
  "shooting n s \<longleftrightarrow> sh_p s = shot_packet n \<and> sh_p_seq s = of_nat (n + n div 31) \<and> sh_p_ttag s = of_nat n"

lemma ucast_of_nat32: "(ucast (of_nat n :: u64) :: u32) = of_nat n"
  by (simp add: word_unat_eq_iff unsigned_ucast_eq unsigned_of_nat)

lemma next_packet_shooting:
  assumes "shooting n s"
  shows "shooting (Suc n) (next_packet s)"
proof -
  have s: "sh_p s = shot_packet n" "sh_p_seq s = of_nat (n + n div 31)" "sh_p_ttag s = of_nat n"
    using assms by (simp_all add: shooting_def)
  have ss: "uint (sh_p_seq s + 1) \<noteq> 65536"
    using unsigned_less [of "sh_p_seq s + 1", where 'a = int] by simp
  have seq: "(if sh_p_seq s + 1 \<noteq> 0 \<and> (sh_p_seq s + 1) mod 32 = 31 then sh_p_seq s + 1 + 1 else sh_p_seq s + 1)
      = of_nat (Suc n + Suc n div 31)"
    using next_seq_numbers [of n] unfolding next_seq_def Let_def s(2) .
  have tag: "(ucast (of_nat n + 1 :: u64) :: u32) = of_nat (Suc n)"
    using ucast_of_nat32 [of "Suc n"] by (simp add: add.commute)
  show ?thesis
    unfolding shooting_def next_packet_def Let_def seq if_not_P [OF ss]
    by (simp add: s shot_packet_def tag)
qed

lemma retune_shooting [simp]: "shooting n (retune d t s) = shooting n s"
  by (simp add: retune_def shooting_def Let_def)

lemma shoot_shooting:
  "shooting n s \<Longrightarrow> fst (shoot d_rate run_time start_time is s)
     = map (wire \<circ> shot_packet) [n ..< n + length (fst (shoot d_rate run_time start_time is s))]"
proof (induction "is" arbitrary: n s)
  case (Cons i "is")
  have p: "sh_p s = shot_packet n" using Cons.prems by (simp add: shooting_def)
  show ?case
  proof (cases "snd (shoot_turn d_rate run_time start_time i s)")
    case (Inl e)
    then show ?thesis by (auto simp: shoot_turn_def p Let_def split: if_splits prod.splits)
  next
    case (Inr s')
    let ?n = "next_packet (s\<lparr>sh_p_sent := sh_p_sent s + 1, sh_tot_sent := sh_tot_sent s + of_int (ti_sendto i)\<rparr>)"
    have "shooting n (s\<lparr>sh_p_sent := sh_p_sent s + 1, sh_tot_sent := sh_tot_sent s + of_int (ti_sendto i)\<rparr>)"
      using Cons.prems by (simp add: shooting_def)
    then have "shooting (Suc n) ?n" by (rule next_packet_shooting)
    moreover have turn: "shoot_turn d_rate run_time start_time i s = ([wire (shot_packet n)], Inr s')"
        "s' = retune d_rate (milliseconds (ti_tv_sec i) (ti_tv_usec i)) ?n"
      using Inr by (auto simp: shoot_turn_def p Let_def split: if_splits)
    ultimately have "shooting (Suc n) s'" by simp
    from Cons.IH [OF this] show ?thesis
      by (cases "shoot d_rate run_time start_time is s'") (simp add: turn(1) upt_conv_Cons del: upt_Suc)
  qed
qed simp

lemma start_shooting: "shooter_start d_rate a_rate tv_sec tv_usec = Some s \<Longrightarrow> shooting 0 s"
  by (auto simp: shooter_start_def shooting_def initial_shot)

text \<open>What the component reads of the packets.\<close>

lemma shot_wf: "wf_packet (as_packet (shot_packet n))"
  by (simp add: wf_packet_def as_packet_def shot_packet_def initial_packet_def)

lemma received_shot: "packet_of_bytes (wire (shot_packet n)) = as_packet (shot_packet n)"
  by (simp add: wire_as_packet packet_bytes_inverse shot_wf)

lemma shot_seq: "get_seq (as_packet (shot_packet n)) = of_nat (n + n div 31)"
  by (simp add: get_seq_def as_packet_def shot_packet_def net16.swap_swap)

text \<open>A number that \<open>htonl\<close> has put into the 64 bits of the time tag is read in its upper half.\<close>

lemma le_store_ucast: "le_store 8 (ucast (v :: u32) :: u64) = le_store 4 v @ [0, 0, 0, 0]"
proof (rule nth_equalityI)
  fix i
  assume "i < length (le_store 8 (ucast v :: u64))"
  then have i: "i < 8" by simp
  have "ucast (drop_bit (8 * i) (ucast v :: u64)) = (if i < 4 then ucast (drop_bit (8 * i) v) else 0 :: u8)"
    using i by (intro bit_word_eqI) (auto simp: bit_simps dest: bit_imp_le_length)
  moreover have "[0, 0, 0, 0 :: u8] ! (i - 4) = 0" if "4 \<le> i"
    using i that by (auto simp: less_Suc_eq numeral_eq_Suc)
  ultimately show "le_store 8 (ucast v :: u64) ! i = (le_store 4 v @ [0, 0, 0, 0]) ! i"
    using i by (simp add: nth_le_store nth_append)
qed simp

lemma le_load_store32: "(le_load (le_store 4 (v :: u32)) :: u64) = ucast v"
proof (rule bit_word_eqI)
  fix i
  assume "i < LENGTH(64)"
  then show "bit (le_load (le_store 4 v) :: u64) i = bit (ucast v :: u64) i"
    by (cases "i div 8 < 4") (auto simp: bit_le_load nth_le_store bit_simps dest: bit_imp_le_length)
qed

lemma swap8_ucast: "swap8 (ucast (v :: u32)) = push_bit 32 (ucast (ntohl v))"
proof -
  have zeros: "(le_load ([0, 0, 0, 0] @ bs) :: u64) = push_bit 32 (le_load bs)" for bs
    by simp
  have "swap8 (ucast v) = le_load ([0, 0, 0, 0] @ rev (le_store 4 v))"
    by (simp only: swap8_rev le_store_ucast rev_append) simp
  also have "rev (le_store 4 v) = le_store 4 (ntohl v)" by (simp add: net32.store_swap)
  finally show ?thesis by (simp only: zeros le_load_store32)
qed

lemma shot_time: "ps250 (get_SDDSTime (as_packet (shot_packet n))) = push_bit 32 (of_nat n)"
proof -
  have "push_bit 32 (ucast (of_nat n :: u32)) = (push_bit 32 (of_nat n) :: u64)"
    by (rule bit_word_eqI) (auto simp: bit_simps simp flip: ucast_of_nat32)
  then show ?thesis
    by (simp add: get_SDDSTime_def as_packet_def shot_packet_def swap8_ucast net32.swap_swap time_raw_def)
qed

lemma shot_data: "pkt_d (as_packet (shot_packet n)) = replicate 1024 0"
  by (simp add: as_packet_def shot_packet_def initial_packet_def)

lemma in_sequence_shots:
  "in_sequence (of_nat (n + n div 31)) (map (as_packet \<circ> shot_packet) [n ..< n + k])"
proof (induction k arbitrary: n)
  case (Suc k)
  then show ?case
    using Suc.IH [of "Suc n"] by (simp add: upt_conv_Cons shot_seq next_seq_numbers del: upt_Suc of_nat_Suc of_nat_add)
qed simp

lemma sent_packets:
  assumes "shooter_start d_rate a_rate tv_sec tv_usec = Some s" "shoot d_rate run_time start_time is s = (sent, e)"
  shows "sent = map (wire \<circ> shot_packet) [0 ..< length sent]"
  using shoot_shooting [OF start_shooting [OF assms(1)], of d_rate run_time start_time "is"] assms(2) by simp

section \<open>Properties\<close>

text \<open>C21: The packets of the shooter: for any rate, any clock and any results of \<open>sendto\<close>, the \<open>n\<close>-th
  datagram that leaves is 1080 bytes which the component's own declaration of the packet reads as 8 bit
  samples with the number \<open>n + n div 31\<close>, through all wrap arounds, so that the packets are exactly
  those the component expects. The bit \<open>ss\<close> (the spectral sense), which the tool sets ``for the first
  \<open>2 ^ 16\<close> packets'', is set in all of them, the bit \<open>sos\<close> (the start of a sequence) in none, and the time
  tag counts in the upper half of its 64 bits.\<close>

theorem shooter_sends_expected:
  assumes "shooter_start d_rate a_rate tv_sec tv_usec = Some s" "shoot d_rate run_time start_time is s = (sent, e)"
    "n < length sent"
  shows "length (sent ! n) = 1080 \<and> in_sequence 0 (map packet_of_bytes sent)
    \<and> get_seq (packet_of_bytes (sent ! n)) = of_nat (n + n div 31)
    \<and> getBps (packet_of_bytes (sent ! n)) = 8
    \<and> pkt_ss (packet_of_bytes (sent ! n)) \<and> \<not> pkt_sos (packet_of_bytes (sent ! n))
    \<and> ps250 (get_SDDSTime (packet_of_bytes (sent ! n))) = push_bit 32 (of_nat n)"
proof -
  note sent = sent_packets [OF assms(1,2)]
  have nth: "sent ! n = wire (shot_packet n)" using assms(3) by (subst sent) simp
  have "map packet_of_bytes sent = map (as_packet \<circ> shot_packet) [0 ..< length sent]"
    by (subst sent) (simp add: received_shot o_def)
  then have "in_sequence 0 (map packet_of_bytes sent)"
    using in_sequence_shots [of 0 "length sent"] by simp
  moreover have "length (wire (shot_packet n)) = 1080"
    by (simp add: wire_as_packet length_bytes_of_packet shot_wf)
  moreover have "getBps (as_packet (shot_packet n)) = 8" "pkt_ss (as_packet (shot_packet n))"
    "\<not> pkt_sos (as_packet (shot_packet n))"
    by (simp_all add: getBps_def as_packet_def shot_packet_def initial_packet_def)
  ultimately show ?thesis by (simp add: nth received_shot shot_seq shot_time)
qed

section \<open>A sample run of the tool\<close>

lemma sample_wait: "first_wait (Fin 1000000) = Fin 1080"
  by (simp add: first_wait_def rnd_defs rnd32_def)

definition sample_shooter :: shooter where
  "sample_shooter = \<lparr>sh_p = initial_packet, sh_p_seq = 0, sh_p_ttag = 0, sh_p_sent = 0, sh_tot_sent = 0,
      sh_t_milli_start = 0, sh_t_wait = Fin 1080, sh_pkts_per_sleep = 1, sh_a_rate = Fin 0\<rparr>"

lemma sample_shooter_start: "shooter_start (Fin 1000000) (Fin 0) 0 0 = Some sample_shooter"
proof -
  have "spread (Fin 1080) 1 = Some (Fin 1080, 1)" by (subst spread.simps) (simp add: max_pkts_per_sleep_def word_le_nat_alt)
  then show ?thesis by (simp add: shooter_start_def sample_wait sample_shooter_def milliseconds_def)
qed

definition sample_turn_input :: turn_input where
  "sample_turn_input = \<lparr>ti_time = 0, ti_sendto = 1080, ti_tv_sec = 0, ti_tv_usec = 0\<rparr>"

lemma sample_shoot_turn:
  assumes "sh_t_milli_start s = 0" "sh_pkts_per_sleep s = 1"
  obtains s' where "shoot_turn (Fin 1000000) 10 0 sample_turn_input s = ([wire (sh_p s)], Inr s')"
    "sh_t_milli_start s' = 0" "sh_pkts_per_sleep s' = 1"
proof -
  have "milliseconds 0 0 = 0" by (simp add: milliseconds_def)
  then show thesis
    using assms by (intro that [of "next_packet (s\<lparr>sh_p_sent := sh_p_sent s + 1, sh_tot_sent := sh_tot_sent s + 1080\<rparr>)"])
      (simp_all add: shoot_turn_def sample_turn_input_def next_packet_def retune_def Let_def)
qed

lemma sample_shoot:
  "\<exists>p e. shoot (Fin 1000000) 10 0 [sample_turn_input, sample_turn_input] sample_shooter = ([wire initial_packet, p], e)"
proof -
  obtain s1 where s1: "shoot_turn (Fin 1000000) 10 0 sample_turn_input sample_shooter = ([wire initial_packet], Inr s1)"
    "sh_t_milli_start s1 = 0" "sh_pkts_per_sleep s1 = 1"
    by (rule sample_shoot_turn [of sample_shooter]) (simp_all add: sample_shooter_def)
  obtain s2 where "shoot_turn (Fin 1000000) 10 0 sample_turn_input s1 = ([wire (sh_p s1)], Inr s2)"
    by (rule sample_shoot_turn [OF s1(2,3)])
  with s1(1) show ?thesis by simp
qed

lemma shooter_sends_expected_witness:
  "\<exists>p e. shoot (Fin 1000000) 10 0 [sample_turn_input, sample_turn_input] sample_shooter = ([wire initial_packet, p], e)
    \<and> get_seq (packet_of_bytes p) = 1 \<and> ps250 (get_SDDSTime (packet_of_bytes p)) = 0x100000000"
proof -
  obtain p e where sent: "shoot (Fin 1000000) 10 0 [sample_turn_input, sample_turn_input] sample_shooter
      = ([wire initial_packet, p], e)" using sample_shoot by blast
  have "get_seq (packet_of_bytes p) = 1 \<and> ps250 (get_SDDSTime (packet_of_bytes p)) = 0x100000000"
    using shooter_sends_expected [OF sample_shooter_start sent, of 1] by (simp del: in_sequence.simps)
  with sent show ?thesis by blast
qed

end
