(* ===== verification/Shooter_Pipeline.thy ===== *)
theory Shooter_Pipeline
  imports Pipeline_Progress Sdds_Shooter
begin

text \<open>
  The test tool and the component together: the packets \<open>sddsShooter\<close> sends on the whole way through
  the socket, the buffer and the processor to BulkIO.
\<close>

section \<open>The packets of the tool are one stream\<close>

lemma shot_freq: "pkt_freq (as_packet (shot_packet n)) \<noteq> 0"
proof
  assume "pkt_freq (as_packet (shot_packet n)) = 0"
  then have "unat (ucast (htonl 60000000 :: u32) :: u64) = 0" by (simp add: as_packet_def shot_packet_def initial_packet_def)
  then have "unat (htonl 60000000) = 0" 
    using unsigned_less [of "htonl 60000000 :: u32", where 'a = nat] by (simp add: unsigned_ucast_eq take_bit_nat_eq_self)
  then show False by (simp add: unat_eq_0 net32.swap_eq_0)
qed

text \<open>A packet of the tool: 8 bit samples, all zero, a frequency, and a time tag that is not valid.\<close>

definition a_shot :: "SDDSpacket \<Rightarrow> bool" where
  "a_shot pkt \<longleftrightarrow> getBps pkt = 8 \<and> pkt_d pkt = replicate 1024 0 \<and> pkt_freq pkt \<noteq> 0 \<and> \<not> ttv_on pkt"

lemma shot_is_a_shot: "a_shot (as_packet (shot_packet n))"
  using shot_freq [of n] shot_data [of n]
  by (simp add: a_shot_def getBps_def ttv_on_def get_ttv_def as_packet_def shot_packet_def initial_packet_def)

lemma in_sequence_prefix: "in_sequence n (ps @ qs) \<Longrightarrow> in_sequence n ps"
  by (induction n ps rule: in_sequence.induct) auto

text \<open>What the specification makes of them.\<close>

lemma shots_tracked:
  assumes "list_all a_shot ps" "in_sequence n ps" "tr_next t = None \<or> tr_next t = Some n \<and> tr_bps t = 8"
  shows "outputs w t ps = (if w then [] else map (Pair 8) ps) \<and> tr_dropped (tracked w ps t) = tr_dropped t"
  using assms
proof (induction n ps arbitrary: t rule: in_sequence.induct)
  case (2 n p ps)
  then have p: "a_shot p" "get_seq p = n" and ps: "list_all a_shot ps" "in_sequence (next_seq n) ps" by simp_all
  show ?case
  proof (cases w)
    case True
    have "outputs True t qs = [] \<and> tracked True qs t = t" if "list_all a_shot qs" for qs
      using that by (induction qs) (simp_all add: track_def taken_def a_shot_def)
    from this [OF 2(2)] show ?thesis using True by metis
  next
    case False
    let ?t = "track False p t"
    have t: "tr_next ?t = Some (next_seq n)" "tr_bps ?t = 8" "tr_dropped ?t = tr_dropped t"
      using p 2(4) by (auto simp: track_def taken_def missed_def a_shot_def)
    from 2(1) [OF ps, of ?t] t show ?thesis using False by (simp add: taken_def)
  qed
qed simp

lemma shots_usable: "list_all a_shot ps \<Longrightarrow> usable w t ps"
  by (induction ps arbitrary: t) (simp_all add: can_pass_def a_shot_def bps_ok_iff)

lemma shots_carried:
  assumes "carries order (map (Pair 8) ps) cs" "list_all a_shot ps"
  shows "\<exists>Ts. list_all2 stamped ps Ts \<and> cs = map (WriteOctet (replicate 1024 0)) Ts"
proof -
  obtain ds where ds: "cs = concat ds"
    "list_all2 (\<lambda>pkt d. \<exists>e T. order e \<and> stamped pkt T \<and> d = spec_write e 8 (pkt_d pkt) T) ps ds"
    using assms(1) by (auto simp: carries_def list_all2_map1)
  from ds(2) assms(2) show ?thesis
    unfolding ds(1)
  proof (induction rule: list_all2_induct)
    case (Cons p ps d ds)
    then obtain T Ts where "stamped p T" "d = [WriteOctet (replicate 1024 0) T]" "list_all2 stamped ps Ts"
      "concat ds = map (WriteOctet (replicate 1024 0)) Ts" by (auto simp: spec_write_def a_shot_def)
    then show ?case by (intro exI [of _ "T # Ts"]) simp
  qed simp
qed

lemma sent_part:
  assumes "shooter_start d_rate a_rate tv_sec tv_usec = Some s" "shoot d_rate run_time start_time is s = (sent, e)"
  shows "map packet_of_bytes (take k (drop m sent)) = map (as_packet \<circ> shot_packet) [m ..< min (m + k) (length sent)]"
proof -
  have "take k [m ..< length sent] = [m ..< min (m + k) (length sent)]"
    by (cases "m + k \<le> length sent") (simp_all add: take_upt)
  then show ?thesis
    by (subst sent_packets [OF assms]) (simp add: drop_map take_map received_shot o_def)
qed

text \<open>
  The packets \<open>ps\<close> have been written, one write of 1024 zero bytes with its time stamp for each, and none
  is counted as dropped. With wait-on-ttv nothing is written.
\<close>

definition shots_written :: "'a processor \<Rightarrow> SDDSpacket list \<Rightarrow> 'a processor \<Rightarrow> bool" where
  "shots_written st ps st' \<longleftrightarrow> m_pkts_dropped st' = m_pkts_dropped st
     \<and> (\<exists>Ts. list_all2 stamped (if m_wait_for_ttv st then [] else ps) Ts
         \<and> data_writes (m_calls st') = data_writes (m_calls st) @ map (WriteOctet (replicate 1024 0)) Ts)"

lemma implements_shots:
  assumes "implements order st ps ws st'" "m_first_packet st" "list_all a_shot (ps @ ws)" "in_sequence n (ps @ ws)"
  shows "shots_written st ps st'"
proof -
  let ?w = "m_wait_for_ttv st" and ?t = "tracker_of st"
  have first: "tr_next ?t = None" "tr_dropped ?t = m_pkts_dropped st" using assms(2) by (simp_all add: tracker_of_def)
  have part: "outputs ?w ?t qs = (if ?w then [] else map (Pair 8) qs) \<and> tr_dropped (tracked ?w qs ?t) = m_pkts_dropped st"
    if "ps @ ws = qs @ more" for qs more
    using shots_tracked [of qs n ?t ?w] first assms(3,4) in_sequence_prefix [of n qs more] by (auto simp: that)
  have "m_pkts_dropped st' = m_pkts_dropped st"
    using assms(1) part [of ps ws] part [of "ps @ [hd ws]" "tl ws"] by (cases ws) (auto simp: implements_def Let_def)
  moreover obtain cs where "carries order (if ?w then [] else map (Pair 8) ps) cs"
    "data_writes (m_calls st') = data_writes (m_calls st) @ cs"
    using assms(1) part [of ps ws] by (auto simp: implements_def Let_def)
  moreover from this(1) have "\<exists>Ts. list_all2 stamped (if ?w then [] else ps) Ts \<and> cs = map (WriteOctet (replicate 1024 0)) Ts"
    using shots_carried [of order ps cs] assms(3) by (cases ?w) auto
  ultimately show ?thesis by (auto simp: shots_written_def)
qed

section \<open>Properties\<close>

text \<open>C20: The test tool works: whatever rate, clock and results of \<open>sendto\<close> the tool runs with, let some
  of the packets that it sent in a row be what arrives at a component that was just started. Then over
  every run of the threads, with upstream SRIs and a stop at any time, exactly one write of 1024 zero
  bytes has reached BulkIO for every packet the processor has handled, none of the packets is counted
  as dropped, and the processor does not fault; with wait-on-ttv nothing is written, since the tool's
  time tags are not valid. Unless it is being stopped, at most 18 steps of the processing thread for
  each waiting packet and 4 more bring it to where all packets that arrived are handled so, but for
  less than one push.\<close>

theorem shooter_reaches_bulkio:
  assumes "shooter_start d_rate a_rate tv_sec tv_usec = Some sh" "shoot d_rate run_time start_time is sh = (sent, e)"
    "start_ok n np mem r st" "m_first_packet st" "sys_run P c (started base capacity mem r st) evs s"
    "arrived evs = map packet_of_bytes (take k (drop m sent))"
  shows "shots_written st (handled evs) (sy_proc s) \<and> (\<forall>f. sy_ppc s \<noteq> PFault f)
    \<and> (\<exists>rest. arrived evs = handled evs @ rest
        \<and> (\<not> buf_shuttingDown (sy_buf s) \<and> sy_ppc s \<noteq> PDone \<longrightarrow> rest = waiting s))
    \<and> (0 < np \<and> \<not> buf_shuttingDown (sy_buf s) \<and> sy_ppc s \<noteq> PDone \<and> \<not> m_shuttingDown (sy_proc s)
        \<longrightarrow> (\<exists>evs' t. sys_run P c s evs' t \<and> length evs' \<le> 18 * length (waiting s) + 4
            \<and> arrived evs = handled (evs @ evs') @ waiting t \<and> length (waiting t) < unat np
            \<and> shots_written st (handled (evs @ evs')) (sy_proc t)))"
proof -
  let ?j = "min (m + k) (length sent)"
  have shots: "arrived evs = map (as_packet \<circ> shot_packet) [m ..< ?j]"
    using assms(6) sent_part [OF assms(1,2)] by simp
  have all: "list_all a_shot (arrived evs)" unfolding shots by (simp add: list_all_iff shot_is_a_shot)
  have seq: "in_sequence (of_nat (m + m div 31)) (arrived evs)"
  proof (cases "m < ?j")
    case True
    then have "m + (?j - m) = ?j" by simp
    with in_sequence_shots [of m "?j - m"] show ?thesis unfolding shots by simp
  next
    case False
    then have none: "[m ..< ?j] = []" by (intro upt_conv_Nil) linarith
    show ?thesis unfolding shots none by simp
  qed
  obtain rest where sound: "sound P (orders P st evs) st evs rest s" using started_sound [OF assms(3,5)] .
  then have rest: "arrived evs = handled evs @ rest" "implements (orders P st evs) st (handled evs) rest (sy_proc s)"
      "\<not> buf_shuttingDown (sy_buf s) \<and> sy_ppc s \<noteq> PDone \<longrightarrow> rest = waiting s"
      "\<forall>f. sy_ppc s = PFault f \<longrightarrow> rest \<noteq> [] \<and> faulty_first (m_wait_for_ttv st)
         (tracked (m_wait_for_ttv st) (handled evs) (tracker_of st)) (hd rest)"
    by (auto simp: sound_def fault_ok_def running_def hd_append)
  have "shots_written st (handled evs) (sy_proc s)"
    using implements_shots [OF rest(2) assms(4)] all seq unfolding rest(1) by blast
  moreover have "sy_ppc s \<noteq> PFault f" for f
    using rest(4) all unfolding rest(1) by (cases rest) (auto simp: faulty_first_def a_shot_def bps_ok_iff)
  moreover have "\<exists>evs' t. sys_run P c s evs' t \<and> length evs' \<le> 18 * length (waiting s) + 4
            \<and> arrived evs = handled (evs @ evs') @ waiting t \<and> length (waiting t) < unat np
            \<and> shots_written st (handled (evs @ evs')) (sy_proc t)"
    if goes: "0 < np" "\<not> buf_shuttingDown (sy_buf s)" "sy_ppc s \<noteq> PDone" "\<not> m_shuttingDown (sy_proc s)"
  proof -
    obtain evs' t where t: "sys_run P c s evs' t" "length evs' \<le> 18 * length (waiting s) + 4"
      "arrived evs = handled (evs @ evs') @ waiting t" "length (waiting t) < unat np"
      "implements (orders P st evs) st (handled (evs @ evs')) (waiting t) (sy_proc t)"
      using packets_delivered [OF assms(3,5) goes(2-4) shots_usable [OF all] goes(1)] by blast
    have "shots_written st (handled (evs @ evs')) (sy_proc t)"
      using implements_shots [OF t(5) assms(4)] all seq unfolding t(3) by blast
    with t show ?thesis by blast
  qed
  ultimately show ?thesis using rest(1,3) by blast
qed

lemma shooter_reaches_bulkio_witness:
  "\<exists>sent e evs t. shoot (Fin 1000000) 10 0 [sample_turn_input, sample_turn_input] sample_shooter = (sent, e)
    \<and> sys_run sample_platform False (started 0 4 (\<lambda>_. blank_packet) new_reader one_fresh) evs t
    \<and> handled evs = [packet_of_bytes (hd sent)] \<and> waiting t = []
    \<and> (\<exists>T. data_writes (m_calls (sy_proc t)) = [WriteOctet (replicate 1024 0) T])"
proof -
  obtain p e where sent: "shoot (Fin 1000000) 10 0 [sample_turn_input, sample_turn_input] sample_shooter
      = ([wire initial_packet, p], e)" using sample_shoot by blast
  have len: "length (wire initial_packet) = 1080"
    using shot_wf [of 0] by (simp add: wire_as_packet length_bytes_of_packet initial_shot)
  let ?pkt = "packet_of_bytes (wire initial_packet)"
  let ?evs = "replicate 5 Tau @ [Arrive [?pkt]]"
  obtain s where s: "sys_run sample_platform False (started 0 4 (\<lambda>_. blank_packet) new_reader one_fresh) ?evs s"
    "running s" "sy_ppc s = PPop" "\<not> m_shuttingDown (sy_proc s)"
    using one_arrives [OF one_fresh_ok(1) _ _ len, of 4 sample_platform False 0] by auto
  have run: "(0 :: u64) < 1 \<and> \<not> buf_shuttingDown (sy_buf s) \<and> sy_ppc s \<noteq> PDone \<and> \<not> m_shuttingDown (sy_proc s)"
    using s by (simp add: running_def)
  have arr: "arrived ?evs = map packet_of_bytes (take 1 (drop 0 [wire initial_packet, p]))"
    and one: "arrived ?evs = [?pkt]" by (simp_all add: numeral_eq_Suc)
  have first: "m_first_packet one_fresh" by (simp add: one_fresh_def sample_defs)
  note res = shooter_reaches_bulkio [OF sample_shooter_start sent one_fresh_ok(1) first s(1) arr]
  obtain evs' t where t: "sys_run sample_platform False s evs' t" "arrived ?evs = handled (?evs @ evs') @ waiting t"
    "length (waiting t) < unat (1 :: u64)" "shots_written one_fresh (handled (?evs @ evs')) (sy_proc t)"
    using conjunct2 [OF conjunct2 [OF conjunct2 [OF res]]] run by blast
  have done': "waiting t = []" "handled (?evs @ evs') = [?pkt]" using t(2,3) unfolding one by simp_all
  obtain Ts where "list_all2 stamped [?pkt] Ts" "data_writes (m_calls (sy_proc t)) = map (WriteOctet (replicate 1024 0)) Ts"
    using t(4) unfolding done' by (auto simp: shots_written_def one_fresh_ok data_writes_def)
  then have "\<exists>T. data_writes (m_calls (sy_proc t)) = [WriteOctet (replicate 1024 0) T]"
    by (auto simp: list_all2_Cons1)
  with sent sys_run_trans [OF t(1) s(1)] done' show ?thesis
    by (intro exI [of _ "[wire initial_packet, p]"] exI [of _ e] exI [of _ "?evs @ evs'"] exI [of _ t] conjI) simp_all
qed

end
