(* ===== verification/Shooter_Wait.thy ===== *)
theory Shooter_Wait
  imports Sdds_Shooter
begin

text \<open>
  The loop of the test tool that looks for the wait before its first packet: for which rates it returns,
  and with how many packets per sleep. Doubling a \<open>float\<close> is exact, so that the wait after \<open>k\<close> turns is
  \<open>2 ^ k\<close> times the first one, while the number of packets per sleep is \<open>2 ^ k\<close> modulo \<open>2 ^ 64\<close>.
\<close>

section \<open>Doubling a float\<close>

text \<open>A positive number with 24 digits and no bit below that of the smallest \<open>float\<close>.\<close>

definition pos_float :: "rat \<Rightarrow> bool" where
  "pos_float x \<longleftrightarrow> (\<exists>m e. x = of_int m * 2 powi e \<and> 0 < m \<and> m \<le> 2 ^ 24 \<and> - 149 \<le> e)"

lemma pos_float_pos: "pos_float x \<Longrightarrow> 0 < x"
  by (auto simp: pos_float_def intro!: mult_pos_pos)

lemma pos_float_least: "pos_float x \<Longrightarrow> 2 powi (- 149) \<le> x"
proof -
  assume "pos_float x"
  then obtain m e where x: "x = of_int m * 2 powi e" "0 < m" "- 149 \<le> e" by (auto simp: pos_float_def)
  have "2 powi (- 149) \<le> (2 powi e :: rat)" by (rule powi2_mono [OF x(3)])
  also have "\<dots> = 1 * 2 powi e" by simp
  also have "\<dots> \<le> of_int m * 2 powi e" using x(2) by (intro mult_right_mono) simp_all
  finally show ?thesis by (simp only: x(1))
qed

lemma pos_float_double:
  assumes "pos_float x" "x < 2 powi 72"
  shows "to_float (dmul (Fin x) (Fin 2)) = Fin (2 * x)" "pos_float (2 * x)"
proof -
  obtain m e where x: "x = of_int m * 2 powi e" "0 < m" "m \<le> 2 ^ 24" "- 149 \<le> e"
    using assms(1) by (auto simp: pos_float_def)
  have pos: "0 < x" using pos_float_pos [OF assms(1)] .
  have y: "2 * x = of_int m * 2 powi (e + 1)" by (simp add: x(1) powi2_Suc)
  show "pos_float (2 * x)" unfolding pos_float_def
    by (rule exI [of _ m], rule exI [of _ "e + 1"]) (use x y in simp)
  have "2 powi e * 1 \<le> (2 powi e * of_int m :: rat)" using x(2) by (intro mult_left_mono) simp_all
  then have "2 powi e \<le> x" by (simp add: x(1) mult.commute)
  then have "2 powi e < (2 powi 72 :: rat)" using assms(2) by linarith
  then have e: "e < 72" by (simp only: powi2_less_iff)
  have "\<bar>m\<bar> \<le> 2 ^ 53" using x(2,3) by simp
  then have "representable (2 * x)" unfolding representable_def
    by (intro exI [of _ m] exI [of _ "e + 1"]) (use x(4) e y in simp)
  then have "dmul (Fin x) (Fin 2) = Fin (2 * x)" by (simp add: rnd_exact mult.commute)
  moreover have "rnd32 (2 * x) = Fin (2 * x)"
  proof -
    have "round_at (max (- 149) (ilog2 (2 * x) - 23)) (2 * x) = 2 * x"
    proof (cases "m = 2 ^ 24")
      case True
      have y': "2 * x = 2 powi (e + 25)" unfolding y True using power_int_add [of "2 :: rat" 24 "e + 1"] by (simp add: add.commute)
      have "ilog2 (2 * x) < e + 26" using pos by (subst ilog2_less_iff) (simp_all add: y')
      then show ?thesis unfolding y' using x(4) by (intro round_at_pow2) (simp add: y')
    next
      case False
      then have "m < 2 ^ 24" using x(3) by simp
      then have "of_int m < (of_int (2 ^ 24) :: rat)" by (simp only: of_int_less_iff)
      then have "2 * x < of_int (2 ^ 24) * 2 powi (e + 1)" unfolding y by (intro mult_strict_right_mono) simp_all
      also have "\<dots> = 2 powi (e + 25)" using power_int_add [of "2 :: rat" 24 "e + 1"] by (simp add: add.commute)
      finally have "ilog2 (2 * x) < e + 25" using pos by (subst ilog2_less_iff) simp_all
      then show ?thesis using x(4) unfolding y by (intro round_at_minus_exact) simp
    qed
    moreover have "2 * x < 2 ^ 128" using assms(2) by (simp add: power_int_def)
    ultimately show ?thesis using pos by (simp add: rnd32_def)
  qed
  ultimately show "to_float (dmul (Fin x) (Fin 2)) = Fin (2 * x)" by simp
qed

lemma rnd32_pos_float:
  assumes "rnd32 y = Fin x" "0 < x"
  shows "pos_float x"
proof -
  define e where "e = max (- 149) (ilog2 \<bar>y\<bar> - 23)"
  define m where "m = rne (y / 2 powi e)"
  have "y \<noteq> 0" using assms by (auto simp: rnd32_def)
  then have x: "x = of_int m * 2 powi e"
    using assms(1) by (auto simp: rnd32_def Let_def round_at_def e_def m_def split: if_splits)
  then have m: "0 < m" using assms(2) powi2_pos [of e] by (auto simp: zero_less_mult_iff simp del: powi2_pos)
  have y: "0 < y"
  proof (rule ccontr)
    assume "\<not> 0 < y"
    then have "y / 2 powi e \<le> 0" by (simp add: divide_nonpos_pos)
    then have "m \<le> rne 0" unfolding m_def by (rule rne_mono)
    then show False using m by simp
  qed
  then have "y < 2 powi (ilog2 y + 1)" using ilog2_bounds [of y] by blast
  also have "\<dots> \<le> 2 powi (e + 24)" using y by (intro powi2_mono) (simp add: e_def)
  also have "\<dots> = 2 ^ 24 * 2 powi e" using power_int_add [of "2 :: rat" e 24] by simp
  finally have "y / 2 powi e \<le> of_int (2 ^ 24)" by (simp add: pos_divide_le_eq)
  then have "m \<le> rne (of_int (2 ^ 24))" unfolding m_def by (rule rne_mono)
  then have "m \<le> 2 ^ 24" by (simp only: rne_of_int)
  moreover have "- 149 \<le> e" by (simp add: e_def)
  ultimately show ?thesis using x m unfolding pos_float_def by blast
qed

section \<open>The search\<close>

definition goes_on :: "rat \<Rightarrow> nat \<Rightarrow> bool" where
  "goes_on x k \<longleftrightarrow> x * 2 ^ k < 100 \<or> max_pkts_per_sleep \<le> 2 ^ k"

lemma spread_turns:
  assumes "pos_float x" "\<forall>j < k. goes_on x j" "k \<le> 200"
  shows "spread (Fin x) 1 = spread (Fin (x * 2 ^ k)) (2 ^ k) \<and> pos_float (x * 2 ^ k)"
  using assms(2,3)
proof (induction k)
  case (Suc k)
  have pos: "0 < x" using pos_float_pos [OF assms(1)] .
  have step: "goes_on x k" "goes_on x 0" and ih: "spread (Fin x) 1 = spread (Fin (x * 2 ^ k)) (2 ^ k)" "pos_float (x * 2 ^ k)"
    using Suc by simp_all
  have first: "x < 100" using step(2) by (simp add: goes_on_def max_pkts_per_sleep_def word_le_nat_alt)
  have small: "x * 2 ^ k < 2 powi 72"
  proof (cases "x * 2 ^ k < 100")
    case True
    also have "(100 :: rat) < 2 powi 72" by (simp add: power_int_def)
    finally show ?thesis .
  next
    case False
    then have "max_pkts_per_sleep \<le> 2 ^ k" using step(1) by (simp add: goes_on_def)
    moreover have "\<not> max_pkts_per_sleep \<le> 0" by (simp add: max_pkts_per_sleep_def)
    ultimately have "(2 :: u64) ^ k \<noteq> 0" by metis
    then have "k < 64" by simp
    then have "(2 :: rat) ^ k \<le> 2 ^ 63" by (intro power_increasing) simp_all
    then have "x * 2 ^ k \<le> 100 * 2 ^ 63" using first pos by (intro mult_mono) simp_all
    also have "(100 * 2 ^ 63 :: rat) < 2 powi 72" by (simp add: power_int_def)
    finally show ?thesis .
  qed
  note double = pos_float_double [OF ih(2) small]
  have "spread (Fin (x * 2 ^ k)) (2 ^ k) = spread (Fin (2 * (x * 2 ^ k))) (2 ^ k * 2)"
    using step(1) double(1) by (subst spread.simps) (simp add: goes_on_def)
  then show ?case using ih(1) double(2) by (simp add: mult_ac)
qed (use assms(1) in simp)

lemma spread_stops:
  assumes "pos_float x" "\<forall>j < k. goes_on x j" "k \<le> 200" "\<not> goes_on x k"
  shows "spread (Fin x) 1 = Some (Fin (x * 2 ^ k), 2 ^ k)"
proof -
  have "spread (Fin (x * 2 ^ k)) (2 ^ k) = Some (Fin (x * 2 ^ k), 2 ^ k)"
    using assms(4) by (subst spread.simps) (simp add: goes_on_def)
  then show ?thesis using spread_turns [OF assms(1-3)] by simp
qed

text \<open>For a positive wait a turn that stops the loop is found; its number of packets per sleep.\<close>

lemma pow_wraps: "(2 :: u64) ^ k = 0 \<longleftrightarrow> 64 \<le> k"
  by simp

lemma pow_small: "k < 64 \<Longrightarrow> max_pkts_per_sleep \<le> 2 ^ k \<longleftrightarrow> 14 \<le> k"
proof -
  assume k: "k < 64"
  have "unat (of_nat (2 ^ k) :: u64) = 2 ^ k"
    using k power_strict_increasing [of k 64 "2 :: nat"] by (simp add: unsigned_of_nat take_bit_nat_eq_self del: of_nat_power)
  then have "unat ((2 :: u64) ^ k) = 2 ^ k" by simp
  then have "max_pkts_per_sleep \<le> 2 ^ k \<longleftrightarrow> (10000 :: nat) \<le> 2 ^ k"
    by (simp add: max_pkts_per_sleep_def word_le_nat_alt)
  also have "\<dots> \<longleftrightarrow> 14 \<le> k"
  proof
    assume "14 \<le> k"
    then have "(2 :: nat) ^ 14 \<le> 2 ^ k" by (intro power_increasing) simp_all
    then show "(10000 :: nat) \<le> 2 ^ k" by simp
  next
    assume k: "(10000 :: nat) \<le> 2 ^ k"
    show "14 \<le> k"
    proof (rule ccontr)
      assume "\<not> 14 \<le> k"
      then have "(2 :: nat) ^ k \<le> 2 ^ 13" by (intro power_increasing) simp_all
      then show False using k by simp
    qed
  qed
  finally show ?thesis .
qed

lemma goes_on_iff: "goes_on x k \<longleftrightarrow> x * 2 ^ k < 100 \<or> 14 \<le> k \<and> k < 64"
proof (cases "k < 64")
  case False
  then have "(2 :: u64) ^ k = 0" by simp
  moreover have "\<not> max_pkts_per_sleep \<le> 0" by (simp add: max_pkts_per_sleep_def)
  ultimately have "\<not> max_pkts_per_sleep \<le> 2 ^ k" by metis
  then show ?thesis using False by (simp add: goes_on_def)
qed (simp add: goes_on_def pow_small)

lemma spread_positive:
  assumes "pos_float x"
  obtains t k where "spread (Fin x) 1 = Some (t, 2 ^ k)" "64 \<le> k \<longleftrightarrow> x < 100 / 2 ^ 13"
proof -
  have pos: "0 < x" using pos_float_pos [OF assms] .
  have "100 \<le> x * 2 ^ 200"
  proof -
    have "2 powi (- 149) * 2 ^ 200 \<le> x * 2 ^ 200" by (rule mult_right_mono [OF pos_float_least [OF assms]]) simp
    moreover have "(100 :: rat) \<le> 2 powi (- 149) * 2 ^ 200" by simp
    ultimately show ?thesis by linarith
  qed
  then have stop: "\<not> goes_on x 200" by (simp add: goes_on_iff)
  define k where "k = (LEAST k. \<not> goes_on x k)"
  have k: "\<not> goes_on x k" "k \<le> 200" "\<forall>j < k. goes_on x j"
    using stop unfolding k_def by (rule LeastI, rule Least_le, blast dest: not_less_Least)
  have "64 \<le> k \<longleftrightarrow> x < 100 / 2 ^ 13"
  proof
    assume "64 \<le> k"
    then have "goes_on x 13" using k(3) by simp
    then show "x < 100 / 2 ^ 13" by (simp add: goes_on_iff)
  next
    assume x: "x < 100 / 2 ^ 13"
    show "64 \<le> k"
    proof (rule ccontr)
      assume "\<not> 64 \<le> k"
      then have "k \<le> 13" "100 \<le> x * 2 ^ k" using k(1) by (auto simp: goes_on_iff not_less)
      have "x * 2 ^ k \<le> x * 2 ^ 13" using \<open>k \<le> 13\<close> pos by (intro mult_left_mono power_increasing) simp_all
      then show False using x \<open>100 \<le> x * 2 ^ k\<close> by simp
    qed
  qed
  then show thesis using that spread_stops [OF assms k(3,2,1)] by blast
qed

text \<open>A wait that is not positive stays so, and the loop goes on for ever.\<close>

fun not_pos :: "dbl \<Rightarrow> bool" where
  "not_pos (Fin x) \<longleftrightarrow> x \<le> 0"
| "not_pos MInf \<longleftrightarrow> True"
| "not_pos _ \<longleftrightarrow> False"

lemma round_at_nonpos: "x \<le> 0 \<Longrightarrow> round_at e x \<le> 0"
  using round_at_mono [of x 0 e] by (simp add: round_at_def)

lemma rnd_not_pos: "x \<le> 0 \<Longrightarrow> not_pos (rnd x)" "x \<le> 0 \<Longrightarrow> not_pos (rnd32 x)"
proof -
  assume x: "x \<le> 0"
  have "\<not> 2 ^ 1024 \<le> round_at e x" "\<not> 2 ^ 128 \<le> round_at e x" for e
    using round_at_nonpos [OF x, of e] zero_less_power [of "2 :: rat"] by (meson not_le order_le_less_trans zero_less_numeral)+
  then show "not_pos (rnd x)" "not_pos (rnd32 x)"
    using round_at_nonpos [OF x] by (simp_all add: rnd_def rnd32_def Let_def)
qed

lemma not_pos_double: "not_pos t \<Longrightarrow> not_pos (to_float (dmul t (Fin 2)))"
proof (cases t)
  case (Fin x)
  assume "not_pos t"
  then have "not_pos (rnd (x * 2))" using rnd_not_pos(1) [of "x * 2"] Fin by simp
  then show ?thesis using rnd_not_pos(2) by (cases "rnd (x * 2)") (simp_all add: Fin)
qed (simp_all add: inf_sgn_def)

lemma not_pos_less: "not_pos t \<Longrightarrow> dless t (Fin 100)"
  by (cases t) simp_all

lemma spread_not_pos: "spread t p = Some r \<Longrightarrow> \<not> not_pos t"
proof (rule spread.raw_induct [where P = "\<lambda>t p r. \<not> not_pos t"])
  fix f :: "dbl \<Rightarrow> u64 \<Rightarrow> (dbl \<times> u64) option" and t p r
  assume ih: "\<And>t p r. f t p = Some r \<Longrightarrow> \<not> not_pos t"
    and body: "(if dless t (Fin 100) \<or> max_pkts_per_sleep \<le> p then f (to_float (dmul t (Fin 2))) (p * 2) else Some (t, p)) = Some r"
  show "\<not> not_pos t"
    using ih [of "to_float (dmul t (Fin 2))" "p * 2" r] body not_pos_double [of t] not_pos_less [of t] by auto
qed

section \<open>Properties\<close>

text \<open>C22: The search for the wait before the first packet returns exactly for a wait that is positive (or
  not a number): for a negative rate, and for one so large that the quotient is rounded to zero, the
  tool hangs. When it returns, the number of packets per sleep is usable unless the wait is shorter than
  100 / 8192 microseconds: then 16384 packets would have to be sent between two sleeps, which the
  loop does not accept, so that it goes on until the number has wrapped around to 0, and the first turn
  after the start ends the tool with a division by zero.\<close>

theorem wait_search_outcome:
  "((\<exists>s. shooter_start d_rate a_rate tv_sec tv_usec = Some s) \<longleftrightarrow> \<not> not_pos (first_wait d_rate))
   \<and> (\<forall>s. shooter_start d_rate a_rate tv_sec tv_usec = Some s \<longrightarrow>
        (sh_pkts_per_sleep s = 0 \<longleftrightarrow> dless (first_wait d_rate) (Fin (100 / 2 ^ 13)))
      \<and> (sh_pkts_per_sleep s = 0 \<longrightarrow> snd (shoot_turn d_rate run_time start_time i s) \<in> {Inl TimeUp, Inl RemainderByZero}))"
proof -
  define t where "t = first_wait d_rate"
  have at_once: "spread t 1 = Some (t, 1)" if "\<not> dless t (Fin 100)"
    using that by (subst spread.simps) (simp add: max_pkts_per_sleep_def word_le_nat_alt)
  have pos: "\<exists>u p. spread t 1 = Some (u, p) \<and> (p = 0 \<longleftrightarrow> dless t (Fin (100 / 2 ^ 13)))" if "\<not> not_pos t"
  proof (cases t)
    case (Fin x)
    then have "pos_float x" using that rnd32_pos_float by (cases "ddiv (dmul (Fin 1000000) (Fin 1080)) d_rate") (auto simp: t_def first_wait_def)
    then obtain u k where "spread t 1 = Some (u, 2 ^ k)" "64 \<le> k \<longleftrightarrow> x < 100 / 2 ^ 13" using spread_positive Fin by metis
    then show ?thesis using Fin by simp
  qed (use that at_once in simp_all)
  have neg: "spread t 1 = None" if "not_pos t"
    using that spread_not_pos [of t 1] by (cases "spread t 1") auto
  show ?thesis
  proof (cases "not_pos t")
    case True
    then show ?thesis using neg by (simp add: shooter_start_def t_def)
  next
    case False
    then obtain u p where "spread t 1 = Some (u, p)" "p = 0 \<longleftrightarrow> dless t (Fin (100 / 2 ^ 13))" using pos by blast
    then show ?thesis using False by (auto simp: shooter_start_def t_def shoot_turn_def Let_def)
  qed
qed


lemma wait_search_outcome_witness:
  "\<exists>s. shooter_start (Fin 1105920000000) (Fin 0) 0 0 = Some s \<and> sh_pkts_per_sleep s = 0
    \<and> snd (shoot_turn (Fin 1105920000000) 10 0 sample_turn_input s) \<in> {Inl TimeUp, Inl RemainderByZero}"
proof -
  have t: "first_wait (Fin 1105920000000) = Fin (1 / 1024)" by (simp add: first_wait_def rnd_defs rnd32_def)
  then show ?thesis
    using wait_search_outcome [of "Fin 1105920000000" "Fin 0" 0 0 10 0 sample_turn_input] by auto
qed

end
