(* ===== verification/Packet_Print.thy ===== *)
theory Packet_Print
  imports Sdds_Packet C_Strings
begin

text \<open>
  \<open>SDDSpacket::printPacket\<close>: the text it writes to the console, and what it leaves behind in the state
  of the stream. A double is printed in the default format of C++ streams, with six digits.
\<close>

section \<open>Six digits\<close>

text \<open>The decimal exponent of a positive number in the range of a double, and its six leading digits.\<close>

definition dec_exp :: "rat \<Rightarrow> int" where
  "dec_exp x = (if 1 \<le> x then int (length (takeWhile (\<lambda>k. 10 ^ (k + 1) \<le> x) [0 ..< 400]))
     else - int (length (takeWhile (\<lambda>k. x * 10 ^ k < 1) [0 ..< 400])))"

definition six_digits :: "rat \<Rightarrow> int \<times> int" where
  "six_digits x = (let e = dec_exp x; n = rne (x / 10 powi (e - 5)) in
     if n = 1000000 then (100000, e + 1) else (n, e))"

definition with_fraction :: "string \<Rightarrow> string \<Rightarrow> string" where
  "with_fraction w f = (let f = rev (dropWhile (\<lambda>c. c = CHR ''0'') (rev f)) in if f = [] then w else w @ ''.'' @ f)"

definition positive_text :: "rat \<Rightarrow> string" where
  "positive_text x = (let (n, e) = six_digits x; ds = decimal (nat n) in
     if 0 \<le> e \<and> e < 6 then with_fraction (take (nat e + 1) ds) (drop (nat e + 1) ds)
     else if - 4 \<le> e \<and> e < 0 then with_fraction ''0'' (replicate (nat (- e) - 1) (CHR ''0'') @ ds)
     else with_fraction (take 1 ds) (drop 1 ds) @ (if 0 \<le> e then ''e+'' else ''e-'')
       @ (if \<bar>e\<bar> < 10 then ''0'' else '''') @ decimal (nat \<bar>e\<bar>))"

fun dbl_text :: "dbl \<Rightarrow> string" where
  "dbl_text (Fin x) = (if x = 0 then ''0'' else if x < 0 then ''-'' @ positive_text (- x) else positive_text x)"
| "dbl_text PInf = ''inf''"
| "dbl_text MInf = ''-inf''"
| "dbl_text NaN = ''-nan''"

section \<open>The packet\<close>

definition endl :: char where "endl = CHR 0x0A"

definition lower :: "char \<Rightarrow> char" where
  "lower c = (if 65 \<le> (of_char c :: nat) \<and> of_char c \<le> (70 :: nat) then char_of (of_char c + 32 :: nat) else c)"

definition hex_lower :: "nat \<Rightarrow> string" where
  "hex_lower n = map lower (hex_upper n)"

definition bit_text :: "bool \<Rightarrow> string" where
  "bit_text b = (if b then ''1'' else ''0'')"

definition flag_text :: "u16 \<Rightarrow> string" where
  "flag_text w = decimal (unat w)"

text \<open>The text, and whether the stream prints integers in hexadecimal from then on.\<close>

definition printPacket :: "SDDSpacket \<Rightarrow> string \<times> bool" where
  "printPacket p =
     (''-------'' @ [endl] @ '' sf:'' @ bit_text (pkt_sf p) @ '' sos:'' @ bit_text (pkt_sos p)
      @ '' pp:'' @ bit_text (pkt_pp p) @ '' of:'' @ bit_text (pkt_of p) @ '' ss:'' @ bit_text (pkt_ss p)
      @ '' dmode:'' @ decimal (unat (pkt_dmode p)) @ '' bps:'' @ decimal (unat (pkt_bps p))
      @ '' seq:'' @ decimal (unat (get_seq p)) @ [endl]
      @ '' msv:'' @ flag_text (get_msv p) @ '' ttv:'' @ flag_text (get_ttv p) @ '' sscv:'' @ flag_text (get_sscv p)
      @ '' msptr:'' @ decimal (unat (get_msptr p)) @ '' msdel:'' @ decimal (unat (get_msdel p))
      @ '' ttag:'' @ hex_lower (unat (swap8 (pkt_ttag p))) @ '' ttage:'' @ hex_lower (unat (htonl (pkt_ttage p))) @ [endl]
      @ '' dFdT:'' @ dbl_text (get_dfdt p) @ '' freq:'' @ dbl_text (get_freq p) @ [endl], True)"

end
