(* ===== verification/Error_Text.thy ===== *)
theory Error_Text
  imports C_Strings
begin

text \<open>
  The checks of \<open>socketUtils\<close>: a condition that does not hold throws an exception, whose text names the
  place, the error number and the condition. \<open>strerror\<close> is the text the C library has for a number.
\<close>

definition decimal_int :: "int \<Rightarrow> string" where
  "decimal_int n = (if n < 0 then ''-'' else '''') @ decimal (nat \<bar>n\<bar>)"

section \<open>SourceNicUtils\<close>

definition max_bufsize :: nat where "max_bufsize = 1024"

text \<open>The text of \<open>snprintf\<close>, cut to the array of \<open>max_bufsize\<close> characters.\<close>

definition error_text :: "(int \<Rightarrow> string) \<Rightarrow> string \<Rightarrow> string \<Rightarrow> string \<Rightarrow> int \<Rightarrow> int \<Rightarrow> string" where
  "error_text strerror message condtext file line errno =
     ''Verify '' @ [CHR 0x27] @ file @ [CHR 0x27] @ '' failed at line '' @ decimal_int line @ '': '' @ message
     @ (if errno \<noteq> 0 then '' [errno '' @ decimal_int errno @ '': '' @ strerror errno @ '']'' else '''')
     @ '' ('' @ condtext @ '')''"

definition verify_error :: "(int \<Rightarrow> string) \<Rightarrow> string \<Rightarrow> string \<Rightarrow> string \<Rightarrow> int \<Rightarrow> int \<Rightarrow> string" where
  "verify_error strerror message condtext file line errno =
     take (max_bufsize - 1) (error_text strerror message condtext file line errno)"

text \<open>\<open>Inl\<close> is the exception \<open>BadParameterError\<close> with its text.\<close>

definition verify :: "(int \<Rightarrow> string) \<Rightarrow> int \<Rightarrow> string \<Rightarrow> string \<Rightarrow> string \<Rightarrow> int \<Rightarrow> int \<Rightarrow> string + unit" where
  "verify strerror condition message condtext file line errno =
     (if condition = 0 then Inl (verify_error strerror message condtext file line errno) else Inr ())"

section \<open>unicast.cpp\<close>

text \<open>Four copies that differ in the level of the log message; the exception is \<open>BadParameterError3\<close>.\<close>

definition unicast_verify :: "(int \<Rightarrow> string) \<Rightarrow> int \<Rightarrow> string \<Rightarrow> string \<Rightarrow> string \<Rightarrow> int \<Rightarrow> int \<Rightarrow> string + unit" where
  "unicast_verify strerror condition message condtext file line errno =
     (if condition = 0 then Inl (''unicast: Verify failed ['' @ decimal_int errno @ '':'' @ strerror errno @ ''] '' @ file
        @ '' at line '' @ decimal_int line @ '': '' @ message @ '' ('' @ condtext @ '')'') else Inr ())"

definition verify_warn :: "(int \<Rightarrow> string) \<Rightarrow> int \<Rightarrow> string \<Rightarrow> string \<Rightarrow> string \<Rightarrow> int \<Rightarrow> int \<Rightarrow> string + unit" where
  "verify_warn = unicast_verify"

definition verify_info :: "(int \<Rightarrow> string) \<Rightarrow> int \<Rightarrow> string \<Rightarrow> string \<Rightarrow> string \<Rightarrow> int \<Rightarrow> int \<Rightarrow> string + unit" where
  "verify_info = unicast_verify"

definition verify_debug :: "(int \<Rightarrow> string) \<Rightarrow> int \<Rightarrow> string \<Rightarrow> string \<Rightarrow> string \<Rightarrow> int \<Rightarrow> int \<Rightarrow> string + unit" where
  "verify_debug = unicast_verify"

section \<open>What the exceptions tell\<close>

text \<open>A check throws exactly when its condition is zero. The text always fits the array; it starts with the
  place and the message, so that what is cut from a text that is too long is its end, first of all the
  condition.\<close>

lemma verify_outcome:
  "verify strerror condition message condtext file line errno = Inr () \<longleftrightarrow> condition \<noteq> 0"
  "verify strerror condition message condtext file line errno = Inl text' \<Longrightarrow> length text' < max_bufsize
     \<and> is_prefix text' (error_text strerror message condtext file line errno)"
proof -
  have prefix: "is_prefix (take n s) s" for n s
    by (induction s arbitrary: n) (auto simp: take_Cons split: nat.split)
  show "verify strerror condition message condtext file line errno = Inl text' \<Longrightarrow> length text' < max_bufsize
     \<and> is_prefix text' (error_text strerror message condtext file line errno)"
    by (auto simp: verify_def verify_error_def max_bufsize_def prefix split: if_splits)
qed (simp add: verify_def)

end
