(* ===== verification/Spec2Isabelle.thy ===== *)
theory Spec2Isabelle
  imports Processor_Atomic Wake_Up Stream_Start Life_Cycle Base_Class Status_Text Shooter_Pipeline Shooter_Wait
    Packet_Print Error_Text
begin

text \<open>
  \<^bold>\<open>SourceSDDS: a verification development.\<close>

  SourceSDDS receives SDDS packets (1080 bytes: a header and 1024 bytes of samples) over UDP and
  hands their samples to BulkIO ports. Two threads share a pool of packet buffers: the socket
  reader fills empty buffers and queues them, the processor takes full ones, checks and converts
  them and gives them back. A REDHAWK component starts and stops the threads, from its properties
  or from a stream that another component attaches.

  \<^bold>\<open>Theories and the code they model\<close> (paths under \<open>src/cpp\<close>)

  \<^item> \<open>Sdds_Prelude\<close>: names of the machine integers, the faults of the data path and the result type
    \<open>fault + 'a\<close>, lemma collections, generic lemmas.
  \<^item> \<open>Binary64\<close>, \<open>Binary32\<close>: the C++ \<open>double\<close> and \<open>float\<close>, with rounding written out. \<open>Byte_Order\<close>: bytes in memory, \<open>ntohs\<close>,
    \<open>ntohl\<close> and \<open>swap8\<close>. \<open>C_Strings\<close>: the string functions of the C library the program uses.
  \<^item> \<open>Sdds_Time\<close>, \<open>Sdds_Packet\<close>: the classes \<open>SDDSTime\<close> and \<open>SDDSpacket\<close> of \<open>sddspacket.h\<close>, the packet
    as a record in memory order with its bytes. \<open>Packet_Print\<close>: the text of \<open>printPacket\<close>.
  \<^item> \<open>Packet_Buffer\<close>: the template \<open>SmartPacketBuffer.h\<close>; one definition per operation, each run under
    one mutex; blocking on a condition variable is the result None.
  \<^item> \<open>Bulkio_Utils\<close>: \<open>SddsToBulkIOUtils.cpp\<close> (time stamps, SRI merging).
  \<^item> \<open>Sdds_Processor\<close>: the class \<open>SddsToBulkIOProcessor\<close>; \<open>run\<close> is \<open>run_begin\<close>, \<open>run_turn\<close>, \<open>run_end\<close>, and
    calls on output streams are entries of the history \<open>m_calls\<close>. Its properties are in
    \<open>Processor_Invariants\<close>, \<open>Processor_Progress\<close>, \<open>Processor_Stream\<close> and \<open>Processor_Atomic\<close>.
    \<open>Packet_Spec\<close>: the specification of what it makes of any packets (\<open>track\<close>, \<open>outputs\<close>), and that
    \<open>process_packet\<close> implements it.
  \<^item> \<open>Socket_Reader\<close>: the thread of the class \<open>SocketReader\<close>. \<open>Connection\<close>: its \<open>setConnectionInfo\<close> and
    \<open>getMcastIfaceFromRoutes\<close>, and \<open>socketUtils/multicast.cpp\<close> and \<open>unicast.cpp\<close>. \<open>Error_Text\<close>: the
    checks of \<open>socketUtils\<close> and the texts of their exceptions.
  \<^item> \<open>Pipeline\<close>: both threads and the thread that stops them, as the step relation \<open>sys_step\<close> over the
    shared buffer: a step is a critical section, a system call or the work on one packet. The socket
    delivers any datagrams; a packet is what a buffer holds after one is copied into it. A blocked
    thread tries again in a later state. \<open>Wake_Up\<close>: the same threads with their waits on the
    condition variables, \<open>fine_step\<close>: a thread tests its predicate, falls asleep, and tests again
    only when a notification, a step of its own of the other threads, has woken it.
    \<open>Pipeline_Stream\<close>: what the processor's theories say of one pass, for every run of the pipeline.
    \<open>Pipeline_Spec\<close>: every run implements the specification. \<open>Pipeline_Progress\<close>: how many
    steps the processor needs until it has caught up with what arrived. \<open>Stream_Start\<close>: an undisturbed
    stream from its first packet on.
  \<^item> \<open>Affinity\<close>: \<open>AffinityUtils.h\<close>. \<open>Property_Structs\<close>: \<open>struct_props.h\<close>. \<open>Component\<close>: the class
    \<open>SourceSDDS_i\<close> of \<open>SourceSDDS.cpp\<close>; \<open>_start\<close> is called \<open>start_workers\<close>. \<open>Life_Cycle\<close>: any sequence of
    the component's operations, the pipeline running between them. \<open>Status_Text\<close>: the fill levels in the
    status. \<open>Base_Class\<close>: the generated
    \<open>SourceSDDS_base.cpp\<close>, the constructor and the destructor of the component.
  \<^item> \<open>Sdds_Shooter\<close>: the packet generator \<open>test_utils/sddsShooter.c\<close>, with its single precision times.
    \<open>Shooter_Wait\<close>: the search for the wait before its first packet. \<open>Shooter_Pipeline\<close>: its packets on their
    way through the component.

  \<^bold>\<open>What the lemmas show\<close>

  \<^item> Data: the packet layout is a bijection with 1080 bytes, accessors are in network order, and
    fields are independent; times add as 96-bit numbers; time stamps are exact to \<open>2^-51\<close> seconds.
  \<^item> Buffer: bulk operations conserve the packets of the pool and keep their order. The laws are the
    locale \<open>packet_pool\<close>, interpreted on the model of the class.
  \<^item> Processor: a pass has one possible fault, a division by zero for 1 to 7 bits per sample, and
    otherwise keeps its invariant; it moves packets from the front of the work queue to the end of
    the recycle queue; data with different time tag flags never share a push. A queue of \<open>n\<close>
    packets is done within \<open>3 n\<close> passes. The specification moves three numbers with each packet:
    the sequence number that continues the stream, the bits per sample of the stream, and the packets
    missing so far; \<open>process_packet\<close> does such a step, or prepares it and returns the packet
    (\<open>process_packet_spec\<close>). What a new SRI or a stop does in the
    middle of a packet might as well happen before and after it. \<open>expected_numbers_closed_form\<close>,
    \<open>gap_counts_dropped\<close> and \<open>time_slips_counted\<close> describe the bookkeeping.
  \<^item> Reader: a batch reaches the queue in order; the table given to the kernel always points to the
    buffers the reader holds.
  \<^item> Pipeline: over every interleaving what arrived is what was processed and what waits, in order;
    each packet has one owner; the threads block each other exactly when the pool is smaller than
    the two batch sizes less one. Until a stop raises the flag of the buffer no wake-up is lost, so the sleeping
    threads can do whatever the pipeline can. \<open>shutDown\<close> notifies without the mutex: a stop ends the
    processing thread unless it came before the thread's first line, or notified the thread just
    before it fell asleep; then the thread never ends, nor does the join.
    An uninterrupted turn of the thread is \<open>run_turn\<close>, so the processor keeps its invariant and the
    rules of what it sends. Whatever arrives, the data that comes out is what the specification makes of
    the packets handled, and the processor catches up with it: \<open>behind\<close> bounds the steps it needs. On an
    undisturbed stream nothing else is sent between the samples (\<open>stream_is_uninterrupted\<close>).
  \<^item> Connection: which device a client opens, which route wins, and that setting a connection leaves
    exactly the new socket open.
  \<^item> Component: the workers exist both or neither, and only while the component is started; exactly while it
    is started and has a source, unless the override is turned on or off while it is started; a start
    configures them from the properties; the outcomes of \<open>attach\<close>; which settings can be changed
    when, and that they read back. What the component relies on in the setters of the workers is
    the locale \<open>guarded_setting\<close>, interpreted on five of them. The property structs survive the
    conversion to a CORBA value and back. Whatever happens in the component's life, its processor
    stays well formed, and after every start the processor meets the next
    packet as a first one, so that \<open>started_component_delivers\<close> below holds of every start. The fill levels in
    the status are right to the hundredth of a percent, but for the error of single precision.
  \<^item> Shooter: its packets carry the data sequence numbers the processor expects, and a component that
    was just started writes all of them without a loss. For which rates the tool starts to send.

  \<^bold>\<open>How the component and the pipeline fit together.\<close> \<open>start_workers\<close> leaves a new buffer, a reader
  and a processor, the arguments of \<open>Pipeline.started\<close>; \<open>start_deadlocks_iff_settings\<close> and
  \<open>started_component_delivers\<close> below join the two, for every start in the life of the component. What the threads do until they are joined is
  the argument \<open>mc_join\<close> of the component's operations; its laws, \<open>joins_stop\<close> and \<open>joins_keep\<close>, are what
  \<open>Pipeline.joins_of_pipeline\<close> and \<open>Life_Cycle.pipeline_worked\<close> show of every run. They speak of joins
  that return; an operation whose join never does is not a step of the component's life.

  \<^bold>\<open>Bounds and recursion.\<close> All loops are total functions. A loop that may not end has the result
  None: the search in the routing table, where an extraction fails on a malformed number and the
  stream never reaches its end; for a well-formed table within the buffer of one MiB it returns.
  The \<open>3 n\<close> passes are enough since a packet takes at most two passes that do not consume it: a
  change of the time tag flag flushes, a new SRI is sent, then the packet is written. A
  processor that was told to stop and will end does so within as many steps as its work queue has packets and
  six more: the rest of its turn, the test at the top, being woken and sending the notification it owes. Eighteen steps for each waiting packet and four more bring
  the processing thread to the point where it waits: a packet is met at most three times, each time with
  at most the test, the pop, two entries of the work loop, the packet and the recycling; the four are an
  empty turn. The search for the wait of the shooter is a
  \<open>partial_function\<close>: for a wait that is not positive it never ends, which \<open>Shooter_Wait\<close> proves, and that
  it ends otherwise; 200 doublings bring the smallest float past any limit.

  \<^bold>\<open>Arguments of the model.\<close> The CORBA and REDHAWK framework, the BulkIO streams, the kernel (system
  calls and the files under \<open>/proc\<close> and \<open>/sys\<close>), the clock, and the thread library: their results
  are fields of records (\<open>platform\<close>, \<open>network\<close>, \<open>machine\<close>, \<open>corba_values\<close>) or arguments. The host is little endian.

  \<^bold>\<open>Not modelled.\<close> Logging; \<open>main.cpp\<close>; the wrappers of single
  system calls in \<open>socketUtils\<close> and the shooter's arguments, socket and sleeping; the Python tests; what
  the framework does with the ports, properties and callbacks it is given. The operations of the component
  are called one after another, as if the framework let no two overlap. A buffer operation that tests the flag
  and then takes the mutex is one step, so none overlaps with \<open>shutDown\<close>: a push that did would leave its
  packets in a deque already cleared, which the next start clears again. The upstream SRI may change between any two steps of the pipeline, also between two
  packets of a pass. A new SRI in the middle of the work on a packet changes nothing but the order of
  the steps, as \<open>Processor_Atomic\<close> shows; an \<open>unsetUpstreamSri\<close> there writes \<open>m_sri\<close> and
  \<open>m_endianness\<close> while the processing thread reads them without the lock, a data race that has no
  defined behaviour in C++.
\<close>

section \<open>From the settings to the running threads\<close>

text \<open>C14:
  Every start of the component, the first as well as any later one in its life, hands the threads a
  state in which the pipeline begins: the same buffer, and a reader and a processor it is made for.
  So whether its threads can come to wait for each other depends on the properties alone: they can
  exactly when the buffer size is less than the packets per socket read and the (clamped) packets
  per push, less one.
\<close>

theorem start_deadlocks_iff_settings:
  assumes "life_step\<^sup>*\<^sup>* (new_component M0 up T vlan port) c" "\<not> c_started c" "source_given c"
    and "start M c = Some (None, c')" "nt_socket (mc_network M) \<noteq> 0" "\<forall>p. wf_packet (mem p)"
    and "capacity = unat (buffer_size (c_optim c))" "n = unat (pkts_per_socket_read (c_optim c))"
    and "np = clamped_push (mc_platform M) (ucast (sdds_pkts_per_bulkio_push (c_optim c)))"
    and "0 < n" "n \<le> capacity"
  shows "c_buf c' = sy_buf (started (c_next c) capacity mem (c_reader c') (c_proc c'))
    \<and> start_ok n np mem (c_reader c') (c_proc c')
    \<and> ((\<exists>evs s. sys_run P confirm (started (c_next c) capacity mem (c_reader c') (c_proc c')) evs s
          \<and> \<not> buf_shuttingDown (sy_buf s) \<and> reader_blocked confirm s \<and> proc_blocked s)
       \<longleftrightarrow> capacity + 2 \<le> n + unat np)"
proof -
  have none: "c_reader_thread c = None" "\<not> c_proc_thread c"
    using reachable_paired [OF assms(1)] assms(2) by (auto simp: workers_paired_def)
  obtain d where d: "start_workers M c = Some (None, d)" "c' = d\<lparr>c_started := True\<rparr>"
    using assms(4) by (cases rule: start_cases) (use assms(2,3) in auto)
  note hand = start_hands_over [OF d(1) none assms(5) life_keeps [OF assms(1)] assms(6,7,8,9)]
  from hand deadlock_iff [OF hand(2) assms(10,11)] show ?thesis by (simp add: d(2))
qed

lemma start_deadlocks_iff_settings_witness:
  "\<exists>c'. start sample_machine sample_component = Some (None, c')
    \<and> c_buf c' = sy_buf (started 0 20000 (\<lambda>_. blank_packet) (c_reader c') (c_proc c'))
    \<and> ((\<exists>evs s. sys_run sample_platform False
            (started 0 20000 (\<lambda>_. blank_packet) (c_reader c') (c_proc c')) evs s
          \<and> \<not> buf_shuttingDown (sy_buf s) \<and> reader_blocked False s \<and> proc_blocked s)
       \<longleftrightarrow> 20000 + 2 \<le> 500 + unat (clamped_push (mc_platform sample_machine)
             (ucast (sdds_pkts_per_bulkio_push (c_optim sample_component)))))"
proof -
  obtain d where d: "start_workers sample_machine sample_component = Some (None, d)"
    using sample_starts by blast
  then have start: "start sample_machine sample_component = Some (None, d\<lparr>c_started := True\<rparr>)"
    using sample_state by (simp add: start_def)
  have optim: "c_optim sample_component = new_advanced_optimizations" "c_next sample_component = 0"
    by (simp_all add: sample_component_def with_stream_def new_component_def sample_machine_def)
  have size: "20000 = unat (buffer_size (c_optim sample_component))"
      "500 = unat (pkts_per_socket_read (c_optim sample_component))"
    by (simp_all add: optim new_advanced_optimizations_def)
  have mem: "\<forall>p. wf_packet ((\<lambda>_ :: nat. blank_packet) p)"
    using sample_start by (simp add: start_ok_def)
  have sock: "nt_socket (mc_network sample_machine) \<noteq> 0"
    by (simp add: sample_machine_def example_network_def)
  have source: "source_given sample_component" using sample_state by (simp add: source_given_def)
  have bounds: "0 < (500 :: nat)" "(500 :: nat) \<le> 20000" by simp_all
  from start_deadlocks_iff_settings [OF sample_life sample_state(1) source start sock mem size refl bounds,
      of sample_platform False] start
  show ?thesis unfolding optim(2) by blast
qed




end
